(* ===== verification/Prelude.thy ===== *)
theory Prelude
  imports Main "HOL-Library.Word" "HOL-Library.Monad_Syntax" "HOL-Library.Signed_Division"
begin

text \<open>
  Shared vocabulary of the development: two's-complement 64-bit arithmetic on \<^typ>\<open>int\<close>,
  the ordered associative container \<^verbatim>\<open>std::map\<close> as a sorted association list, and the
  generic notion of a guarded machine whose steps can fail.

  A partial C++ operation (one that may dereference a dangling pointer or fail an
  \<^verbatim>\<open>assert\<close>) returns an option; \<^const>\<open>None\<close> stands for an execution
  whose behaviour C++ leaves undefined.
\<close>

named_theorems domain_defs \<open>definitions of the scalar domain types\<close>
named_theorems heap_frame \<open>frame facts: what an operation leaves untouched on the heap\<close>

lemma map_filter_snoc [simp]: "List.map_filter f (xs @ ys) = List.map_filter f xs @ List.map_filter f ys"
  by (induction xs) (auto simp: List.map_filter_simps split: option.splits)

lemma find_map: "find P (map f xs) = map_option f (find (P \<circ> f) xs)"
  by (induction xs) auto

section \<open>Decimal numerals\<close>

definition digit_char :: "nat \<Rightarrow> char" where
  "digit_char d = char_of (48 + d)"

text \<open>\<^verbatim>\<open>std::to_string\<close> of an unsigned value.\<close>

fun nat_string :: "nat \<Rightarrow> string" where
  "nat_string n = (if n < 10 then [digit_char n] else nat_string (n div 10) @ [digit_char (n mod 10)])"

declare nat_string.simps [simp del]

section \<open>Two's-complement 64-bit integers\<close>

text \<open>
  An \<^verbatim>\<open>int64_t\<close> value is an integer in \<open>[-2^63, 2^63)\<close>; the result of an
  arithmetic operation is wrapped into that range by \<open>i64\<close>.
\<close>

definition i64 :: "int \<Rightarrow> int" where
  "i64 x = (x + 2 ^ 63) mod 2 ^ 64 - 2 ^ 63"

definition in_i64 :: "int \<Rightarrow> bool" where
  "in_i64 x \<longleftrightarrow> - (2 ^ 63) \<le> x \<and> x < 2 ^ 63"

lemma i64_id: "in_i64 x \<Longrightarrow> i64 x = x"
  by (simp add: i64_def in_i64_def)

lemma i64_small [simp]: "- 9223372036854775808 \<le> x \<Longrightarrow> x < 9223372036854775808 \<Longrightarrow> i64 x = x"
  by (simp add: i64_def)

lemma in_i64_i64 [simp]: "in_i64 (i64 x)"
proof -
  have "0 \<le> (x + 2 ^ 63) mod 2 ^ 64" and "(x + 2 ^ 63) mod 2 ^ 64 < 2 ^ 64"
    by simp_all
  then show ?thesis by (simp add: i64_def in_i64_def)
qed

lemma i64_i64 [simp]: "i64 (i64 x) = i64 x"
  by (rule i64_id) simp

lemma i64_cong_mod: "i64 x = i64 y \<longleftrightarrow> x mod 2 ^ 64 = y mod 2 ^ 64"
proof
  assume "i64 x = i64 y"
  then have "(x + 2 ^ 63) mod 2 ^ 64 = (y + 2 ^ 63) mod 2 ^ 64" by (simp add: i64_def)
  then have "(x + 2 ^ 63 - 2 ^ 63) mod 2 ^ 64 = (y + 2 ^ 63 - 2 ^ 63) mod (2 ^ 64 :: int)"
    by (rule mod_diff_cong) simp
  then show "x mod 2 ^ 64 = y mod 2 ^ 64" by simp
next
  assume "x mod 2 ^ 64 = y mod 2 ^ 64"
  then have "(x + 2 ^ 63) mod 2 ^ 64 = (y + 2 ^ 63) mod (2 ^ 64 :: int)"
    by (rule mod_add_cong) simp
  then show "i64 x = i64 y" by (simp add: i64_def)
qed

lemma i64_mod: "i64 x mod 2 ^ 64 = x mod 2 ^ 64"
  using i64_cong_mod [of "i64 x" x] by simp

lemma i64_add_left [simp]: "i64 (i64 x + y) = i64 (x + y)"
  unfolding i64_cong_mod by (rule mod_add_cong) (simp_all only: i64_mod)

lemma i64_diff_left [simp]: "i64 (i64 x - y) = i64 (x - y)"
  unfolding i64_cong_mod by (rule mod_diff_cong) (simp_all only: i64_mod)

lemma i64_add_right [simp]: "i64 (y + i64 x) = i64 (y + x)"
  using i64_add_left [of x y] by (simp add: add.commute)

lemma i64_diff_right [simp]: "i64 (y - i64 x) = i64 (y - x)"
  unfolding i64_cong_mod by (rule mod_diff_cong) (simp_all only: i64_mod)

section \<open>Ordered maps\<close>

text \<open>
  \<^verbatim>\<open>std::map<K, V, Compare>\<close>: the elements in iteration order, first element
  \<^verbatim>\<open>begin()\<close>. \<open>emplace\<close> leaves the map as it is when the key is present;
  \<open>find\<close> is \<^const>\<open>map_of\<close>.
\<close>

fun omap_emplace :: "('k \<Rightarrow> 'k \<Rightarrow> bool) \<Rightarrow> 'k \<Rightarrow> 'v \<Rightarrow> ('k \<times> 'v) list \<Rightarrow> ('k \<times> 'v) list" where
  "omap_emplace lt k v [] = [(k, v)]"
| "omap_emplace lt k v ((a, b) # m) =
     (if lt k a then (k, v) # (a, b) # m
      else if lt a k then (a, b) # omap_emplace lt k v m
      else (a, b) # m)"

definition omap_erase :: "'k \<Rightarrow> ('k \<times> 'v) list \<Rightarrow> ('k \<times> 'v) list" where
  "omap_erase k m = filter (\<lambda>(a, _). a \<noteq> k) m"

lemma map_of_omap_erase [simp]: "map_of (omap_erase k m) = (map_of m)(k := None)"
  by (induction m) (auto simp: omap_erase_def)

lemma keys_omap_erase: "map fst (omap_erase k m) = filter (\<lambda>a. a \<noteq> k) (map fst m)"
  by (induction m) (auto simp: omap_erase_def)

lemma set_keys_omap_emplace: "fst ` set (omap_emplace lt k v m) \<subseteq> insert k (fst ` set m)"
  by (induction lt k v m rule: omap_emplace.induct) auto

text \<open>The contract of the comparator and what the container promises under it.\<close>

locale map_compare =
  fixes lt :: "'k \<Rightarrow> 'k \<Rightarrow> bool"
  assumes lt_irrefl: "\<not> lt a a"
    and lt_trans: "lt a b \<Longrightarrow> lt b c \<Longrightarrow> lt a c"
    and lt_total: "a \<noteq> b \<Longrightarrow> lt a b \<or> lt b a"
begin

lemma sorted_emplace:
  "sorted_wrt lt (map fst m) \<Longrightarrow> sorted_wrt lt (map fst (omap_emplace lt k v m))"
proof (induction m)
  case Nil
  show ?case by simp
next
  case (Cons x m)
  obtain a b where x: "x = (a, b)" by (cases x)
  have keys: "fst y = k \<or> fst y \<in> fst ` set m" if "y \<in> set (omap_emplace lt k v m)" for y
    using set_keys_omap_emplace [of lt k v m] that by auto
  have "lt a (fst y)" if "lt a k" and "y \<in> set (omap_emplace lt k v m)" for y
    using keys [OF that(2)] that(1) Cons.prems x by auto
  with Cons x show ?case by (auto intro: lt_trans)
qed

lemma map_of_emplace:
  "sorted_wrt lt (map fst m) \<Longrightarrow>
   map_of (omap_emplace lt k v m) = (if map_of m k = None then (map_of m)(k \<mapsto> v) else map_of m)"
proof (induction m)
  case Nil
  show ?case by simp
next
  case (Cons x m)
  obtain a b where x: "x = (a, b)" by (cases x)
  have notin: "k \<noteq> a \<and> map_of m k = None" if "lt k a"
  proof -
    have "k \<notin> fst ` set m"
    proof
      assume "k \<in> fst ` set m"
      then have "lt a k" using Cons.prems x by auto
      with that have "lt a a" by (blast intro: lt_trans)
      then show False by (simp add: lt_irrefl)
    qed
    then show ?thesis using that lt_irrefl by (auto simp: map_of_eq_None_iff)
  qed
  show ?case
  proof (cases "lt k a")
    case True
    with notin show ?thesis by (auto simp: x)
  next
    case False
    then show ?thesis using Cons lt_total [of k a] lt_irrefl [of a] by (auto simp: x)
  qed
qed

lemma sorted_erase: "sorted_wrt lt (map fst m) \<Longrightarrow> sorted_wrt lt (map fst (omap_erase k m))"
  by (simp add: keys_omap_erase sorted_wrt_filter)

lemma begin_least:
  assumes "sorted_wrt lt (map fst ((a, b) # m))" and "map_of ((a, b) # m) k = Some v"
  shows "k = a \<or> lt a k"
  using assms by (auto split: if_splits dest!: map_of_SomeD)

lemma distinct_keys: "sorted_wrt lt ks \<Longrightarrow> distinct ks"
  by (induction ks) (auto simp: lt_irrefl)

end

section \<open>Machines whose steps can fail\<close>

text \<open>
  A component is driven by a sequence of commands. The contract: from a state that satisfies
  the invariant, a command that its guard admits does not fail and re-establishes the
  invariant. The consequence for whole runs is proved once here.
\<close>

fun run_steps :: "('c \<Rightarrow> 's \<Rightarrow> 's option) \<Rightarrow> 'c list \<Rightarrow> 's \<Rightarrow> 's option" where
  "run_steps step [] s = Some s"
| "run_steps step (c # cs) s = (case step c s of None \<Rightarrow> None | Some s' \<Rightarrow> run_steps step cs s')"

fun admissible :: "('c \<Rightarrow> 's \<Rightarrow> 's option) \<Rightarrow> ('c \<Rightarrow> 's \<Rightarrow> bool) \<Rightarrow> 'c list \<Rightarrow> 's \<Rightarrow> bool" where
  "admissible step ok [] s = True"
| "admissible step ok (c # cs) s =
     (ok c s \<and> (case step c s of None \<Rightarrow> True | Some s' \<Rightarrow> admissible step ok cs s'))"

lemma admissible_always: "(\<And>c s'. c \<in> set cs \<Longrightarrow> ok c s') \<Longrightarrow> admissible step ok cs s"
  by (induction cs arbitrary: s) (auto split: option.splits)

lemma admissible_mono:
  "admissible step ok cs s \<Longrightarrow> (\<And>c s. c \<in> set cs \<Longrightarrow> ok c s \<Longrightarrow> ok' c s) \<Longrightarrow> admissible step ok' cs s"
  by (induction cs arbitrary: s) (auto split: option.splits)

lemma run_steps_append: "run_steps step (cs @ ds) s = Option.bind (run_steps step cs s) (run_steps step ds)"
  by (induction cs arbitrary: s) (auto split: option.splits)

locale guarded_machine =
  fixes step :: "'c \<Rightarrow> 's \<Rightarrow> 's option"
    and ok :: "'c \<Rightarrow> 's \<Rightarrow> bool"
    and inv :: "'s \<Rightarrow> bool"
  assumes step_ok: "inv s \<Longrightarrow> ok c s \<Longrightarrow> \<exists>s'. step c s = Some s' \<and> inv s'"
begin

lemma run_ok: "inv s \<Longrightarrow> admissible step ok cs s \<Longrightarrow> \<exists>s'. run_steps step cs s = Some s' \<and> inv s'"
proof (induction cs arbitrary: s)
  case Nil
  then show ?case by simp
next
  case (Cons c cs)
  then obtain s' where "step c s = Some s'" and "inv s'" using step_ok [of s c] by auto
  with Cons show ?case by simp
qed

end

text \<open>
  A functional refinement: the abstraction of the state after a concrete step is the abstract
  step applied to the abstraction of the state before it.
\<close>

locale refinement =
  fixes step :: "'c \<Rightarrow> 's \<Rightarrow> 's option"
    and spec :: "'c \<Rightarrow> 'a \<Rightarrow> 'a"
    and abs :: "'s \<Rightarrow> 'a"
    and ok :: "'c \<Rightarrow> 's \<Rightarrow> bool"
    and inv :: "'s \<Rightarrow> bool"
  assumes simulation: "inv s \<Longrightarrow> ok c s \<Longrightarrow>
      \<exists>s'. step c s = Some s' \<and> inv s' \<and> abs s' = spec c (abs s)"

sublocale refinement \<subseteq> guarded_machine step ok inv
  by unfold_locales (use simulation in blast)

context refinement
begin

lemma run_refines:
  "inv s \<Longrightarrow> admissible step ok cs s \<Longrightarrow>
   \<exists>s'. run_steps step cs s = Some s' \<and> inv s' \<and> abs s' = fold spec cs (abs s)"
proof (induction cs arbitrary: s)
  case Nil
  then show ?case by simp
next
  case (Cons c cs)
  then obtain s' where "step c s = Some s'" "inv s'" "abs s' = spec c (abs s)"
    using simulation [of s c] by auto
  with Cons.IH [of s'] Cons.prems show ?case by auto
qed

end

end
