(* ===== verification/Domain.thy ===== *)
theory Domain
  imports Prelude
begin

text \<open>
  The value types of the exchange: \<^verbatim>\<open>include/tt/common/types.hpp\<close> (identifiers,
  prices and quantities), \<^verbatim>\<open>include/tt/common/instrument.hpp\<close> (instrument
  descriptors, tick and lot rounding) and \<^verbatim>\<open>include/tt/core/order.hpp\<close> (orders and
  trades). Unsigned 64-bit identifiers are words; signed 64-bit tick and quantity fields are
  integers whose arithmetic wraps with \<^const>\<open>i64\<close>.
\<close>

section \<open>Identifiers and constants\<close>

type_synonym OrderId = "64 word"
type_synonym TradeId = "64 word"
type_synonym TraderId = "64 word"
type_synonym InstrumentId = "64 word"
type_synonym Sequence = "64 word"
type_synonym Timestamp = "64 word"

definition kPriceScale :: int where [domain_defs]: "kPriceScale = 1000000"
definition kMaxPriceTicks :: int where [domain_defs]: "kMaxPriceTicks = 1000000000000"
definition kMaxQuantity :: int where [domain_defs]: "kMaxQuantity = 1000000000000"
definition kInvalidPrice :: int where [domain_defs]: "kInvalidPrice = - (2 ^ 63)"
definition kInvalidOrderId :: OrderId where [domain_defs]: "kInvalidOrderId = 0"
definition kInvalidTradeId :: TradeId where [domain_defs]: "kInvalidTradeId = 0"
definition kInvalidInstrumentId :: InstrumentId where [domain_defs]: "kInvalidInstrumentId = 0"

section \<open>Price and Quantity\<close>

datatype Price = Price (ticks: int)
datatype Quantity = Quantity (qty: int)

text \<open>
  The defaulted three-way comparisons compare the only field; the arithmetic operators of
  \<^verbatim>\<open>Quantity\<close> add and subtract it in 64 bits.
\<close>

definition Price_less_eq :: "Price \<Rightarrow> Price \<Rightarrow> bool" where
  "Price_less_eq p p' \<longleftrightarrow> ticks p \<le> ticks p'"

definition Price_less :: "Price \<Rightarrow> Price \<Rightarrow> bool" where
  "Price_less p p' \<longleftrightarrow> ticks p < ticks p'"

definition Quantity_less_eq :: "Quantity \<Rightarrow> Quantity \<Rightarrow> bool" where
  "Quantity_less_eq q q' \<longleftrightarrow> qty q \<le> qty q'"

definition Quantity_less :: "Quantity \<Rightarrow> Quantity \<Rightarrow> bool" where
  "Quantity_less q q' \<longleftrightarrow> qty q < qty q'"

definition Quantity_plus :: "Quantity \<Rightarrow> Quantity \<Rightarrow> Quantity" where
  "Quantity_plus q q' = Quantity (i64 (qty q + qty q'))"

definition Quantity_minus :: "Quantity \<Rightarrow> Quantity \<Rightarrow> Quantity" where
  "Quantity_minus q q' = Quantity (i64 (qty q - qty q'))"

text \<open>The operators of the source are those of HOL's order and arithmetic classes.\<close>

instantiation Price :: linorder
begin

definition less_eq_Price :: "Price \<Rightarrow> Price \<Rightarrow> bool" where "p \<le> p' \<longleftrightarrow> Price_less_eq p p'"
definition less_Price :: "Price \<Rightarrow> Price \<Rightarrow> bool" where "p < p' \<longleftrightarrow> Price_less p p'"

instance
  by standard (auto simp: less_eq_Price_def less_Price_def Price_less_eq_def Price_less_def Price.expand)

end

instantiation Quantity :: linorder
begin

definition less_eq_Quantity :: "Quantity \<Rightarrow> Quantity \<Rightarrow> bool" where "q \<le> q' \<longleftrightarrow> Quantity_less_eq q q'"
definition less_Quantity :: "Quantity \<Rightarrow> Quantity \<Rightarrow> bool" where "q < q' \<longleftrightarrow> Quantity_less q q'"

instance
  by standard (auto simp: less_eq_Quantity_def less_Quantity_def Quantity_less_eq_def Quantity_less_def
      Quantity.expand)

end

instantiation Quantity :: "{plus, minus}"
begin

definition plus_Quantity :: "Quantity \<Rightarrow> Quantity \<Rightarrow> Quantity" where "q + q' = Quantity_plus q q'"
definition minus_Quantity :: "Quantity \<Rightarrow> Quantity \<Rightarrow> Quantity" where "q - q' = Quantity_minus q q'"

instance ..

end

lemma plus_Quantity_eq: "q + q' = Quantity (i64 (qty q + qty q'))"
  by (simp add: plus_Quantity_def Quantity_plus_def)

lemma minus_Quantity_eq: "q - q' = Quantity (i64 (qty q - qty q'))"
  by (simp add: minus_Quantity_def Quantity_minus_def)

lemma Price_less_simps [simp]:
  "Price a < Price b \<longleftrightarrow> a < b" "Price a \<le> Price b \<longleftrightarrow> a \<le> b"
  by (simp_all add: less_Price_def less_eq_Price_def Price_less_eq_def Price_less_def)

lemma Quantity_arith_simps [simp]:
  "Quantity a + Quantity b = Quantity (i64 (a + b))"
  "Quantity a - Quantity b = Quantity (i64 (a - b))"
  "Quantity a < Quantity b \<longleftrightarrow> a < b" "Quantity a \<le> Quantity b \<longleftrightarrow> a \<le> b"
  by (simp_all add: plus_Quantity_eq minus_Quantity_eq less_Quantity_def less_eq_Quantity_def
      Quantity_less_eq_def Quantity_less_def)

lemma qty_plus_minus [simp]:
  "qty (q + q') = i64 (qty q + qty q')" "qty (q - q') = i64 (qty q - qty q')"
  by (simp_all add: plus_Quantity_eq minus_Quantity_eq)

interpretation price_less: map_compare "(<) :: Price \<Rightarrow> Price \<Rightarrow> bool"
  by unfold_locales auto

interpretation price_greater: map_compare "(>) :: Price \<Rightarrow> Price \<Rightarrow> bool"
  by unfold_locales auto

definition Price_is_valid :: "Price \<Rightarrow> bool" where [domain_defs]:
  "Price_is_valid p \<longleftrightarrow> 0 \<le> ticks p \<and> ticks p \<le> kMaxPriceTicks"

definition Quantity_is_valid :: "Quantity \<Rightarrow> bool" where [domain_defs]:
  "Quantity_is_valid q \<longleftrightarrow> 0 < qty q \<and> qty q \<le> kMaxQuantity"

section \<open>Instruments\<close>

record InstrumentDescriptor =
  d_id :: InstrumentId
  symbol :: string
  display_name :: string
  tick_size :: Price
  lot_size :: Quantity
  enabled :: bool

definition InstrumentDescriptor_init :: InstrumentDescriptor where
  "InstrumentDescriptor_init =
     \<lparr>d_id = kInvalidInstrumentId, symbol = '''', display_name = '''',
      tick_size = Price 1, lot_size = Quantity 1, enabled = True\<rparr>"

definition is_valid_tick :: "Price \<Rightarrow> bool" where [domain_defs]:
  "is_valid_tick tick \<longleftrightarrow> 0 < ticks tick \<and> ticks tick \<le> kMaxPriceTicks"

definition is_valid_lot :: "Quantity \<Rightarrow> bool" where [domain_defs]:
  "is_valid_lot lot \<longleftrightarrow> 0 < qty lot \<and> qty lot \<le> kMaxQuantity"

text \<open>C++ \<^verbatim>\<open>%\<close> truncates towards zero: \<^const>\<open>signed_modulo\<close>.\<close>

definition round_to_tick :: "Price \<Rightarrow> Price \<Rightarrow> Price" where
  "round_to_tick p tick =
     (if ticks tick \<le> 0 then p else Price (i64 (ticks p - (ticks p smod ticks tick))))"

definition round_to_lot :: "Quantity \<Rightarrow> Quantity \<Rightarrow> Quantity" where
  "round_to_lot q lot =
     (if qty lot \<le> 0 then q else Quantity (i64 (qty q - (qty q smod qty lot))))"

section \<open>Orders and trades\<close>

datatype Side = Buy | Sell
datatype OrderType = Market | Limit
datatype TimeInForce = GTC | IOC | FOK

datatype OrderStatus =
  StatusNew | StatusPartiallyFilled | StatusFilled | StatusCancelled | StatusRejected | StatusExpired

fun opposite :: "Side \<Rightarrow> Side" where
  "opposite Buy = Sell"
| "opposite Sell = Buy"

text \<open>
  Pointers to the intrusive \<^verbatim>\<open>OrderListNode\<close> of a resting order. A resting order
  is owned by the book's index under its own id, and the index holds no two orders with one
  id, so the id serves as the address of the order (and of its node); \<^const>\<open>None\<close> is the
  null pointer.
\<close>

type_synonym NodePtr = "OrderId option"

record OrderListNode =
  node_prev :: NodePtr
  node_next :: NodePtr

definition null_node :: OrderListNode where
  "null_node = \<lparr>node_prev = None, node_next = None\<rparr>"

record Order =
  o_id :: OrderId
  o_trader_id :: TraderId
  o_instrument_id :: InstrumentId
  o_side :: Side
  o_type :: OrderType
  o_tif :: TimeInForce
  o_price :: Price
  o_quantity :: Quantity
  o_remaining :: Quantity
  o_sequence :: Sequence
  o_timestamp :: Timestamp
  o_status :: OrderStatus
  list_node :: OrderListNode

definition Order_init :: Order where
  "Order_init =
     \<lparr>o_id = kInvalidOrderId, o_trader_id = 0, o_instrument_id = kInvalidInstrumentId,
      o_side = Buy, o_type = Limit, o_tif = GTC,
      o_price = Price 0, o_quantity = Quantity 0, o_remaining = Quantity 0,
      o_sequence = 0, o_timestamp = 0, o_status = StatusNew, list_node = null_node\<rparr>"

definition is_limit :: "Order \<Rightarrow> bool" where "is_limit o' \<longleftrightarrow> o_type o' = Limit"
definition is_market :: "Order \<Rightarrow> bool" where "is_market o' \<longleftrightarrow> o_type o' = Market"
definition is_buy :: "Order \<Rightarrow> bool" where "is_buy o' \<longleftrightarrow> o_side o' = Buy"
definition is_sell :: "Order \<Rightarrow> bool" where "is_sell o' \<longleftrightarrow> o_side o' = Sell"
definition is_open :: "Order \<Rightarrow> bool" where
  "is_open o' \<longleftrightarrow> o_status o' = StatusNew \<or> o_status o' = StatusPartiallyFilled"

lemmas order_predicate_defs [domain_defs] = is_limit_def is_market_def is_buy_def is_sell_def is_open_def

record Trade =
  t_id :: TradeId
  t_instrument_id :: InstrumentId
  buy_order_id :: OrderId
  sell_order_id :: OrderId
  buy_trader_id :: TraderId
  sell_trader_id :: TraderId
  t_price :: Price
  t_quantity :: Quantity
  t_sequence :: Sequence
  t_timestamp :: Timestamp

definition Trade_init :: Trade where
  "Trade_init =
     \<lparr>t_id = kInvalidTradeId, t_instrument_id = kInvalidInstrumentId,
      buy_order_id = kInvalidOrderId, sell_order_id = kInvalidOrderId,
      buy_trader_id = 0, sell_trader_id = 0, t_price = Price 0, t_quantity = Quantity 0,
      t_sequence = 0, t_timestamp = 0\<rparr>"

section \<open>Properties\<close>

lemma opposite_opposite [simp]: "opposite (opposite s) = s"
  by (cases s) simp_all

lemma opposite_neq [simp]: "opposite s \<noteq> s" "s \<noteq> opposite s"
  by (cases s; simp)+

lemma neq_opposite: "s' \<noteq> s \<longleftrightarrow> s' = opposite s"
  by (cases s; cases s') simp_all

lemma is_limit_is_market: "is_market o' \<longleftrightarrow> \<not> is_limit o'"
  by (cases "o_type o'") (simp_all add: domain_defs)

lemma Quantity_is_valid_pos: "Quantity_is_valid q \<Longrightarrow> 0 < qty q"
  by (simp add: Quantity_is_valid_def)

lemma Price_is_valid_kInvalidPrice [simp]: "\<not> Price_is_valid (Price kInvalidPrice)"
  by (simp add: domain_defs)

lemma smod_pos: "0 \<le> (a::int) \<Longrightarrow> 0 < b \<Longrightarrow> a smod b = a mod b"
  by (simp add: signed_modulo_int_def sgn_if)

lemma truncate_multiple:
  assumes "in_i64 a" "0 < (t::int)"
  defines "r \<equiv> i64 (a - (a smod t))"
  shows "t dvd r" "\<bar>a - r\<bar> < t" "0 \<le> a \<Longrightarrow> 0 \<le> r \<and> r \<le> a" "a < 0 \<Longrightarrow> a \<le> r \<and> r \<le> 0"
proof -
  have m: "a smod t = (if 0 \<le> a then a mod t else - ((- a) mod t))"
    using assms(2) by (auto simp: signed_modulo_int_def sgn_if)
  have pos: "0 \<le> c mod t" "c mod t < t" "0 \<le> c \<Longrightarrow> c mod t \<le> c" for c
    using assms(2) by (auto intro: zmod_le_nonneg_dividend)
  have rng: "a - a smod t = (if 0 \<le> a then a - a mod t else a + (- a) mod t)" by (simp add: m)
  have "in_i64 (a - a smod t)" using assms(1) pos(1,3) [of a] pos(1,3) [of "- a"] by (auto simp: rng in_i64_def)
  then have r: "r = (if 0 \<le> a then a - a mod t else a + (- a) mod t)" by (simp add: r_def i64_id rng)
  have "t dvd - ((- a) - (- a) mod t)" unfolding dvd_minus_iff by (rule dvd_minus_mod)
  then show "t dvd r" using r by (auto simp: dvd_minus_mod add.commute)
  show "\<bar>a - r\<bar> < t" using r pos [of a] pos [of "- a"] by auto
  show "0 \<le> a \<Longrightarrow> 0 \<le> r \<and> r \<le> a" using r pos [of a] by auto
  show "a < 0 \<Longrightarrow> a \<le> r \<and> r \<le> 0" using r pos [of "- a"] by auto
qed

text \<open>
  Rounding to a tick or lot gives a multiple of it that is less than one tick or lot away, without
  leaving the 64-bit range; it rounds towards zero, that is down for every valid price and
  quantity, and up for a negative value.
\<close>

theorem round_to_tick_lot:
  assumes "in_i64 a" "0 < t"
  shows "ticks (round_to_tick (Price a) (Price t)) = qty (round_to_lot (Quantity a) (Quantity t)) \<and>
    (let r = ticks (round_to_tick (Price a) (Price t))
     in t dvd r \<and> \<bar>a - r\<bar> < t \<and> (if 0 \<le> a then 0 \<le> r \<and> r \<le> a else a \<le> r \<and> r \<le> 0))"
  using truncate_multiple [OF assms] assms(2) by (auto simp: round_to_tick_def round_to_lot_def)

theorem round_to_tick_lot_witness:
  "5 dvd ticks (round_to_tick (Price 103) (Price 5)) \<and> ticks (round_to_tick (Price 103) (Price 5)) = 100 \<and>
   -103 \<le> ticks (round_to_tick (Price (-103)) (Price 5))"
  using round_to_tick_lot [of 103 5] round_to_tick_lot [of "-103" 5]
  by (simp add: in_i64_def Let_def) (simp add: round_to_tick_def smod_pos)

end
