(* ===== verification/Level.thy ===== *)
theory Level
  imports Domain
begin

text \<open>
  A price level: the intrusive doubly linked FIFO queue of
  \<^verbatim>\<open>include/tt/orderbook/order_book.hpp\<close> (class \<^verbatim>\<open>Level\<close>) and its
  match-time helpers in \<^verbatim>\<open>src/orderbook/order_book.cpp\<close>. The links live inside the
  orders, so every operation works on the heap of resting orders as well as on the level's own
  fields, and returns \<^const>\<open>None\<close> where the code would follow a pointer to an order that
  is not there.

  The operations are shown to implement a plain queue of order ids: \<open>level_inv h l xs\<close>
  says that the pointers from \<open>l_head\<close> to \<open>l_tail\<close> spell exactly the list \<open>xs\<close> in both
  directions and that the cached count and total agree with it.
\<close>

section \<open>State and operations\<close>

text \<open>The resting orders, by address (= id): the contents of \<^verbatim>\<open>OrderBook::id_index_\<close>.\<close>

type_synonym OrderHeap = "OrderId \<rightharpoonup> Order"

record Level =
  l_price :: Price
  l_head :: NodePtr
  l_tail :: NodePtr
  order_count :: "64 word"
  total_quantity :: Quantity

definition new_Level :: "Price \<Rightarrow> Level" where
  "new_Level p =
     \<lparr>l_price = p, l_head = None, l_tail = None, order_count = 0, total_quantity = Quantity 0\<rparr>"

definition set_next :: "OrderId \<Rightarrow> NodePtr \<Rightarrow> OrderHeap \<Rightarrow> OrderHeap option" where
  "set_next x p h =
     (case h x of None \<Rightarrow> None
      | Some ord \<Rightarrow> Some (h(x \<mapsto> ord\<lparr>list_node := (list_node ord)\<lparr>node_next := p\<rparr>\<rparr>)))"

definition set_prev :: "OrderId \<Rightarrow> NodePtr \<Rightarrow> OrderHeap \<Rightarrow> OrderHeap option" where
  "set_prev x p h =
     (case h x of None \<Rightarrow> None
      | Some ord \<Rightarrow> Some (h(x \<mapsto> ord\<lparr>list_node := (list_node ord)\<lparr>node_prev := p\<rparr>\<rparr>)))"

definition Level_append :: "OrderId \<Rightarrow> OrderHeap \<times> Level \<Rightarrow> (OrderHeap \<times> Level) option" where
  "Level_append x = (\<lambda>(h, l).
     case h x of None \<Rightarrow> None
     | Some ord \<Rightarrow>
       (let h1 = h(x \<mapsto> ord\<lparr>list_node := \<lparr>node_prev = l_tail l, node_next = None\<rparr>\<rparr>);
            linked = (case l_tail l of
                        Some t \<Rightarrow> map_option (\<lambda>h2. (h2, l)) (set_next t (Some x) h1)
                      | None \<Rightarrow> Some (h1, l\<lparr>l_head := Some x\<rparr>))
        in map_option
             (\<lambda>(h2, l2). (h2, l2\<lparr>l_tail := Some x, order_count := order_count l + 1,
                              total_quantity := total_quantity l + o_remaining ord\<rparr>))
             linked))"

text \<open>
  The pointer surgery that \<^verbatim>\<open>Level::remove\<close> and \<^verbatim>\<open>Level::reduce_front\<close> share:
  bypass the node in both directions, then clear its own links.
\<close>

definition unlink :: "OrderId \<Rightarrow> OrderHeap \<times> Level \<Rightarrow> (OrderHeap \<times> Level) option" where
  "unlink x = (\<lambda>(h, l).
     do { ord \<leftarrow> h x;
          (h1, l1) \<leftarrow> (case node_prev (list_node ord) of
                         Some p \<Rightarrow> map_option (\<lambda>h1. (h1, l)) (set_next p (node_next (list_node ord)) h)
                       | None \<Rightarrow> Some (h, l\<lparr>l_head := node_next (list_node ord)\<rparr>));
          ord1 \<leftarrow> h1 x;
          (h2, l2) \<leftarrow> (case node_next (list_node ord1) of
                         Some n \<Rightarrow> map_option (\<lambda>h2. (h2, l1)) (set_prev n (node_prev (list_node ord1)) h1)
                       | None \<Rightarrow> Some (h1, l1\<lparr>l_tail := node_prev (list_node ord1)\<rparr>));
          ord2 \<leftarrow> h2 x;
          Some (h2(x \<mapsto> ord2\<lparr>list_node := null_node\<rparr>), l2) })"

definition Level_remove :: "OrderId \<Rightarrow> OrderHeap \<times> Level \<Rightarrow> (OrderHeap \<times> Level) option" where
  "Level_remove x = (\<lambda>(h, l).
     do { (h1, l1) \<leftarrow> unlink x (h, l);
          ord \<leftarrow> h1 x;
          Some (h1, l1\<lparr>order_count := order_count l1 - 1,
                       total_quantity := total_quantity l1 - o_remaining ord\<rparr>) })"

definition head_order :: "OrderHeap \<Rightarrow> Level \<Rightarrow> Order option option" where
  "head_order h l =
     (case l_head l of None \<Rightarrow> Some None
      | Some x \<Rightarrow> (case h x of None \<Rightarrow> None | Some ord \<Rightarrow> Some (Some ord)))"

definition front_remaining :: "OrderHeap \<Rightarrow> Level \<Rightarrow> Quantity option" where
  "front_remaining h l =
     map_option (\<lambda>front. case front of Some ord \<Rightarrow> o_remaining ord | None \<Rightarrow> Quantity 0) (head_order h l)"

definition add_to_total :: "Quantity \<Rightarrow> Level \<Rightarrow> Level" where
  "add_to_total q l = l\<lparr>total_quantity := total_quantity l + q\<rparr>"

definition sub_from_total :: "Quantity \<Rightarrow> Level \<Rightarrow> Level" where
  "sub_from_total q l = l\<lparr>total_quantity := total_quantity l - q\<rparr>"

text \<open>What \<^verbatim>\<open>reduce_front\<close> reports: the filled quantity, the filled order and whether it is gone.\<close>

record FrontFill =
  ff_qty :: Quantity
  ff_filled :: NodePtr
  ff_consumed :: bool

definition reduce_front ::
    "Quantity \<Rightarrow> OrderHeap \<times> Level \<Rightarrow> ((OrderHeap \<times> Level) \<times> FrontFill) option" where
  "reduce_front q = (\<lambda>(h, l).
     do { front \<leftarrow> head_order h l;
          case front of
            None \<Rightarrow> Some ((h, l), \<lparr>ff_qty = Quantity 0, ff_filled = None, ff_consumed = False\<rparr>)
          | Some ord \<Rightarrow>
              if qty q \<le> 0
              then Some ((h, l), \<lparr>ff_qty = Quantity 0, ff_filled = None, ff_consumed = False\<rparr>)
              else
                let x = the (l_head l);
                    fill_qty = (if qty q > qty (o_remaining ord) then o_remaining ord else q);
                    l1 = l\<lparr>total_quantity := total_quantity l - fill_qty\<rparr>;
                    ord1 = ord\<lparr>o_remaining := o_remaining ord - fill_qty\<rparr>
                in if qty (o_remaining ord1) = 0
                   then do { (h2, l2) \<leftarrow> unlink x (h(x \<mapsto> ord1), l1);
                             ord2 \<leftarrow> h2 x;
                             Some ((h2(x \<mapsto> ord2\<lparr>o_status := StatusFilled\<rparr>),
                                    l2\<lparr>order_count := order_count l2 - 1\<rparr>),
                                   \<lparr>ff_qty = fill_qty, ff_filled = Some x, ff_consumed = True\<rparr>) }
                   else Some ((h(x \<mapsto> (if o_status ord1 = StatusNew
                                        then ord1\<lparr>o_status := StatusPartiallyFilled\<rparr> else ord1)), l1),
                              \<lparr>ff_qty = fill_qty, ff_filled = Some x, ff_consumed = False\<rparr>) })"

text \<open>The queue read off the pointers: follow \<^verbatim>\<open>next\<close> from the head, at most \<open>n\<close> nodes.\<close>

fun walk :: "OrderHeap \<Rightarrow> nat \<Rightarrow> NodePtr \<Rightarrow> OrderId list" where
  "walk h 0 p = []"
| "walk h (Suc n) None = []"
| "walk h (Suc n) (Some x) =
     (case h x of None \<Rightarrow> [] | Some ord \<Rightarrow> x # walk h n (node_next (list_node ord)))"

definition level_ids :: "OrderHeap \<Rightarrow> Level \<Rightarrow> OrderId list" where
  "level_ids h l = walk h (unat (order_count l)) (l_head l)"

section \<open>The queue behind the pointers\<close>

text \<open>
  \<open>dseg h p f xs e q\<close>: a doubly linked segment whose first pointer is \<open>f\<close>, whose last
  pointer is \<open>e\<close>, preceded by \<open>p\<close> and followed by \<open>q\<close>.
\<close>

fun dseg :: "OrderHeap \<Rightarrow> NodePtr \<Rightarrow> NodePtr \<Rightarrow> OrderId list \<Rightarrow> NodePtr \<Rightarrow> NodePtr \<Rightarrow> bool" where
  "dseg h p f [] e q \<longleftrightarrow> f = q \<and> e = p"
| "dseg h p f (x # xs) e q \<longleftrightarrow>
     f = Some x \<and>
     (case h x of None \<Rightarrow> False
      | Some ord \<Rightarrow> node_prev (list_node ord) = p \<and> dseg h (Some x) (node_next (list_node ord)) xs e q)"

definition rem_of :: "OrderHeap \<Rightarrow> OrderId \<Rightarrow> int" where
  "rem_of h x = (case h x of None \<Rightarrow> 0 | Some ord \<Rightarrow> qty (o_remaining ord))"

definition level_inv :: "OrderHeap \<Rightarrow> Level \<Rightarrow> OrderId list \<Rightarrow> bool" where
  "level_inv h l xs \<longleftrightarrow>
     dseg h None (l_head l) xs (l_tail l) None \<and> distinct xs \<and> 0 \<notin> set xs \<and>
     order_count l = of_nat (length xs) \<and>
     total_quantity l = Quantity (i64 (\<Sum>x\<leftarrow>xs. rem_of h x))"

definition level_queue :: "OrderHeap \<times> Level \<Rightarrow> OrderId list \<Rightarrow> bool" where
  "level_queue = (\<lambda>(h, l). level_inv h l)"

definition level_live :: "OrderHeap \<times> Level \<Rightarrow> OrderId \<Rightarrow> bool" where
  "level_live = (\<lambda>(h, l) x. x \<in> dom h \<and> x \<noteq> 0)"

text \<open>The data of an order is all of it but its links.\<close>

definition strip :: "Order \<Rightarrow> Order" where
  "strip ord = ord\<lparr>list_node := null_node\<rparr>"

definition same_data :: "OrderHeap \<Rightarrow> OrderHeap \<Rightarrow> bool" where
  "same_data h h' \<longleftrightarrow> (\<forall>y. map_option strip (h' y) = map_option strip (h y))"

lemma dseg_cong: "(\<And>x. x \<in> set xs \<Longrightarrow> h' x = h x) \<Longrightarrow> dseg h' p f xs e q = dseg h p f xs e q"
  by (induction xs arbitrary: p f) (auto split: option.splits)

lemma dseg_upd [heap_frame, simp]: "x \<notin> set xs \<Longrightarrow> dseg (h(x := v)) p f xs e q = dseg h p f xs e q"
  by (rule dseg_cong) auto

lemma dseg_append:
  "dseg h p f (xs @ ys) e q \<longleftrightarrow> (\<exists>m m'. dseg h p f xs m m' \<and> dseg h m m' ys e q)"
  by (induction xs arbitrary: p f) (auto split: option.splits)

lemma dseg_live: "dseg h p f xs e q \<Longrightarrow> x \<in> set xs \<Longrightarrow> \<exists>ord. h x = Some ord"
  by (induction xs arbitrary: p f) (auto split: option.splits)

lemma dseg_snoc_last: "dseg h p f (xs @ [x]) e q \<Longrightarrow> e = Some x"
  by (auto simp: dseg_append split: option.splits)

lemma dseg_last: "xs \<noteq> [] \<Longrightarrow> dseg h p f xs e q \<Longrightarrow> e = Some (last xs)"
  by (cases xs rule: rev_cases) (auto dest: dseg_snoc_last)

lemma dseg_first: "xs \<noteq> [] \<Longrightarrow> dseg h p f xs e q \<Longrightarrow> f = Some (hd xs)"
  by (cases xs) auto

text \<open>Only the links matter: changing other fields of an order keeps every segment.\<close>

lemma dseg_same_links:
  "h x = Some ord \<Longrightarrow> list_node ord' = list_node ord \<Longrightarrow>
   dseg (h(x \<mapsto> ord')) p f xs e q = dseg h p f xs e q"
  by (induction xs arbitrary: p f) (auto split: option.splits)

lemma strip_strip [simp]: "strip (strip ord) = strip ord"
  by (simp add: strip_def)

lemma strip_upd [simp]: "strip (ord\<lparr>list_node := nd\<rparr>) = strip ord"
  by (simp add: strip_def)

lemma strip_fields:
  assumes "strip ord = strip ord'"
  shows "o_id ord = o_id ord'" "o_trader_id ord = o_trader_id ord'" "o_instrument_id ord = o_instrument_id ord'"
    "o_side ord = o_side ord'" "o_type ord = o_type ord'" "o_tif ord = o_tif ord'" "o_price ord = o_price ord'"
    "o_quantity ord = o_quantity ord'" "o_remaining ord = o_remaining ord'" "o_sequence ord = o_sequence ord'"
    "o_timestamp ord = o_timestamp ord'" "o_status ord = o_status ord'"
  using assms by (cases ord; cases ord'; simp add: strip_def)+

lemma same_data_refl [simp]: "same_data h h"
  by (simp add: same_data_def)

lemma same_data_trans: "same_data h h' \<Longrightarrow> same_data h' h'' \<Longrightarrow> same_data h h''"
  by (simp add: same_data_def)

lemma same_data_links [simp]: "h x = Some ord \<Longrightarrow> same_data h (h(x \<mapsto> ord\<lparr>list_node := nd\<rparr>))"
  by (simp add: same_data_def)

lemma same_data_SomeD: "same_data h h' \<Longrightarrow> h x = Some ord \<Longrightarrow> \<exists>ord'. h' x = Some ord' \<and> strip ord' = strip ord"
  unfolding same_data_def by (metis map_option_eq_Some)

lemma same_data_None: "same_data h h' \<Longrightarrow> h' x = None \<longleftrightarrow> h x = None"
  unfolding same_data_def by (metis option.map_disc_iff)

lemma same_data_dom: "same_data h h' \<Longrightarrow> dom h' = dom h"
  by (auto simp: dom_def same_data_None)

lemma rem_of_same_data: "same_data h h' \<Longrightarrow> rem_of h' x = rem_of h x"
proof (cases "h x")
  case None
  assume "same_data h h'"
  then have "h' x = None" using None by (simp add: same_data_None)
  with None show "rem_of h' x = rem_of h x" by (simp add: rem_of_def)
next
  case (Some ord)
  assume "same_data h h'"
  with Some obtain ord' where "h' x = Some ord'" and "strip ord' = strip ord"
    by (blast dest: same_data_SomeD)
  with Some strip_fields(9) [of ord' ord] show "rem_of h' x = rem_of h x" by (simp add: rem_of_def)
qed

lemma set_next_same_data: "set_next x p h = Some h' \<Longrightarrow> same_data h h' \<and> (\<forall>y. y \<noteq> x \<longrightarrow> h' y = h y)"
  by (auto simp: set_next_def split: option.splits)

lemma set_prev_same_data: "set_prev x p h = Some h' \<Longrightarrow> same_data h h' \<and> (\<forall>y. y \<noteq> x \<longrightarrow> h' y = h y)"
  by (auto simp: set_prev_def split: option.splits)


text \<open>Appending links the order behind the tail and leaves all order data alone.\<close>

lemma Level_append_links:
  assumes seg: "dseg h None (l_head l) xs (l_tail l) None" and dist: "distinct xs"
    and x: "h x = Some ord" "x \<notin> set xs"
  shows "\<exists>h' l'. Level_append x (h, l) = Some (h', l') \<and>
     dseg h' None (l_head l') (xs @ [x]) (l_tail l') None \<and>
     l_price l' = l_price l \<and> order_count l' = order_count l + 1 \<and>
     total_quantity l' = total_quantity l + o_remaining ord \<and>
     same_data h h' \<and> (\<forall>y. y \<notin> insert x (set xs) \<longrightarrow> h' y = h y)"
proof (cases xs rule: rev_cases)
  case Nil
  with seg x show ?thesis by (simp add: Level_append_def)
next
  case (snoc ys t)
  from seg snoc have tl: "l_tail l = Some t" by (auto dest: dseg_snoc_last)
  from seg snoc obtain ot where ot: "h t = Some ot" using dseg_live [OF seg, of t] by auto
  from snoc x dist have ne: "t \<noteq> x" "t \<notin> set ys" "x \<notin> set ys" by auto
  let ?h1 = "h(x \<mapsto> ord\<lparr>list_node := \<lparr>node_prev = Some t, node_next = None\<rparr>\<rparr>)"
  let ?h2 = "?h1(t \<mapsto> ot\<lparr>list_node := (list_node ot)\<lparr>node_next := Some x\<rparr>\<rparr>)"
  have "same_data h ?h2"
    using x(1) ot ne by (simp add: same_data_def)
  moreover have "dseg ?h2 None (l_head l) (xs @ [x]) (Some x) None"
    using seg snoc ot ne by (simp add: dseg_append)
  ultimately show ?thesis
    using tl ot x ne snoc by (auto simp: Level_append_def set_next_def)
qed

text \<open>Unlinking bypasses the node, first from its predecessor, then from its successor.\<close>

lemma bypass_prev_links:
  assumes ys: "dseg h None (l_head l) ys p (Some x)" and d: "distinct ys"
  shows "\<exists>h1 l1. (case p of Some p' \<Rightarrow> map_option (\<lambda>h1. (h1, l)) (set_next p' n h)
                   | None \<Rightarrow> Some (h, l\<lparr>l_head := n\<rparr>)) = Some (h1, l1) \<and>
     dseg h1 None (l_head l1) ys p n \<and> same_data h h1 \<and> (\<forall>y. y \<notin> set ys \<longrightarrow> h1 y = h y) \<and>
     l_tail l1 = l_tail l \<and> l_price l1 = l_price l \<and> order_count l1 = order_count l \<and>
     total_quantity l1 = total_quantity l"
proof (cases ys rule: rev_cases)
  case Nil
  with ys show ?thesis by auto
next
  case (snoc us u)
  from ys snoc have p: "p = Some u" by (auto dest: dseg_snoc_last)
  obtain ou where ou: "h u = Some ou" using dseg_live [OF ys, of u] snoc by auto
  from d snoc have "u \<notin> set us" by simp
  then show ?thesis using ys snoc p ou by (auto simp: set_next_def dseg_append)
qed

lemma bypass_next_links:
  assumes zs: "dseg h (Some x) n zs (l_tail l) None" and d: "distinct zs"
  shows "\<exists>h1 l1. (case n of Some n' \<Rightarrow> map_option (\<lambda>h1. (h1, l)) (set_prev n' p h)
                   | None \<Rightarrow> Some (h, l\<lparr>l_tail := p\<rparr>)) = Some (h1, l1) \<and>
     dseg h1 p n zs (l_tail l1) None \<and> same_data h h1 \<and> (\<forall>y. y \<notin> set zs \<longrightarrow> h1 y = h y) \<and>
     l_head l1 = l_head l \<and> l_price l1 = l_price l \<and> order_count l1 = order_count l \<and>
     total_quantity l1 = total_quantity l"
proof (cases zs)
  case Nil
  with zs show ?thesis by auto
next
  case (Cons w ws)
  obtain ow where ow: "h w = Some ow" using dseg_live [OF zs, of w] Cons by auto
  from d Cons have "w \<notin> set ws" by simp
  then show ?thesis using zs Cons ow by (auto simp: set_prev_def)
qed

lemma unlink_links:
  assumes seg: "dseg h None (l_head l) (ys @ x # zs) (l_tail l) None" and dist: "distinct (ys @ x # zs)"
    and x: "h x = Some ord"
  shows "\<exists>h' l'. unlink x (h, l) = Some (h', l') \<and>
     dseg h' None (l_head l') (ys @ zs) (l_tail l') None \<and>
     h' x = Some (ord\<lparr>list_node := null_node\<rparr>) \<and>
     l_price l' = l_price l \<and> order_count l' = order_count l \<and> total_quantity l' = total_quantity l \<and>
     same_data h h' \<and> (\<forall>y. y \<notin> set (ys @ x # zs) \<longrightarrow> h' y = h y)"
proof -
  obtain p n where pn: "list_node ord = \<lparr>node_prev = p, node_next = n\<rparr>" by (cases "list_node ord") auto
  from seg x pn have ys: "dseg h None (l_head l) ys p (Some x)" and zs: "dseg h (Some x) n zs (l_tail l) None"
    by (auto simp: dseg_append)
  from dist have d: "distinct ys" "distinct zs" by simp_all
  from bypass_prev_links [OF ys d(1), of n] obtain h1 l1 where
    step1: "(case p of Some p' \<Rightarrow> map_option (\<lambda>h1. (h1, l)) (set_next p' n h)
      | None \<Rightarrow> Some (h, l\<lparr>l_head := n\<rparr>)) = Some (h1, l1)"
    and h1: "dseg h1 None (l_head l1) ys p n" "same_data h h1" "\<forall>y. y \<notin> set ys \<longrightarrow> h1 y = h y"
    and l1: "l_tail l1 = l_tail l" "l_price l1 = l_price l" "order_count l1 = order_count l"
      "total_quantity l1 = total_quantity l" by blast
  from dist h1(3) x have x1: "h1 x = Some ord" by auto
  have zs1: "dseg h1 (Some x) n zs (l_tail l1) None"
    using zs dist h1(3) l1 by (subst dseg_cong [of zs h1 h]) auto
  from bypass_next_links [OF zs1 d(2), of p] obtain h2 l2 where
    step2: "(case n of Some n' \<Rightarrow> map_option (\<lambda>h2. (h2, l1)) (set_prev n' p h1)
      | None \<Rightarrow> Some (h1, l1\<lparr>l_tail := p\<rparr>)) = Some (h2, l2)"
    and h2: "dseg h2 p n zs (l_tail l2) None" "same_data h1 h2" "\<forall>y. y \<notin> set zs \<longrightarrow> h2 y = h1 y"
    and l2: "l_head l2 = l_head l1" "l_price l2 = l_price l1" "order_count l2 = order_count l1"
      "total_quantity l2 = total_quantity l1" by blast
  from dist h2(3) x1 have x2: "h2 x = Some ord" by auto
  let ?h3 = "h2(x \<mapsto> ord\<lparr>list_node := null_node\<rparr>)"
  have "unlink x (h, l) = Some (?h3, l2)"
    using x pn step1 x1 step2 x2 by (simp add: unlink_def cong: option.case_cong)
  moreover have "dseg h2 None (l_head l1) ys p n"
    using h1(1) dist h2(3) by (subst dseg_cong [of ys h2 h1]) auto
  then have "dseg ?h3 None (l_head l2) (ys @ zs) (l_tail l2) None"
    using h2(1) dist l2 by (auto simp: dseg_append)
  moreover have "same_data h ?h3"
    using h1(2) h2(2) same_data_links [of h2 x ord null_node] x2 by (blast intro: same_data_trans)
  moreover have "\<forall>y. y \<notin> set (ys @ x # zs) \<longrightarrow> ?h3 y = h y"
    using h1(3) h2(3) by auto
  ultimately show ?thesis using l1 l2 by auto
qed


section \<open>The level implements a queue\<close>

lemma sum_rem_of_same_data: "same_data h h' \<Longrightarrow> (\<Sum>x\<leftarrow>xs. rem_of h' x) = (\<Sum>x\<leftarrow>xs. rem_of h x)"
  by (simp add: rem_of_same_data)

lemma level_inv_cong:
  assumes "\<And>x. x \<in> set xs \<Longrightarrow> h' x = h x"
  shows "level_inv h' l xs = level_inv h l xs"
proof -
  from assms have "map (rem_of h') xs = map (rem_of h) xs" by (simp add: rem_of_def)
  moreover have "dseg h' None (l_head l) xs (l_tail l) None = dseg h None (l_head l) xs (l_tail l) None"
    by (rule dseg_cong) (rule assms)
  ultimately show ?thesis unfolding level_inv_def by (simp only:)
qed

lemma level_inv_upd [heap_frame, simp]: "x \<notin> set xs \<Longrightarrow> level_inv (h(x := v)) l xs = level_inv h l xs"
  by (rule level_inv_cong) auto

lemma level_inv_live: "level_inv h l xs \<Longrightarrow> x \<in> set xs \<Longrightarrow> \<exists>ord. h x = Some ord"
  unfolding level_inv_def by (blast dest: dseg_live)

lemma level_inv_new [simp]: "level_inv h (new_Level p) []"
  by (simp add: level_inv_def new_Level_def)

lemma level_inv_count_bound:
  assumes "level_inv h l xs"
  shows "length xs < 2 ^ 64"
proof -
  from assms have d: "distinct xs" and z: "0 \<notin> set xs" by (auto simp: level_inv_def)
  have "length xs = card (set xs)" using d by (simp add: distinct_card)
  also have "\<dots> \<le> card (UNIV - {0 :: 64 word})" using z by (intro card_mono) auto
  also have "\<dots> < 2 ^ 64" by (simp add: card_word)
  finally show ?thesis .
qed

lemma level_inv_count: "level_inv h l xs \<Longrightarrow> unat (order_count l) = length xs"
  using level_inv_count_bound [of h l xs] by (simp add: level_inv_def unat_of_nat)

lemma level_inv_count_0: "level_inv h l xs \<Longrightarrow> order_count l = 0 \<longleftrightarrow> xs = []"
  using level_inv_count [of h l xs] by (auto simp: unat_eq_0 [symmetric])

lemma walk_dseg: "dseg h p f xs e None \<Longrightarrow> walk h (length xs) f = xs"
  by (induction xs arbitrary: p f) (auto split: option.splits)

lemma level_ids_eq: "level_inv h l xs \<Longrightarrow> level_ids h l = xs"
  using level_inv_count [of h l xs] by (auto simp: level_ids_def level_inv_def dest: walk_dseg)

lemma level_inv_head: "level_inv h l (x # xs) \<Longrightarrow> l_head l = Some x"
  by (simp add: level_inv_def)

lemma level_inv_head_order:
  "level_inv h l (x # xs) \<Longrightarrow> h x = Some ord \<Longrightarrow> head_order h l = Some (Some ord)"
  by (simp add: level_inv_def head_order_def)

text \<open>What every queue operation leaves alone: the price and the orders of other levels.\<close>

lemma Level_append_inv:
  assumes inv: "level_inv h l xs" and x: "h x = Some ord" "x \<notin> set xs" "x \<noteq> 0"
  shows "\<exists>h' l'. Level_append x (h, l) = Some (h', l') \<and> level_inv h' l' (xs @ [x]) \<and>
     l_price l' = l_price l \<and> same_data h h' \<and> (\<forall>y. y \<notin> insert x (set xs) \<longrightarrow> h' y = h y)"
proof -
  from inv have seg: "dseg h None (l_head l) xs (l_tail l) None" and d: "distinct xs"
    by (auto simp: level_inv_def)
  from Level_append_links [OF seg d x(1,2)] obtain h' l' where
    step: "Level_append x (h, l) = Some (h', l')" and
    seg': "dseg h' None (l_head l') (xs @ [x]) (l_tail l') None" and
    l': "l_price l' = l_price l" "order_count l' = order_count l + 1"
      "total_quantity l' = total_quantity l + o_remaining ord" and
    h': "same_data h h'" "\<forall>y. y \<notin> insert x (set xs) \<longrightarrow> h' y = h y" by blast
  have "rem_of h x = qty (o_remaining ord)" using x by (simp add: rem_of_def)
  then have "level_inv h' l' (xs @ [x])"
    using inv x seg' l' by (simp add: level_inv_def sum_rem_of_same_data [OF h'(1)] rem_of_same_data [OF h'(1)]
        plus_Quantity_eq add.commute)
  with step l' h' show ?thesis by blast
qed

lemma Level_remove_inv:
  assumes inv: "level_inv h l xs" and x: "x \<in> set xs" "h x = Some ord"
  shows "\<exists>h' l'. Level_remove x (h, l) = Some (h', l') \<and> level_inv h' l' (remove1 x xs) \<and>
     l_price l' = l_price l \<and> h' x = Some (ord\<lparr>list_node := null_node\<rparr>) \<and>
     same_data h h' \<and> (\<forall>y. y \<notin> set xs \<longrightarrow> h' y = h y)"
proof -
  from x obtain ys zs where xs: "xs = ys @ x # zs" by (auto dest: split_list)
  from inv xs have seg: "dseg h None (l_head l) (ys @ x # zs) (l_tail l) None" and d: "distinct (ys @ x # zs)"
    by (auto simp: level_inv_def)
  from unlink_links [OF seg d x(2)] obtain h' l1 where
    step: "unlink x (h, l) = Some (h', l1)" and
    seg': "dseg h' None (l_head l1) (ys @ zs) (l_tail l1) None" and
    l1: "l_price l1 = l_price l" "order_count l1 = order_count l" "total_quantity l1 = total_quantity l" and
    h': "h' x = Some (ord\<lparr>list_node := null_node\<rparr>)" "same_data h h'"
      "\<forall>y. y \<notin> set (ys @ x # zs) \<longrightarrow> h' y = h y" by blast
  have r: "rem_of h x = qty (o_remaining ord)" using x by (simp add: rem_of_def)
  let ?l' = "l1\<lparr>order_count := order_count l1 - 1, total_quantity := total_quantity l1 - o_remaining ord\<rparr>"
  have "level_inv h' ?l' (ys @ zs)"
    using inv xs seg' l1 r by (simp add: level_inv_def sum_rem_of_same_data [OF h'(2)] minus_Quantity_eq)
  moreover have "remove1 x xs = ys @ zs" using xs d by (simp add: remove1_append)
  ultimately show ?thesis using step h' l1 xs by (auto simp: Level_remove_def)
qed


lemma sum_rem_of_upd:
  "distinct xs \<Longrightarrow> x \<in> set xs \<Longrightarrow> h x = Some ord \<Longrightarrow>
   (\<Sum>y\<leftarrow>xs. rem_of (h(x \<mapsto> ord')) y) =
   (\<Sum>y\<leftarrow>xs. rem_of h y) - (qty (o_remaining ord) - qty (o_remaining ord'))"
proof (induction xs)
  case Nil
  then show ?case by simp
next
  case (Cons y ys)
  show ?case
  proof (cases "y = x")
    case True
    with Cons.prems have "map (rem_of (h(x \<mapsto> ord'))) ys = map (rem_of h) ys"
      by (auto simp: rem_of_def)
    then have "(\<Sum>y\<leftarrow>ys. rem_of (h(x \<mapsto> ord')) y) = (\<Sum>y\<leftarrow>ys. rem_of h y)"
      by (rule arg_cong)
    moreover have "rem_of (h(x \<mapsto> ord')) x = qty (o_remaining ord')" "rem_of h x = qty (o_remaining ord)"
      using Cons.prems by (simp_all add: rem_of_def)
    ultimately show ?thesis unfolding True list.map sum_list.Cons by linarith
  next
    case False
    with Cons show ?thesis by (simp add: rem_of_def)
  qed
qed

text \<open>Changing an order in place, with the same amount taken off the cached total.\<close>

lemma level_inv_set_remaining:
  assumes inv: "level_inv h l xs" and x: "x \<in> set xs" "h x = Some ord" "list_node ord' = list_node ord"
    and d: "qty d = i64 (qty (o_remaining ord) - qty (o_remaining ord'))"
  shows "level_inv (h(x \<mapsto> ord')) (l\<lparr>total_quantity := total_quantity l - d\<rparr>) xs"
  using inv x d sum_rem_of_upd [of xs x h ord ord']
  by (simp add: level_inv_def dseg_same_links minus_Quantity_eq)

lemma reduce_front_partial:
  assumes inv: "level_inv h l (x # xs)" and x: "h x = Some ord"
    and q: "0 < qty q" "qty q < qty (o_remaining ord)" and r: "in_i64 (qty (o_remaining ord))"
  shows "\<exists>l'. reduce_front q (h, l) =
      Some ((h(x \<mapsto> ord\<lparr>o_remaining := o_remaining ord - q,
                        o_status := if o_status ord = StatusNew then StatusPartiallyFilled else o_status ord\<rparr>), l'),
            \<lparr>ff_qty = q, ff_filled = Some x, ff_consumed = False\<rparr>) \<and>
    level_inv (h(x \<mapsto> ord\<lparr>o_remaining := o_remaining ord - q,
                        o_status := if o_status ord = StatusNew then StatusPartiallyFilled else o_status ord\<rparr>)) l' (x # xs) \<and>
    l_price l' = l_price l"
proof -
  let ?ord' = "ord\<lparr>o_remaining := o_remaining ord - q,
                   o_status := if o_status ord = StatusNew then StatusPartiallyFilled else o_status ord\<rparr>"
  let ?l' = "l\<lparr>total_quantity := total_quantity l - q\<rparr>"
  have "in_i64 (qty (o_remaining ord) - qty q)" using q r by (simp add: in_i64_def)
  then have rem': "qty (o_remaining ord - q) = qty (o_remaining ord) - qty q" by (simp add: i64_id)
  have hd: "l_head l = Some x" by (rule level_inv_head [OF inv])
  have "reduce_front q (h, l) = Some ((h(x \<mapsto> ?ord'), ?l'), \<lparr>ff_qty = q, ff_filled = Some x, ff_consumed = False\<rparr>)"
    using level_inv_head_order [OF inv x] hd q rem' by (simp add: reduce_front_def Let_def)
  moreover have "in_i64 (qty q)" using q r by (simp add: in_i64_def)
  then have "level_inv (h(x \<mapsto> ?ord')) ?l' (x # xs)"
    using rem' by (intro level_inv_set_remaining [OF inv _ x]) (auto simp: i64_id)
  ultimately show ?thesis by auto
qed

lemma reduce_front_full:
  assumes inv: "level_inv h l (x # xs)" and x: "h x = Some ord"
    and q: "0 < qty (o_remaining ord)" "qty (o_remaining ord) \<le> qty q"
    and r: "in_i64 (qty (o_remaining ord))"
  shows "\<exists>h' l'. reduce_front q (h, l) =
      Some ((h', l'), \<lparr>ff_qty = o_remaining ord, ff_filled = Some x, ff_consumed = True\<rparr>) \<and>
    level_inv h' l' xs \<and> l_price l' = l_price l \<and>
    h' x = Some (ord\<lparr>o_remaining := Quantity 0, o_status := StatusFilled, list_node := null_node\<rparr>) \<and>
    (\<forall>y. y \<noteq> x \<longrightarrow> map_option strip (h' y) = map_option strip (h y)) \<and>
    (\<forall>y. y \<notin> set (x # xs) \<longrightarrow> h' y = h y)"
proof -
  let ?ord1 = "ord\<lparr>o_remaining := o_remaining ord - o_remaining ord\<rparr>"
  let ?l1 = "l\<lparr>total_quantity := total_quantity l - o_remaining ord\<rparr>"
  have z: "o_remaining ord - o_remaining ord = Quantity 0" by (simp add: minus_Quantity_eq)
  have hd: "l_head l = Some x" by (rule level_inv_head [OF inv])
  have inv1: "level_inv (h(x \<mapsto> ?ord1)) ?l1 (x # xs)"
    using r z by (intro level_inv_set_remaining [OF inv _ x]) (auto simp: i64_id)
  then have seg: "dseg (h(x \<mapsto> ?ord1)) None (l_head ?l1) ([] @ x # xs) (l_tail ?l1) None"
    and d: "distinct ([] @ x # xs)" by (auto simp: level_inv_def)
  from unlink_links [OF seg d, of ?ord1] obtain h2 l2 where
    step: "unlink x (h(x \<mapsto> ?ord1), ?l1) = Some (h2, l2)" and
    seg2: "dseg h2 None (l_head l2) xs (l_tail l2) None" and
    x2: "h2 x = Some (?ord1\<lparr>list_node := null_node\<rparr>)" and
    l2: "l_price l2 = l_price ?l1" "order_count l2 = order_count ?l1" "total_quantity l2 = total_quantity ?l1" and
    h2: "same_data (h(x \<mapsto> ?ord1)) h2" "\<forall>y. y \<notin> set (x # xs) \<longrightarrow> h2 y = (h(x \<mapsto> ?ord1)) y" by auto
  let ?h3 = "h2(x \<mapsto> ?ord1\<lparr>list_node := null_node, o_status := StatusFilled\<rparr>)"
  let ?l3 = "l2\<lparr>order_count := order_count l2 - 1\<rparr>"
  have ff: "(if qty (o_remaining ord) < qty q then o_remaining ord else q) = o_remaining ord"
    using q by (simp add: Quantity.expand)
  have "reduce_front q (h, l) =
      Some ((?h3, ?l3), \<lparr>ff_qty = o_remaining ord, ff_filled = Some x, ff_consumed = True\<rparr>)"
    using level_inv_head_order [OF inv x] hd q z step x2 ff by (simp add: reduce_front_def Let_def)
  moreover have "rem_of (h(x \<mapsto> ?ord1)) x = 0" using z by (simp add: rem_of_def)
  then have "level_inv h2 ?l3 xs"
    using inv1 seg2 l2 by (simp add: level_inv_def sum_rem_of_same_data [OF h2(1)])
  then have "level_inv ?h3 ?l3 xs" using d by (subst level_inv_cong [of xs ?h3 h2]) auto
  moreover have "\<forall>y. y \<noteq> x \<longrightarrow> map_option strip (?h3 y) = map_option strip (h y)"
    using h2(1) by (auto simp: same_data_def)
  moreover have "\<forall>y. y \<notin> set (x # xs) \<longrightarrow> ?h3 y = h y" using h2(2) by auto
  ultimately show ?thesis using l2 z by auto
qed

section \<open>The queue interface\<close>

text \<open>
  What the order book relies on: appending puts a live element last, removing takes out exactly
  that element, and neither creates or destroys elements. The consequences for sequences of
  operations hold for every implementation.
\<close>

locale fifo_level =
  fixes append :: "'x \<Rightarrow> 's \<Rightarrow> 's option"
    and remove :: "'x \<Rightarrow> 's \<Rightarrow> 's option"
    and queue :: "'s \<Rightarrow> 'x list \<Rightarrow> bool"
    and live :: "'s \<Rightarrow> 'x \<Rightarrow> bool"
  assumes append_law: "queue s xs \<Longrightarrow> live s x \<Longrightarrow> x \<notin> set xs \<Longrightarrow>
      \<exists>s'. append x s = Some s' \<and> queue s' (xs @ [x]) \<and> (\<forall>y. live s' y = live s y)"
    and remove_law: "queue s xs \<Longrightarrow> x \<in> set xs \<Longrightarrow>
      \<exists>s'. remove x s = Some s' \<and> queue s' (remove1 x xs) \<and> (\<forall>y. live s' y = live s y)"
begin

lemma append_all:
  "queue s xs \<Longrightarrow> distinct (xs @ ys) \<Longrightarrow> \<forall>y \<in> set ys. live s y \<Longrightarrow>
   \<exists>s'. run_steps append ys s = Some s' \<and> queue s' (xs @ ys) \<and> (\<forall>y. live s' y = live s y)"
proof (induction ys arbitrary: s xs)
  case Nil
  then show ?case by simp
next
  case (Cons y ys)
  from Cons.prems append_law [of s xs y] obtain s1 where
    s1: "append y s = Some s1" "queue s1 (xs @ [y])" "\<forall>z. live s1 z = live s z" by auto
  with Cons.prems Cons.IH [of s1 "xs @ [y]"] show ?case by auto
qed

lemma append_all_remove:
  assumes "queue s []" and "distinct ys" and "\<forall>y \<in> set ys. live s y" and "x \<in> set ys"
  shows "\<exists>s1 s2. run_steps append ys s = Some s1 \<and> remove x s1 = Some s2 \<and> queue s2 (remove1 x ys)"
  using append_all [of s "[]" ys] assms remove_law [of _ ys x] by fastforce

end

interpretation level_fifo: fifo_level Level_append Level_remove level_queue level_live
proof unfold_locales
  fix s xs x
  assume a: "level_queue s xs" "level_live s x" "x \<notin> set xs"
  obtain h l where s: "s = (h, l)" by (cases s)
  from a s obtain ord where "h x = Some ord" by (auto simp: level_live_def)
  with Level_append_inv [of h l xs x ord] a s obtain h' l' where
    "Level_append x s = Some (h', l')" "level_inv h' l' (xs @ [x])" "same_data h h'"
    by (auto simp: level_queue_def level_live_def)
  with s show "\<exists>s'. Level_append x s = Some s' \<and> level_queue s' (xs @ [x]) \<and> (\<forall>y. level_live s' y = level_live s y)"
    by (simp add: level_queue_def level_live_def same_data_dom)
next
  fix s xs x
  assume a: "level_queue s xs" "x \<in> set xs"
  obtain h l where s: "s = (h, l)" by (cases s)
  from a s have "level_inv h l xs" by (simp add: level_queue_def)
  then obtain ord where "h x = Some ord" using level_inv_live a(2) by blast
  with Level_remove_inv [of h l xs x ord] a s obtain h' l' where
    "Level_remove x s = Some (h', l')" "level_inv h' l' (remove1 x xs)" "same_data h h'"
    by (auto simp: level_queue_def)
  with s show "\<exists>s'. Level_remove x s = Some s' \<and> level_queue s' (remove1 x xs) \<and> (\<forall>y. level_live s' y = level_live s y)"
    by (simp add: level_queue_def level_live_def same_data_dom)
qed

end
