(* ===== verification/Order_Book.thy ===== *)
theory Order_Book
  imports Level
begin

text \<open>
  The price-time priority book of one instrument:
  \<^verbatim>\<open>include/tt/orderbook/order_book.hpp\<close> and \<^verbatim>\<open>src/orderbook/order_book.cpp\<close>.

  The two ladders hold raw pointers to levels; the level objects are owned by
  \<^verbatim>\<open>level_storage_\<close>, which is keyed by price alone and shared by both sides. Levels
  therefore live in an explicit store \<open>levels\<close>: a pointer is valid while the store holds an
  object for it, and following any other pointer is undefined behaviour (\<^const>\<open>None\<close>), as
  is a failed \<^verbatim>\<open>assert\<close>.
\<close>

section \<open>State\<close>

type_synonym LevelPtr = nat

record OrderBook =
  instrument :: InstrumentId
  asks :: "(Price \<times> LevelPtr) list"
  bids :: "(Price \<times> LevelPtr) list"
  level_storage :: "Price \<rightharpoonup> LevelPtr"
  id_index :: OrderHeap
  levels :: "LevelPtr \<rightharpoonup> Level"
  next_ptr :: LevelPtr

definition new_OrderBook :: "InstrumentId \<Rightarrow> OrderBook" where
  "new_OrderBook i =
     \<lparr>instrument = i, asks = [], bids = [], level_storage = Map.empty, id_index = Map.empty,
      levels = Map.empty, next_ptr = 0\<rparr>"

definition ladder :: "bool \<Rightarrow> OrderBook \<Rightarrow> (Price \<times> LevelPtr) list" where
  "ladder is_bid b = (if is_bid then bids b else asks b)"

text \<open>
  \<^verbatim>\<open>fill\<close> and the matcher read an order after its owner has been erased from the
  index. Such a read is undefined behaviour; whether the program survives it, and what it returns then, is
  a parameter of the model. When \<open>freed_readable\<close> is false the operation that reads is
  undefined, as the language has it. When it is true the read returns a function of what the field held before the fill
  (and, for the trader id, of the trade being reported). \<open>clock\<close> is the steady clock, by the id of the trade
  it stamps.
\<close>

record Env =
  freed_readable :: bool
  freed_price :: "Order \<Rightarrow> Price"
  freed_trader_id :: "TradeId \<Rightarrow> TraderId \<Rightarrow> TraderId"
  clock :: "TradeId \<Rightarrow> Timestamp"

text \<open>The memory of a freed order is still readable and the order's price still there.\<close>

definition freed_price_intact :: "Env \<Rightarrow> bool" where
  "freed_price_intact env \<longleftrightarrow> freed_readable env \<and> (\<forall>ord. freed_price env ord = o_price ord)"

section \<open>Levels\<close>

definition get_or_create_level :: "Price \<Rightarrow> bool \<Rightarrow> OrderBook \<Rightarrow> LevelPtr \<times> OrderBook" where
  "get_or_create_level p is_bid b =
     (case map_of (ladder is_bid b) p of
        Some ptr \<Rightarrow> (ptr, b)
      | None \<Rightarrow>
         let raw = next_ptr b;
             b1 = b\<lparr>levels := (levels b)(raw \<mapsto> new_Level p), next_ptr := Suc raw\<rparr>;
             \<comment> \<open>emplace into the storage: with the price taken the new level is destroyed again\<close>
             b2 = (case level_storage b1 p of
                     None \<Rightarrow> b1\<lparr>level_storage := (level_storage b1)(p \<mapsto> raw)\<rparr>
                   | Some _ \<Rightarrow> b1\<lparr>levels := (levels b1)(raw := None)\<rparr>)
         in (raw, if is_bid then b2\<lparr>bids := omap_emplace (>) p raw (bids b2)\<rparr>
                  else b2\<lparr>asks := omap_emplace (<) p raw (asks b2)\<rparr>))"

definition destroy_level :: "Price \<Rightarrow> bool \<Rightarrow> OrderBook \<Rightarrow> OrderBook" where
  "destroy_level p is_bid b =
     (let b1 = (if is_bid then b\<lparr>bids := omap_erase p (bids b)\<rparr> else b\<lparr>asks := omap_erase p (asks b)\<rparr>)
      in case level_storage b1 p of
           None \<Rightarrow> b1
         | Some ptr \<Rightarrow> b1\<lparr>level_storage := (level_storage b1)(p := None), levels := (levels b1)(ptr := None)\<rparr>)"

text \<open>Look a level up in a ladder (asserted to be there) and follow the pointer.\<close>

definition level_at :: "Price \<Rightarrow> bool \<Rightarrow> OrderBook \<Rightarrow> (LevelPtr \<times> Level) option" where
  "level_at p is_bid b =
     do { ptr \<leftarrow> map_of (ladder is_bid b) p;
          l \<leftarrow> levels b ptr;
          Some (ptr, l) }"

text \<open>The step \<^verbatim>\<open>cancel\<close> and \<^verbatim>\<open>modify\<close> share: unlink, and free an empty level.\<close>

definition remove_from_level :: "OrderId \<Rightarrow> Price \<Rightarrow> bool \<Rightarrow> OrderBook \<Rightarrow> OrderBook option" where
  "remove_from_level x p is_bid b =
     do { (ptr, l) \<leftarrow> level_at p is_bid b;
          (h1, l1) \<leftarrow> Level_remove x (id_index b, l);
          let b1 = b\<lparr>id_index := h1, levels := (levels b)(ptr \<mapsto> l1)\<rparr>;
          Some (if order_count l1 = 0 then destroy_level p is_bid b1 else b1) }"

definition append_to_level :: "OrderId \<Rightarrow> Price \<Rightarrow> bool \<Rightarrow> OrderBook \<Rightarrow> OrderBook option" where
  "append_to_level x p is_bid b =
     (let (ptr, b1) = get_or_create_level p is_bid b
      in do { l \<leftarrow> levels b1 ptr;
              (h2, l2) \<leftarrow> Level_append x (id_index b1, l);
              Some (b1\<lparr>id_index := h2, levels := (levels b1)(ptr \<mapsto> l2)\<rparr>) })"

section \<open>Mutations\<close>

text \<open>
  The order handed to \<^verbatim>\<open>insert\<close> is an object of its own that the index takes over at
  the end; the model enters it into the index, which is the heap of orders, before it is linked.
\<close>

definition OrderBook_insert :: "Order option \<Rightarrow> OrderBook \<Rightarrow> (bool \<times> OrderBook) option" where
  "OrderBook_insert order b =
     (case order of
        None \<Rightarrow> Some (False, b)
      | Some ord \<Rightarrow>
          if o_id ord = kInvalidOrderId then Some (False, b)
          else if \<not> is_limit ord then Some (False, b)
          else if \<not> Price_is_valid (o_price ord) then Some (False, b)
          else if \<not> Quantity_is_valid (o_remaining ord) then Some (False, b)
          else if id_index b (o_id ord) \<noteq> None then Some (False, b)
          else map_option (\<lambda>b'. (True, b'))
                 (append_to_level (o_id ord) (o_price ord) (is_buy ord)
                    (b\<lparr>id_index := (id_index b)(o_id ord \<mapsto> ord)\<rparr>)))"

definition OrderBook_cancel :: "OrderId \<Rightarrow> OrderBook \<Rightarrow> (bool \<times> OrderBook) option" where
  "OrderBook_cancel x b =
     (case id_index b x of
        None \<Rightarrow> Some (False, b)
      | Some ord \<Rightarrow>
          if o_status ord = StatusFilled \<or> o_status ord = StatusCancelled then Some (False, b)
          else do { b1 \<leftarrow> remove_from_level x (o_price ord) (is_buy ord) b;
                    Some (True, b1\<lparr>id_index := (id_index b1)(x := None)\<rparr>) })"

definition OrderBook_remove :: "OrderId \<Rightarrow> OrderBook \<Rightarrow> OrderBook option" where
  "OrderBook_remove x b = map_option snd (OrderBook_cancel x b)"

definition OrderBook_fill :: "Env \<Rightarrow> OrderId \<Rightarrow> Quantity \<Rightarrow> OrderBook \<Rightarrow> (bool \<times> OrderBook) option" where
  "OrderBook_fill env x q b =
     (case id_index b x of
        None \<Rightarrow> Some (False, b)
      | Some ord \<Rightarrow>
          do { (ptr, l) \<leftarrow> level_at (o_price ord) (is_buy ord) b;
               ((h1, l1), ff) \<leftarrow> reduce_front q (id_index b, l);
               let b1 = b\<lparr>id_index := h1, levels := (levels b)(ptr \<mapsto> l1)\<rparr>;
               if ff_consumed ff
               then let b2 = b1\<lparr>id_index := (id_index b1)(x := None)\<rparr>
                    in if order_count l1 \<noteq> 0 then Some (False, b2)
                       else if freed_readable env then Some (False, destroy_level (freed_price env ord) (is_buy ord) b2)
                       else None
               else Some (True, b1) })"

definition OrderBook_reduce :: "OrderId \<Rightarrow> Quantity \<Rightarrow> OrderBook \<Rightarrow> (bool \<times> OrderBook) option" where
  "OrderBook_reduce x new_qty b =
     (case id_index b x of
        None \<Rightarrow> Some (False, b)
      | Some ord \<Rightarrow>
          if o_status ord = StatusFilled \<or> o_status ord = StatusCancelled then Some (False, b)
          else if qty new_qty \<le> 0 \<or> qty new_qty \<ge> qty (o_remaining ord) then Some (False, b)
          else do { (ptr, l) \<leftarrow> level_at (o_price ord) (is_buy ord) b;
                    let diff = o_remaining ord - new_qty;
                    let ord1 = ord\<lparr>o_remaining := new_qty,
                                   o_status := if o_status ord = StatusNew then StatusPartiallyFilled
                                               else o_status ord\<rparr>;
                    Some (True, b\<lparr>id_index := (id_index b)(x \<mapsto> ord1),
                                  levels := (levels b)(ptr \<mapsto> sub_from_total diff l)\<rparr>) })"

datatype ModifyResult = NotFound | ModifyRejected | Modified | Replaced

definition OrderBook_modify ::
    "OrderId \<Rightarrow> Quantity \<Rightarrow> Price \<Rightarrow> OrderBook \<Rightarrow> (ModifyResult \<times> OrderBook) option" where
  "OrderBook_modify x new_qty new_price b =
     (case id_index b x of
        None \<Rightarrow> Some (NotFound, b)
      | Some ord \<Rightarrow>
          if o_status ord = StatusFilled \<or> o_status ord = StatusCancelled then Some (NotFound, b)
          else if is_market ord then Some (ModifyRejected, b)
          else if \<not> Quantity_is_valid new_qty then Some (ModifyRejected, b)
          else if \<not> Price_is_valid new_price then Some (ModifyRejected, b)
          else if new_price = o_price ord \<and> new_qty = o_remaining ord then Some (Modified, b)
          else if new_price = o_price ord \<and> qty new_qty < qty (o_remaining ord)
          then do { (ptr, l) \<leftarrow> level_at (o_price ord) (is_buy ord) b;
                    let diff = o_remaining ord - new_qty;
                    let ord1 = ord\<lparr>o_remaining := new_qty,
                                   o_quantity := o_quantity ord - diff,
                                   o_status := if o_status ord = StatusNew then StatusPartiallyFilled
                                               else o_status ord\<rparr>;
                    Some (Modified, b\<lparr>id_index := (id_index b)(x \<mapsto> ord1),
                                      levels := (levels b)(ptr \<mapsto> sub_from_total diff l)\<rparr>) }
          else do { b1 \<leftarrow> remove_from_level x (o_price ord) (is_buy ord) b;
                    ord1 \<leftarrow> id_index b1 x;
                    let ord2 = ord1\<lparr>o_price := new_price, o_quantity := new_qty,
                                    o_remaining := new_qty, o_status := StatusNew\<rparr>;
                    b3 \<leftarrow> append_to_level x new_price (is_buy ord)
                            (b1\<lparr>id_index := (id_index b1)(x \<mapsto> ord2)\<rparr>);
                    Some (Replaced, b3) })"

section \<open>Queries\<close>

record TopOfBook =
  tob_valid :: bool
  tob_price :: Price
  tob_quantity :: Quantity
  tob_order_count :: "64 word"

definition TopOfBook_init :: TopOfBook where
  "TopOfBook_init =
     \<lparr>tob_valid = False, tob_price = Price 0, tob_quantity = Quantity 0, tob_order_count = 0\<rparr>"

definition OrderBook_empty :: "OrderBook \<Rightarrow> bool" where
  "OrderBook_empty b \<longleftrightarrow> bids b = [] \<and> asks b = []"

definition bid_level_count :: "OrderBook \<Rightarrow> nat" where "bid_level_count b = length (bids b)"
definition ask_level_count :: "OrderBook \<Rightarrow> nat" where "ask_level_count b = length (asks b)"
definition total_order_count :: "OrderBook \<Rightarrow> nat" where "total_order_count b = card (dom (id_index b))"

definition best_price :: "(Price \<times> LevelPtr) list \<Rightarrow> Price" where
  "best_price m = (case m of [] \<Rightarrow> Price kInvalidPrice | (p, _) # _ \<Rightarrow> p)"

definition best_bid :: "OrderBook \<Rightarrow> Price" where "best_bid b = best_price (bids b)"
definition best_ask :: "OrderBook \<Rightarrow> Price" where "best_ask b = best_price (asks b)"

definition best_quantity :: "(Price \<times> LevelPtr) list \<Rightarrow> OrderBook \<Rightarrow> Quantity option" where
  "best_quantity m b =
     (case m of [] \<Rightarrow> Some (Quantity 0) | (_, ptr) # _ \<Rightarrow> map_option total_quantity (levels b ptr))"

definition best_bid_quantity :: "OrderBook \<Rightarrow> Quantity option" where
  "best_bid_quantity b = best_quantity (bids b) b"
definition best_ask_quantity :: "OrderBook \<Rightarrow> Quantity option" where
  "best_ask_quantity b = best_quantity (asks b) b"

definition OrderBook_find :: "OrderId \<Rightarrow> OrderBook \<Rightarrow> Order option" where
  "OrderBook_find x b = id_index b x"

definition best_order :: "(Price \<times> LevelPtr) list \<Rightarrow> OrderBook \<Rightarrow> Order option option" where
  "best_order m b =
     (case m of [] \<Rightarrow> Some None
      | (_, ptr) # _ \<Rightarrow> do { l \<leftarrow> levels b ptr; head_order (id_index b) l })"

definition best_bid_order :: "OrderBook \<Rightarrow> Order option option" where
  "best_bid_order b = best_order (bids b) b"
definition best_ask_order :: "OrderBook \<Rightarrow> Order option option" where
  "best_ask_order b = best_order (asks b) b"

definition best_opposite_order :: "Side \<Rightarrow> OrderBook \<Rightarrow> Order option option" where
  "best_opposite_order s b = (if s = Buy then best_ask_order b else best_bid_order b)"
definition best_opposite_price :: "Side \<Rightarrow> OrderBook \<Rightarrow> Price" where
  "best_opposite_price s b = (if s = Buy then best_ask b else best_bid b)"

definition top_of :: "(Price \<times> LevelPtr) list \<Rightarrow> OrderBook \<Rightarrow> TopOfBook option" where
  "top_of m b =
     (case m of [] \<Rightarrow> Some TopOfBook_init
      | (p, ptr) # _ \<Rightarrow>
          map_option (\<lambda>l. \<lparr>tob_valid = True, tob_price = p, tob_quantity = total_quantity l,
                           tob_order_count = order_count l\<rparr>) (levels b ptr))"

definition top_bid :: "OrderBook \<Rightarrow> TopOfBook option" where "top_bid b = top_of (bids b) b"
definition top_ask :: "OrderBook \<Rightarrow> TopOfBook option" where "top_ask b = top_of (asks b) b"

record DepthLevel =
  dl_price :: Price
  dl_total_quantity :: Quantity
  dl_order_count :: "64 word"

fun depth_side :: "nat \<Rightarrow> nat \<Rightarrow> OrderBook \<Rightarrow> (Price \<times> LevelPtr) list \<Rightarrow> DepthLevel list option" where
  "depth_side max_levels n b [] = Some []"
| "depth_side max_levels n b ((p, ptr) # m) =
     (if n \<ge> max_levels then Some []
      else do { l \<leftarrow> levels b ptr;
                ds \<leftarrow> depth_side max_levels (Suc n) b m;
                Some (\<lparr>dl_price = p, dl_total_quantity = total_quantity l,
                       dl_order_count = order_count l\<rparr> # ds) })"

definition depth :: "nat \<Rightarrow> OrderBook \<Rightarrow> (DepthLevel list \<times> DepthLevel list) option" where
  "depth max_levels b =
     do { bs \<leftarrow> depth_side max_levels 0 b (bids b);
          as \<leftarrow> depth_side max_levels 0 b (asks b);
          Some (bs, as) }"

section \<open>The book as priority queues\<close>

text \<open>
  The abstraction: the queue of order ids at each side and price, and the whole side in
  price-time priority, best price first and oldest first within a price.
\<close>

type_synonym Queues = "bool \<Rightarrow> Price \<Rightarrow> OrderId list"

definition queues :: "OrderBook \<Rightarrow> Queues" where
  "queues b is_bid p =
     (case level_at p is_bid b of None \<Rightarrow> [] | Some (_, l) \<Rightarrow> level_ids (id_index b) l)"

definition priority_ids :: "bool \<Rightarrow> OrderBook \<Rightarrow> OrderId list" where
  "priority_ids is_bid b = concat (map (\<lambda>(p, _). queues b is_bid p) (ladder is_bid b))"

definition order_ok :: "Order \<Rightarrow> bool" where
  "order_ok ord \<longleftrightarrow> o_id ord \<noteq> kInvalidOrderId \<and> is_limit ord \<and> Price_is_valid (o_price ord) \<and>
     Quantity_is_valid (o_remaining ord) \<and> is_open ord"

definition order_at :: "OrderHeap \<Rightarrow> bool \<Rightarrow> Price \<Rightarrow> OrderId \<Rightarrow> bool" where
  "order_at h is_bid p x \<longleftrightarrow>
     (case h x of None \<Rightarrow> False
      | Some ord \<Rightarrow> order_ok ord \<and> o_id ord = x \<and> is_buy ord = is_bid \<and> o_price ord = p)"

definition level_ok :: "OrderBook \<Rightarrow> bool \<Rightarrow> Price \<Rightarrow> OrderId list \<Rightarrow> bool" where
  "level_ok b is_bid p q \<longleftrightarrow>
     (case map_of (ladder is_bid b) p of
        None \<Rightarrow> q = []
      | Some ptr \<Rightarrow> q \<noteq> [] \<and> level_storage b p = Some ptr \<and>
          (case levels b ptr of None \<Rightarrow> False
           | Some l \<Rightarrow> l_price l = p \<and> level_inv (id_index b) l q))"

definition book_rel :: "OrderBook \<Rightarrow> Queues \<Rightarrow> bool" where
  "book_rel b Q \<longleftrightarrow>
     sorted_wrt (<) (map fst (asks b)) \<and> sorted_wrt (>) (map fst (bids b)) \<and>
     (\<forall>is_bid p. level_ok b is_bid p (Q is_bid p)) \<and>
     (\<forall>p. Q True p = [] \<or> Q False p = []) \<and>
     (\<forall>is_bid p x. x \<in> set (Q is_bid p) \<longrightarrow> order_at (id_index b) is_bid p x) \<and>
     (\<forall>x ord. id_index b x = Some ord \<longrightarrow> x \<in> set (Q (is_buy ord) (o_price ord))) \<and>
     (\<forall>p ptr. level_storage b p = Some ptr \<longrightarrow> (\<exists>is_bid. map_of (ladder is_bid b) p = Some ptr)) \<and>
     (\<forall>ptr \<ge> next_ptr b. levels b ptr = None)"

definition book_inv :: "OrderBook \<Rightarrow> bool" where
  "book_inv b \<longleftrightarrow> book_rel b (queues b)"

end
