(* ===== verification/Book_Refinement.thy ===== *)
theory Book_Refinement
  imports Order_Book
begin

text \<open>
  The order book implements queues. \<open>book_rel b Q\<close> ties the ladders, the level store, the
  intrusive links and the index to a queue of order ids per side and price; every mutation of the
  book is shown to keep it, to return (given that a freed order still reads as it was), and to act on the queues as the
  specification at the end of the theory says. Two conditions are the caller's: an order may only
  be put at a price at which the other side has no level, and \<open>fill\<close> must be able to read back
  the price of the order it has just freed (\<^const>\<open>freed_price_intact\<close>).
\<close>

abbreviation set_queue :: "bool \<Rightarrow> Price \<Rightarrow> OrderId list \<Rightarrow> Queues \<Rightarrow> Queues" where
  "set_queue s p q Q \<equiv> Q(s := (Q s)(p := q))"

text \<open>
  A detached order is in the index but in no queue: the state between taking an order out of a
  queue (or out of the caller's hands) and putting it into one.
\<close>

abbreviation without :: "OrderId \<Rightarrow> OrderBook \<Rightarrow> OrderBook" where
  "without x b \<equiv> b\<lparr>id_index := (id_index b)(x := None)\<rparr>"

text \<open>The order after a quantity reduction that keeps its place, and after a replacement.\<close>

definition reduced :: "Quantity \<Rightarrow> Order \<Rightarrow> Order" where
  "reduced new_qty ord = ord\<lparr>o_remaining := new_qty,
     o_status := if o_status ord = StatusNew then StatusPartiallyFilled else o_status ord\<rparr>"

definition replaced :: "Quantity \<Rightarrow> Price \<Rightarrow> Order \<Rightarrow> Order" where
  "replaced n p ord = ord\<lparr>o_price := p, o_quantity := n, o_remaining := n, o_status := StatusNew\<rparr>"

section \<open>The specification\<close>

text \<open>
  A book is, for each side and price, a queue of order ids, oldest first, together with the data
  of the queued orders. \<open>ModifyOrder\<close> shows the two cases of the contract: a reduction at the
  same price keeps the place in the queue, anything else goes to the back of the (new) queue.
\<close>

record AbsBook =
  aqueue :: Queues
  aorders :: OrderHeap

definition abs_book :: "OrderBook \<Rightarrow> AbsBook" where
  "abs_book b = \<lparr>aqueue = queues b, aorders = (\<lambda>x. map_option strip (id_index b x))\<rparr>"

definition enqueue :: "Order \<Rightarrow> AbsBook \<Rightarrow> AbsBook" where
  "enqueue ord A =
     A\<lparr>aqueue := set_queue (is_buy ord) (o_price ord)
                   (aqueue A (is_buy ord) (o_price ord) @ [o_id ord]) (aqueue A),
       aorders := (aorders A)(o_id ord \<mapsto> strip ord)\<rparr>"

definition dequeue :: "Order \<Rightarrow> AbsBook \<Rightarrow> AbsBook" where
  "dequeue ord A =
     A\<lparr>aqueue := set_queue (is_buy ord) (o_price ord)
                   (remove1 (o_id ord) (aqueue A (is_buy ord) (o_price ord))) (aqueue A),
       aorders := (aorders A)(o_id ord := None)\<rparr>"

datatype BookCommand =
    InsertOrder Order
  | CancelOrder OrderId
  | ReduceOrder OrderId Quantity
  | ModifyOrder OrderId Quantity Price
  | FillOrder OrderId Quantity

definition book_step :: "Env \<Rightarrow> BookCommand \<Rightarrow> OrderBook \<Rightarrow> OrderBook option" where
  "book_step env c b =
     (case c of
        InsertOrder ord \<Rightarrow> map_option snd (OrderBook_insert (Some ord) b)
      | CancelOrder x \<Rightarrow> map_option snd (OrderBook_cancel x b)
      | ReduceOrder x n \<Rightarrow> map_option snd (OrderBook_reduce x n b)
      | ModifyOrder x n p \<Rightarrow> map_option snd (OrderBook_modify x n p b)
      | FillOrder x f \<Rightarrow> map_option snd (OrderBook_fill env x f b))"

definition spec_step :: "BookCommand \<Rightarrow> AbsBook \<Rightarrow> AbsBook" where
  "spec_step c A =
     (case c of
        InsertOrder ord \<Rightarrow>
          if order_ok ord \<and> aorders A (o_id ord) = None then enqueue ord A else A
      | CancelOrder x \<Rightarrow>
          (case aorders A x of None \<Rightarrow> A | Some ord \<Rightarrow> dequeue ord A)
      | ReduceOrder x n \<Rightarrow>
          (case aorders A x of None \<Rightarrow> A
           | Some ord \<Rightarrow>
               if 0 < qty n \<and> qty n < qty (o_remaining ord)
               then A\<lparr>aorders := (aorders A)(x \<mapsto> reduced n ord)\<rparr> else A)
      | ModifyOrder x n p \<Rightarrow>
          (case aorders A x of None \<Rightarrow> A
           | Some ord \<Rightarrow>
               if \<not> Quantity_is_valid n \<or> \<not> Price_is_valid p then A
               else if p = o_price ord \<and> n = o_remaining ord then A
               else if p = o_price ord \<and> qty n < qty (o_remaining ord)
               then A\<lparr>aorders := (aorders A)(x \<mapsto>
                        reduced n ord\<lparr>o_quantity := o_quantity ord - (o_remaining ord - n)\<rparr>)\<rparr>
               else enqueue (replaced n p ord) (dequeue ord A))
      | FillOrder x f \<Rightarrow>
          (case aorders A x of None \<Rightarrow> A
           | Some ord \<Rightarrow>
               if qty f \<le> 0 then A
               else if qty f < qty (o_remaining ord)
               then A\<lparr>aorders := (aorders A)(x \<mapsto> reduced (o_remaining ord - f) ord)\<rparr>
               else dequeue ord A))"

text \<open>
  The caller's obligations: nothing is put at a price where the other side has a level, an
  inserted order is open, and only the front of a queue is filled.
\<close>

definition book_cmd_ok :: "BookCommand \<Rightarrow> OrderBook \<Rightarrow> bool" where
  "book_cmd_ok c b \<longleftrightarrow>
     (case c of
        InsertOrder ord \<Rightarrow> is_open ord \<and> queues b (\<not> is_buy ord) (o_price ord) = []
      | ModifyOrder x n p \<Rightarrow>
          (case id_index b x of None \<Rightarrow> True | Some ord \<Rightarrow> queues b (\<not> is_buy ord) p = [])
      | FillOrder x f \<Rightarrow>
          (case id_index b x of None \<Rightarrow> True
           | Some ord \<Rightarrow> (case queues b (is_buy ord) (o_price ord) of [] \<Rightarrow> False | y # _ \<Rightarrow> y = x))
      | _ \<Rightarrow> True)"

section \<open>The invariant and its consequences\<close>

subsection \<open>Consequences of the invariant\<close>

lemma order_atE:
  assumes "order_at h s p x"
  obtains ord where "h x = Some ord" "order_ok ord" "o_id ord = x" "is_buy ord = s" "o_price ord = p"
  using assms by (auto simp: order_at_def split: option.splits)

lemma order_at_cong: "h' x = h x \<Longrightarrow> order_at h' s p x = order_at h s p x"
  by (simp add: order_at_def)

lemma order_ok_strip:
  assumes "strip ord' = strip ord"
  shows "order_ok ord' = order_ok ord" "is_buy ord' = is_buy ord" "o_price ord' = o_price ord" "o_id ord' = o_id ord"
  using strip_fields [OF assms] by (simp_all add: order_ok_def domain_defs)

lemma order_at_same_data:
  assumes "map_option strip (h' x) = map_option strip (h x)"
  shows "order_at h' s p x = order_at h s p x"
proof (cases "h x")
  case None
  with assms show ?thesis by (simp add: order_at_def)
next
  case (Some ord)
  with assms obtain ord' where "h' x = Some ord'" "strip ord' = strip ord" by auto
  with Some show ?thesis by (simp add: order_at_def order_ok_strip [of ord' ord])
qed

lemma book_rel_levelD:
  assumes "book_rel b Q" and "map_of (ladder is_bid b) p = Some ptr"
  shows "Q is_bid p \<noteq> [] \<and> level_storage b p = Some ptr \<and>
    (\<exists>l. levels b ptr = Some l \<and> l_price l = p \<and> level_inv (id_index b) l (Q is_bid p))"
proof -
  from assms(1) have "level_ok b is_bid p (Q is_bid p)" unfolding book_rel_def by blast
  with assms(2) show ?thesis by (auto simp: level_ok_def split: option.splits)
qed

lemma book_rel_queueD:
  assumes "book_rel b Q" and "Q is_bid p \<noteq> []"
  shows "\<exists>ptr l. map_of (ladder is_bid b) p = Some ptr \<and> level_storage b p = Some ptr \<and>
    levels b ptr = Some l \<and> l_price l = p \<and> level_inv (id_index b) l (Q is_bid p)"
proof -
  from assms(1) have "level_ok b is_bid p (Q is_bid p)" unfolding book_rel_def by blast
  with assms(2) show ?thesis by (auto simp: level_ok_def split: option.splits)
qed

lemma book_rel_None: "book_rel b Q \<Longrightarrow> map_of (ladder is_bid b) p = None \<longleftrightarrow> Q is_bid p = []"
  using book_rel_levelD book_rel_queueD by (metis not_None_eq option.distinct(1))

lemma book_rel_orderD:
  "book_rel b Q \<Longrightarrow> x \<in> set (Q is_bid p) \<Longrightarrow>
   order_at (id_index b) is_bid p x"
  unfolding book_rel_def by blast

lemma book_rel_indexD: "book_rel b Q \<Longrightarrow> id_index b x = Some ord \<Longrightarrow> x \<in> set (Q (is_buy ord) (o_price ord))"
  unfolding book_rel_def by blast

lemma book_rel_index_ok:
  assumes "book_rel b Q" and "id_index b x = Some ord"
  shows "order_ok ord" and "o_id ord = x"
  using book_rel_orderD [OF assms(1) book_rel_indexD [OF assms]] assms(2) by (auto simp: order_at_def)

text \<open>An order is queued at one place only.\<close>

lemma book_rel_unique:
  assumes "book_rel b Q" and "x \<in> set (Q s p)" and "x \<in> set (Q s' p')"
  shows "s' = s \<and> p' = p"
  using book_rel_orderD [OF assms(1,2)] book_rel_orderD [OF assms(1,3)] by (auto elim!: order_atE)

lemma book_rel_storage: "book_rel b Q \<Longrightarrow> level_storage b p = Some ptr \<Longrightarrow> \<exists>s. map_of (ladder s b) p = Some ptr"
  unfolding book_rel_def by blast

lemma book_rel_storage_None:
  assumes "book_rel b Q" and "Q s p = []" and "Q (\<not> s) p = []"
  shows "level_storage b p = None"
proof (rule ccontr)
  assume "level_storage b p \<noteq> None"
  then obtain ptr s' where "map_of (ladder s' b) p = Some ptr" using book_rel_storage [OF assms(1)] by blast
  then have "Q s' p \<noteq> []" using book_rel_levelD [OF assms(1)] by blast
  then show False using assms(2,3) by (cases "s' = s") auto
qed

lemma book_rel_fresh: "book_rel b Q \<Longrightarrow> levels b ptr = Some l \<Longrightarrow> ptr < next_ptr b"
  unfolding book_rel_def by (metis not_le option.distinct(1))

text \<open>Two different queues sit in two different level objects.\<close>

lemma book_rel_ptr_unique:
  assumes rel: "book_rel b Q" and "map_of (ladder s b) p = Some ptr" and "map_of (ladder s' b) p' = Some ptr"
  shows "s' = s \<and> p' = p"
proof -
  from book_rel_levelD [OF rel assms(2)] book_rel_levelD [OF rel assms(3)]
  have "p' = p" and "Q s p \<noteq> []" and "Q s' p' \<noteq> []" by auto
  moreover from rel have "Q True p = [] \<or> Q False p = []" unfolding book_rel_def by blast
  ultimately show ?thesis by (cases s; cases s') auto
qed

lemma book_rel_sorted:
  "book_rel b Q \<Longrightarrow> sorted_wrt (<) (map fst (asks b))" "book_rel b Q \<Longrightarrow> sorted_wrt (>) (map fst (bids b))"
  unfolding book_rel_def by blast+

subsection \<open>The abstraction is determined by the book\<close>

lemma book_rel_queues: "book_rel b Q \<Longrightarrow> Q = queues b"
proof (intro ext)
  fix s p
  assume rel: "book_rel b Q"
  show "Q s p = queues b s p"
  proof (cases "map_of (ladder s b) p")
    case None
    then show ?thesis using book_rel_None [OF rel, of s p] by (simp add: queues_def level_at_def)
  next
    case (Some ptr)
    with book_rel_levelD [OF rel Some] show ?thesis
      by (auto simp: queues_def level_at_def level_ids_eq)
  qed
qed

lemma book_inv_iff: "book_inv b \<longleftrightarrow> (\<exists>Q. book_rel b Q)"
  unfolding book_inv_def using book_rel_queues by metis

lemma book_inv_new: "book_inv (new_OrderBook i)"
  unfolding book_inv_iff
  by (rule exI [of _ "\<lambda>_ _. []"]) (simp add: book_rel_def new_OrderBook_def level_ok_def ladder_def)

subsection \<open>Replacing one queue\<close>

text \<open>
  Every mutation touches one queue. The two lemmas give what is to be shown of the new state:
  the queue at \<open>(s, p)\<close> becomes \<open>q\<close> (non-empty, or emptied with the level freed), the
  orders of all other queues are left as they were.
\<close>

lemma level_ok_frame:
  assumes "level_ok b s' p' q" and "map_of (ladder s' b') p' = map_of (ladder s' b) p'"
    and "\<And>ptr. map_of (ladder s' b) p' = Some ptr \<Longrightarrow>
           level_storage b' p' = level_storage b p' \<and> levels b' ptr = levels b ptr"
    and "\<And>y. y \<in> set q \<Longrightarrow> id_index b' y = id_index b y"
  shows "level_ok b' s' p' q"
proof (cases "map_of (ladder s' b) p'")
  case None
  with assms show ?thesis by (simp add: level_ok_def)
next
  case (Some ptr)
  with assms obtain l where l: "levels b ptr = Some l" "l_price l = p'" "level_inv (id_index b) l q"
    by (auto simp: level_ok_def split: option.splits)
  then have "level_inv (id_index b') l q" using assms(4) level_inv_cong [of q "id_index b'" "id_index b" l] by simp
  with Some l assms show ?thesis by (auto simp: level_ok_def)
qed

lemma book_rel_replace:
  assumes rel: "book_rel b Q" and other: "Q (\<not> s) p = []" and here: "level_ok b' s p q"
    and lad: "\<And>s' p'. \<not> (s' = s \<and> p' = p) \<Longrightarrow> map_of (ladder s' b') p' = map_of (ladder s' b) p'"
    and sorted: "sorted_wrt (<) (map fst (asks b'))" "sorted_wrt (>) (map fst (bids b'))"
    and store: "\<And>p'. p' \<noteq> p \<Longrightarrow> level_storage b' p' = level_storage b p'"
      "level_storage b' p = map_of (ladder s b') p"
    and lvls: "\<And>ptr s' p'. map_of (ladder s' b) p' = Some ptr \<Longrightarrow> p' \<noteq> p \<Longrightarrow> levels b' ptr = levels b ptr"
      "\<And>ptr. next_ptr b' \<le> ptr \<Longrightarrow> levels b' ptr = None"
    and orders: "\<And>x. x \<in> set q \<Longrightarrow> order_at (id_index b') s p x"
    and frame: "\<And>y. y \<notin> set (Q s p) \<Longrightarrow> y \<notin> set q \<Longrightarrow> id_index b' y = id_index b y"
    and gone: "\<And>y. y \<in> set (Q s p) \<Longrightarrow> y \<notin> set q \<Longrightarrow> id_index b' y = None"
    and fresh: "\<And>y s' p'. y \<in> set q \<Longrightarrow> y \<in> set (Q s' p') \<Longrightarrow> s' = s \<and> p' = p"
  shows "book_rel b' (Q(s := (Q s)(p := q)))"
proof -
  let ?Q = "Q(s := (Q s)(p := q))"
  have Q_other: "?Q s' p' = Q s' p'" if "\<not> (s' = s \<and> p' = p)" for s' p' using that by auto
  have keep: "id_index b' y = id_index b y" if "y \<in> set (Q s' p')" "\<not> (s' = s \<and> p' = p)" for y s' p'
    using that fresh [of y s' p'] frame [of y] book_rel_unique [OF rel that(1), of s p] by blast
  have nop: "p' \<noteq> p" if "map_of (ladder s' b) p' = Some ptr" "\<not> (s' = s \<and> p' = p)" for s' p' ptr
  proof -
    have "Q s' p' \<noteq> []" using book_rel_levelD [OF rel that(1)] by blast
    then show ?thesis using that(2) other by (cases s; cases s') auto
  qed
  have "level_ok b' s' p' (?Q s' p')" for s' p'
  proof (cases "s' = s \<and> p' = p")
    case True
    then show ?thesis using here by simp
  next
    case False
    have ok: "level_ok b s' p' (Q s' p')" using rel unfolding book_rel_def by blast
    show ?thesis unfolding Q_other [OF False]
      by (rule level_ok_frame [OF ok lad [OF False]])
        (use nop [OF _ False] store(1) lvls(1) keep [OF _ False] in auto)
  qed
  moreover have "?Q True p' = [] \<or> ?Q False p' = []" for p'
    using rel other unfolding book_rel_def by (cases s) auto
  moreover have "order_at (id_index b') s' p' x" if x: "x \<in> set (?Q s' p')" for s' p' x
  proof (cases "s' = s \<and> p' = p")
    case True
    with x orders show ?thesis by auto
  next
    case False
    with x have "x \<in> set (Q s' p')" using Q_other by simp
    then show ?thesis using keep [OF _ False] book_rel_orderD [OF rel] order_at_cong by blast
  qed
  moreover have "x \<in> set (?Q (is_buy ord) (o_price ord))" if i: "id_index b' x = Some ord" for x ord
  proof (cases "x \<in> set q")
    case True
    with orders [OF True] i show ?thesis by (auto elim: order_atE)
  next
    case False
    then have nq: "x \<notin> set (Q s p)" using gone i by fastforce
    with False frame i have "id_index b x = Some ord" by simp
    with book_rel_indexD [OF rel this] nq show ?thesis by auto
  qed
  moreover have "\<exists>s'. map_of (ladder s' b') p' = Some ptr" if st: "level_storage b' p' = Some ptr" for p' ptr
  proof (cases "p' = p")
    case True
    with st store(2) show ?thesis by auto
  next
    case False
    with st store(1) obtain s' where "map_of (ladder s' b) p' = Some ptr" using book_rel_storage [OF rel] by metis
    then show ?thesis using lad [of s' p'] False by auto
  qed
  ultimately show ?thesis using sorted lvls(2) unfolding book_rel_def by blast
qed


subsection \<open>Creating and freeing levels\<close>

lemma ladder_simps [simp]:
  "ladder True b = bids b" "ladder False b = asks b"
  by (simp_all add: ladder_def)

lemma ladder_upd [simp]:
  "ladder s (b\<lparr>id_index := h\<rparr>) = ladder s b" "ladder s (b\<lparr>levels := lv\<rparr>) = ladder s b"
  by (simp_all add: ladder_def)

lemma get_or_create_new:
  assumes "sorted_wrt (<) (map fst (asks b))" "sorted_wrt (>) (map fst (bids b))"
    and "map_of (ladder s b) p = None" "level_storage b p = None"
  obtains b' where "get_or_create_level p s b = (next_ptr b, b')"
    "map_of (ladder s b') = (map_of (ladder s b))(p \<mapsto> next_ptr b)" "ladder (\<not> s) b' = ladder (\<not> s) b"
    "sorted_wrt (<) (map fst (asks b'))" "sorted_wrt (>) (map fst (bids b'))"
    "level_storage b' = (level_storage b)(p \<mapsto> next_ptr b)" "levels b' = (levels b)(next_ptr b \<mapsto> new_Level p)"
    "next_ptr b' = Suc (next_ptr b)" "id_index b' = id_index b" "instrument b' = instrument b"
  using assms price_less.map_of_emplace [of "asks b" p "next_ptr b"]
    price_greater.map_of_emplace [of "bids b" p "next_ptr b"]
    price_less.sorted_emplace [of "asks b" p "next_ptr b"]
    price_greater.sorted_emplace [of "bids b" p "next_ptr b"]
  by (cases s) (auto simp: get_or_create_level_def Let_def)

lemma destroy_level_fields:
  assumes "level_storage b p = Some ptr"
  shows "map_of (ladder s (destroy_level p s b)) = (map_of (ladder s b))(p := None)"
    "ladder (\<not> s) (destroy_level p s b) = ladder (\<not> s) b"
    "level_storage (destroy_level p s b) = (level_storage b)(p := None)"
    "levels (destroy_level p s b) = (levels b)(ptr := None)"
    "next_ptr (destroy_level p s b) = next_ptr b"
  using assms by (cases s; simp add: destroy_level_def Let_def)+

lemma book_upd_order [simp]:
  "b\<lparr>id_index := h, levels := lv\<rparr> = b\<lparr>levels := lv, id_index := h\<rparr>"
  by simp

lemma destroy_level_id_index [simp]:
  "id_index (destroy_level p s b) = id_index b" "instrument (destroy_level p s b) = instrument b"
  by (cases s; cases "level_storage b p"; simp add: destroy_level_def Let_def)+

lemma destroy_level_upd_id_index:
  "(destroy_level p s b)\<lparr>id_index := h\<rparr> = destroy_level p s (b\<lparr>id_index := h\<rparr>)"
  by (cases s; cases "level_storage b p"; simp add: destroy_level_def Let_def)

lemma destroy_level_sorted:
  assumes "sorted_wrt (<) (map fst (asks b))" "sorted_wrt (>) (map fst (bids b))"
  shows "sorted_wrt (<) (map fst (asks (destroy_level p s b)))"
    "sorted_wrt (>) (map fst (bids (destroy_level p s b)))"
  using assms price_less.sorted_erase [of "asks b" p] price_greater.sorted_erase [of "bids b" p]
  by (cases s; auto simp: destroy_level_def Let_def split: option.splits)+

lemma ladder_other:
  assumes "map_of (ladder s b') = (map_of (ladder s b))(p := v)" "ladder (\<not> s) b' = ladder (\<not> s) b"
    and "\<not> (s' = s \<and> p' = p)"
  shows "map_of (ladder s' b') p' = map_of (ladder s' b) p'"
  using assms by (cases s; cases s') auto

lemma book_rel_without_notin:
  assumes "book_rel (without x b) Q" shows "x \<notin> set (Q s p)"
  using book_rel_orderD [OF assms, of x s p] by (auto simp: order_at_def)

text \<open>The level that \<open>get_or_create_level\<close> hands out holds the queue at that price.\<close>

lemma get_or_create_rel:
  assumes rel: "book_rel (without x b) Q" and other: "Q (\<not> s) p = []"
  obtains ptr b1 l where "get_or_create_level p s b = (ptr, b1)"
    "map_of (ladder s b1) = (map_of (ladder s b))(p \<mapsto> ptr)" "ladder (\<not> s) b1 = ladder (\<not> s) b"
    "sorted_wrt (<) (map fst (asks b1))" "sorted_wrt (>) (map fst (bids b1))"
    "level_storage b1 = (level_storage b)(p \<mapsto> ptr)" "levels b1 = (levels b)(ptr \<mapsto> l)"
    "\<forall>ptr' \<ge> next_ptr b1. levels b1 ptr' = None" "id_index b1 = id_index b" "instrument b1 = instrument b"
    "l_price l = p" "level_inv (id_index (without x b)) l (Q s p)"
    "\<And>s' p' ptr'. map_of (ladder s' b) p' = Some ptr' \<Longrightarrow> p' \<noteq> p \<Longrightarrow> ptr' \<noteq> ptr"
proof (cases "Q s p = []")
  case True
  have none: "map_of (ladder s b) p = None" using book_rel_None [OF rel, of s p] True by simp
  have st: "level_storage b p = None" using book_rel_storage_None [OF rel True other] by simp
  have sorted: "sorted_wrt (<) (map fst (asks b))" "sorted_wrt (>) (map fst (bids b))"
    using book_rel_sorted [OF rel] by simp_all
  have fr: "\<forall>ptr' \<ge> next_ptr b. levels b ptr' = None" using rel by (simp add: book_rel_def)
  have sep: "ptr' \<noteq> next_ptr b" if "map_of (ladder s' b) p' = Some ptr'" for s' p' ptr'
    using book_rel_levelD [OF rel, of s' p' ptr'] book_rel_fresh [OF rel, of ptr'] that by auto
  from get_or_create_new [OF sorted none st] obtain b1 where
    "get_or_create_level p s b = (next_ptr b, b1)"
    "map_of (ladder s b1) = (map_of (ladder s b))(p \<mapsto> next_ptr b)" "ladder (\<not> s) b1 = ladder (\<not> s) b"
    "sorted_wrt (<) (map fst (asks b1))" "sorted_wrt (>) (map fst (bids b1))"
    "level_storage b1 = (level_storage b)(p \<mapsto> next_ptr b)" "levels b1 = (levels b)(next_ptr b \<mapsto> new_Level p)"
    "next_ptr b1 = Suc (next_ptr b)" "id_index b1 = id_index b" "instrument b1 = instrument b" by blast
  then show ?thesis using True fr sep by (intro that [of "next_ptr b" b1 "new_Level p"]) (auto simp: new_Level_def level_inv_def)
next
  case False
  from book_rel_queueD [OF rel False] obtain ptr l where
    m: "map_of (ladder s b) p = Some ptr" and st: "level_storage b p = Some ptr" and
    l: "levels b ptr = Some l" "l_price l = p" "level_inv (id_index (without x b)) l (Q s p)" by auto
  have sep: "ptr' \<noteq> ptr" if "map_of (ladder s' b) p' = Some ptr'" "p' \<noteq> p" for s' p' ptr'
    using book_rel_ptr_unique [OF rel, of s p ptr s' p'] m that by auto
  have fr: "\<forall>ptr' \<ge> next_ptr b. levels b ptr' = None" using rel by (simp add: book_rel_def)
  from m have "get_or_create_level p s b = (ptr, b)" by (simp add: get_or_create_level_def)
  then show ?thesis
    using m st l sep fr book_rel_sorted [OF rel] by (intro that [of ptr b l]) (auto simp: map_upd_triv)
qed

lemma append_to_level_rel:
  assumes rel: "book_rel (without x b) Q" and x: "id_index b x = Some ord" "order_ok ord" "o_id ord = x"
    and sp: "is_buy ord = s" "o_price ord = p" and other: "Q (\<not> s) p = []"
  shows "\<exists>b'. append_to_level x p s b = Some b' \<and> book_rel b' (Q(s := (Q s)(p := Q s p @ [x]))) \<and>
    same_data (id_index b) (id_index b') \<and> instrument b' = instrument b"
proof -
  note notin = book_rel_without_notin [OF rel]
  have x0: "x \<noteq> 0" using x by (auto simp: order_ok_def kInvalidOrderId_def)
  from get_or_create_rel [OF rel other] obtain ptr b1 l where
    goc: "get_or_create_level p s b = (ptr, b1)" and
    b1: "map_of (ladder s b1) = (map_of (ladder s b))(p \<mapsto> ptr)" "ladder (\<not> s) b1 = ladder (\<not> s) b"
      "sorted_wrt (<) (map fst (asks b1))" "sorted_wrt (>) (map fst (bids b1))"
      "level_storage b1 = (level_storage b)(p \<mapsto> ptr)" "levels b1 = (levels b)(ptr \<mapsto> l)"
      "\<forall>ptr' \<ge> next_ptr b1. levels b1 ptr' = None" "id_index b1 = id_index b" "instrument b1 = instrument b" and
    l: "l_price l = p" "level_inv (id_index (without x b)) l (Q s p)" and
    sep: "\<And>s' p' ptr'. map_of (ladder s' b) p' = Some ptr' \<Longrightarrow> p' \<noteq> p \<Longrightarrow> ptr' \<noteq> ptr" by metis
  have same: "id_index (without x b) y = id_index b y" if "y \<in> set (Q s p)" for y
    using notin [of s p] that by auto
  have "level_inv (id_index b) l (Q s p)" using l(2) level_inv_cong [of "Q s p" "id_index (without x b)" "id_index b" l] same by blast
  from Level_append_inv [OF this x(1) notin x0] obtain h2 l2 where
    app: "Level_append x (id_index b, l) = Some (h2, l2)" and l2: "level_inv h2 l2 (Q s p @ [x])" "l_price l2 = p" and
    h2: "same_data (id_index b) h2" "\<And>y. y \<notin> insert x (set (Q s p)) \<Longrightarrow> h2 y = id_index b y" using l(1) by blast
  let ?b' = "b1\<lparr>id_index := h2, levels := (levels b1)(ptr \<mapsto> l2)\<rparr>"
  have step: "append_to_level x p s b = Some ?b'"
    using goc b1(6,8) app by (simp add: append_to_level_def)
  have data: "order_at h2 s p y" if "y \<in> set (Q s p @ [x])" for y
  proof -
    have "order_at (id_index b) s p y"
      using that x sp book_rel_orderD [OF rel, of y s p] by (auto simp: order_at_def split: if_splits)
    then show ?thesis using h2(1) order_at_same_data unfolding same_data_def by blast
  qed
  have "book_rel ?b' (Q(s := (Q s)(p := Q s p @ [x])))"
  proof (rule book_rel_replace [OF rel other])
    show "level_ok ?b' s p (Q s p @ [x])" using b1(1,5) l2 by (simp add: level_ok_def)
    show "map_of (ladder s' ?b') p' = map_of (ladder s' (without x b)) p'" if "\<not> (s' = s \<and> p' = p)" for s' p'
      using ladder_other [OF b1(1,2) that] by simp
    show "levels ?b' ptr' = levels (without x b) ptr'" if "map_of (ladder s' (without x b)) p' = Some ptr'" "p' \<noteq> p"
      for ptr' s' p' using sep [of s' p' ptr'] that b1(6) by simp
    show "levels ?b' ptr' = None" if "next_ptr ?b' \<le> ptr'" for ptr'
      using b1(6,7) that by (auto split: if_splits)
    show "id_index ?b' y = id_index (without x b) y" if "y \<notin> set (Q s p)" "y \<notin> set (Q s p @ [x])" for y
      using h2(2) that by simp
    show "s' = s \<and> p' = p" if "y \<in> set (Q s p @ [x])" "y \<in> set (Q s' p')" for y s' p'
      using that notin [of s' p'] book_rel_unique [OF rel, of y s p s' p'] by auto
  qed (use b1 data in auto)
  with step h2 b1 show ?thesis by auto
qed

text \<open>
  Putting a changed level back: the level keeps a non-empty queue, or is freed when its count
  drops to zero. \<open>x\<close> is the order that left the queue or was changed in it.
\<close>

lemma book_rel_set_level:
  assumes rel: "book_rel b Q" and m: "map_of (ladder s b) p = Some ptr"
    and l': "level_inv h' l' q" "l_price l' = p" and q: "q \<noteq> []" "set q \<subseteq> set (Q s p)"
    and orders: "\<And>y. y \<in> set q \<Longrightarrow> order_at h' s p y"
    and frame: "\<And>y. y \<notin> set (Q s p) \<Longrightarrow> h' y = id_index b y"
    and gone: "\<And>y. y \<in> set (Q s p) \<Longrightarrow> y \<notin> set q \<Longrightarrow> h' y = None"
  shows "book_rel (b\<lparr>id_index := h', levels := (levels b)(ptr \<mapsto> l')\<rparr>) (Q(s := (Q s)(p := q)))"
    (is "book_rel ?b' _")
proof (rule book_rel_replace [OF rel])
  have ne: "Q s p \<noteq> []" using book_rel_levelD [OF rel m] by blast
  show "Q (\<not> s) p = []" using rel ne unfolding book_rel_def by (cases s) auto
  have st: "level_storage b p = Some ptr" using book_rel_levelD [OF rel m] by blast
  then show "level_storage ?b' p = map_of (ladder s ?b') p" using m by simp
  show "level_ok ?b' s p q" using m st l' q by (simp add: level_ok_def)
  show "levels ?b' ptr' = levels b ptr'" if "map_of (ladder s' b) p' = Some ptr'" "p' \<noteq> p" for ptr' s' p'
    using book_rel_ptr_unique [OF rel m, of s' p'] that by auto
  show "levels ?b' ptr' = None" if "next_ptr ?b' \<le> ptr'" for ptr'
    using that rel book_rel_levelD [OF rel m] book_rel_fresh [OF rel, of ptr] by (auto simp: book_rel_def)
  show "s' = s \<and> p' = p" if "y \<in> set q" "y \<in> set (Q s' p')" for y s' p'
    using that q(2) book_rel_unique [OF rel, of y s p s' p'] by auto
qed (use orders frame gone book_rel_sorted [OF rel] q in auto)

lemma book_rel_free_level:
  assumes rel: "book_rel b Q" and m: "map_of (ladder s b) p = Some ptr"
    and frame: "\<And>y. y \<notin> set (Q s p) \<Longrightarrow> h' y = id_index b y"
    and gone: "\<And>y. y \<in> set (Q s p) \<Longrightarrow> h' y = None"
  shows "book_rel (destroy_level p s (b\<lparr>id_index := h', levels := (levels b)(ptr \<mapsto> l')\<rparr>)) (Q(s := (Q s)(p := [])))"
    (is "book_rel (destroy_level p s ?b1) _")
proof (rule book_rel_replace [OF rel])
  have ne: "Q s p \<noteq> []" using book_rel_levelD [OF rel m] by blast
  show "Q (\<not> s) p = []" using rel ne unfolding book_rel_def by (cases s) auto
  have st: "level_storage ?b1 p = Some ptr" using book_rel_levelD [OF rel m] by simp
  note d = destroy_level_fields [OF st, of s]
  show "level_ok (destroy_level p s ?b1) s p []" using d by (simp add: level_ok_def)
  show "map_of (ladder s' (destroy_level p s ?b1)) p' = map_of (ladder s' b) p'"
    if "\<not> (s' = s \<and> p' = p)" for s' p' using ladder_other [OF d(1,2) that] by simp
  show "levels (destroy_level p s ?b1) ptr' = levels b ptr'"
    if "map_of (ladder s' b) p' = Some ptr'" "p' \<noteq> p" for ptr' s' p'
    using book_rel_ptr_unique [OF rel m, of s' p'] that d(4) by auto
  show "levels (destroy_level p s ?b1) ptr' = None" if "next_ptr (destroy_level p s ?b1) \<le> ptr'" for ptr'
    using that rel d(4,5) by (auto simp: book_rel_def)
  show "level_storage (destroy_level p s ?b1) p' = level_storage b p'" if "p' \<noteq> p" for p'
    using that d(3) by simp
  show "level_storage (destroy_level p s ?b1) p = map_of (ladder s (destroy_level p s ?b1)) p"
    using d(1,3) by simp
  show "id_index (destroy_level p s ?b1) y = id_index b y" if "y \<notin> set (Q s p)" for y
    using that frame by simp
  show "id_index (destroy_level p s ?b1) y = None" if "y \<in> set (Q s p)" for y
    using that gone by simp
qed (use destroy_level_sorted [of ?b1] book_rel_sorted [OF rel] in auto)

text \<open>Taking an order out of its queue.\<close>

lemma remove_from_level_rel:
  assumes rel: "book_rel b Q" and x: "id_index b x = Some ord"
  defines "s \<equiv> is_buy ord" and "p \<equiv> o_price ord"
  shows "\<exists>b'. remove_from_level x p s b = Some b' \<and>
    book_rel (without x b') (Q(s := (Q s)(p := remove1 x (Q s p)))) \<and>
    id_index b' x = Some (ord\<lparr>list_node := null_node\<rparr>) \<and> same_data (id_index b) (id_index b') \<and>
    instrument b' = instrument b"
proof -
  have xq: "x \<in> set (Q s p)" using book_rel_indexD [OF rel x] by (simp add: s_def p_def)
  then have "Q s p \<noteq> []" by auto
  from book_rel_queueD [OF rel this] obtain ptr l where
    m: "map_of (ladder s b) p = Some ptr" and l: "levels b ptr = Some l" "l_price l = p" "level_inv (id_index b) l (Q s p)"
    by blast
  from Level_remove_inv [OF l(3) xq x] obtain h1 l1 where
    rm: "Level_remove x (id_index b, l) = Some (h1, l1)" and l1: "level_inv h1 l1 (remove1 x (Q s p))" "l_price l1 = p" and
    h1: "h1 x = Some (ord\<lparr>list_node := null_node\<rparr>)" "same_data (id_index b) h1"
      "\<And>y. y \<notin> set (Q s p) \<Longrightarrow> h1 y = id_index b y" using l(2) by blast
  let ?b1 = "b\<lparr>id_index := h1, levels := (levels b)(ptr \<mapsto> l1)\<rparr>"
  let ?b' = "if order_count l1 = 0 then destroy_level p s ?b1 else ?b1"
  have step: "remove_from_level x p s b = Some ?b'"
    using m l rm by (simp add: remove_from_level_def level_at_def Let_def)
  have d: "distinct (Q s p)" using l(3) by (simp add: level_inv_def)
  then have sub: "set (remove1 x (Q s p)) = set (Q s p) - {x}" by simp
  have orders: "order_at (h1(x := None)) s p y" if "y \<in> set (remove1 x (Q s p))" for y
    using that sub book_rel_orderD [OF rel, of y s p] h1(2) order_at_same_data [of h1 y "id_index b" s p]
      order_at_cong [of "h1(x := None)" y h1 s p] by (auto simp: same_data_def)
  have "book_rel (without x ?b') (Q(s := (Q s)(p := remove1 x (Q s p))))"
  proof (cases "order_count l1 = 0")
    case True
    then have e: "remove1 x (Q s p) = []" using level_inv_count_0 [OF l1(1)] by simp
    have "book_rel (destroy_level p s (b\<lparr>id_index := h1(x := None), levels := (levels b)(ptr \<mapsto> l1)\<rparr>))
        (Q(s := (Q s)(p := [])))"
      by (rule book_rel_free_level [OF rel m]) (use h1(3) xq sub e in auto)
    then show ?thesis using True e by (simp add: destroy_level_upd_id_index)
  next
    case False
    then have e: "remove1 x (Q s p) \<noteq> []" using level_inv_count_0 [OF l1(1)] by simp
    have "level_inv (h1(x := None)) l1 (remove1 x (Q s p))"
      using l1(1) sub by simp
    then have "book_rel (b\<lparr>id_index := h1(x := None), levels := (levels b)(ptr \<mapsto> l1)\<rparr>)
        (Q(s := (Q s)(p := remove1 x (Q s p))))"
      by (rule book_rel_set_level [OF rel m _ l1(2) e]) (use h1(3) xq sub orders in auto)
    then show ?thesis using False by simp
  qed
  moreover have "id_index ?b' = h1" "instrument ?b' = instrument b" by auto
  ultimately show ?thesis using step h1 by simp
qed

subsection \<open>Insert and cancel\<close>

lemma OrderBook_insert_rel:
  assumes rel: "book_rel b Q" and ok: "order_ok ord" and new: "id_index b (o_id ord) = None"
    and other: "Q (\<not> is_buy ord) (o_price ord) = []"
  shows "\<exists>b'. OrderBook_insert (Some ord) b = Some (True, b') \<and>
    book_rel b' (set_queue (is_buy ord) (o_price ord) (Q (is_buy ord) (o_price ord) @ [o_id ord]) Q) \<and>
    same_data ((id_index b)(o_id ord \<mapsto> ord)) (id_index b') \<and> instrument b' = instrument b"
proof -
  let ?b0 = "b\<lparr>id_index := (id_index b)(o_id ord \<mapsto> ord)\<rparr>"
  have "without (o_id ord) ?b0 = b" using new by (simp add: fun_upd_idem)
  then have "book_rel (without (o_id ord) ?b0) Q" using rel by simp
  from append_to_level_rel [OF this _ ok refl refl refl other]
  obtain b' where "append_to_level (o_id ord) (o_price ord) (is_buy ord) ?b0 = Some b'"
    and "book_rel b' (set_queue (is_buy ord) (o_price ord) (Q (is_buy ord) (o_price ord) @ [o_id ord]) Q)"
    and "same_data ((id_index b)(o_id ord \<mapsto> ord)) (id_index b')" and "instrument b' = instrument b" by auto
  moreover from ok new have "OrderBook_insert (Some ord) b = map_option (\<lambda>b'. (True, b'))
      (append_to_level (o_id ord) (o_price ord) (is_buy ord) ?b0)"
    by (simp add: OrderBook_insert_def order_ok_def)
  ultimately show ?thesis by simp
qed

lemma order_ok_active: "order_ok ord \<Longrightarrow> o_status ord \<noteq> StatusFilled \<and> o_status ord \<noteq> StatusCancelled"
  by (auto simp: order_ok_def is_open_def)

lemma order_ok_rem:
  assumes "order_ok ord"
  shows "0 < qty (o_remaining ord)" "in_i64 (qty (o_remaining ord))" "qty (o_remaining ord) \<le> kMaxQuantity"
  using assms by (auto simp: order_ok_def domain_defs in_i64_def)

lemma OrderBook_cancel_rel:
  assumes rel: "book_rel b Q" and x: "id_index b x = Some ord"
  shows "\<exists>b'. OrderBook_cancel x b = Some (True, b') \<and>
    book_rel b' (set_queue (is_buy ord) (o_price ord) (remove1 x (Q (is_buy ord) (o_price ord))) Q) \<and>
    same_data ((id_index b)(x := None)) (id_index b') \<and> instrument b' = instrument b"
proof -
  from remove_from_level_rel [OF rel x] obtain b1 where
    "remove_from_level x (o_price ord) (is_buy ord) b = Some b1"
    "book_rel (without x b1) (set_queue (is_buy ord) (o_price ord) (remove1 x (Q (is_buy ord) (o_price ord))) Q)"
    "same_data (id_index b) (id_index b1)" "instrument b1 = instrument b" by blast
  then show ?thesis using x order_ok_active [OF book_rel_index_ok(1) [OF rel x]]
    by (auto simp: OrderBook_cancel_def same_data_def)
qed

lemma OrderBook_cancel_absent: "id_index b x = None \<Longrightarrow> OrderBook_cancel x b = Some (False, b)"
  by (simp add: OrderBook_cancel_def)

subsection \<open>Changing an order in place\<close>

lemma change_in_place_rel:
  assumes rel: "book_rel b Q" and x: "id_index b x = Some ord"
    and ord': "order_ok ord'" "list_node ord' = list_node ord" "o_id ord' = x" "is_buy ord' = is_buy ord"
      "o_price ord' = o_price ord"
    and d: "qty d = i64 (qty (o_remaining ord) - qty (o_remaining ord'))"
  shows "\<exists>ptr l. level_at (o_price ord) (is_buy ord) b = Some (ptr, l) \<and>
    book_rel (b\<lparr>id_index := (id_index b)(x \<mapsto> ord'), levels := (levels b)(ptr \<mapsto> sub_from_total d l)\<rparr>) Q"
proof -
  let ?s = "is_buy ord" and ?p = "o_price ord"
  have xq: "x \<in> set (Q ?s ?p)" by (rule book_rel_indexD [OF rel x])
  then have ne: "Q ?s ?p \<noteq> []" by auto
  from book_rel_queueD [OF rel ne] obtain ptr l where
    m: "map_of (ladder ?s b) ?p = Some ptr" and l: "levels b ptr = Some l" "l_price l = ?p"
      "level_inv (id_index b) l (Q ?s ?p)" by blast
  have "level_inv ((id_index b)(x \<mapsto> ord')) (sub_from_total d l) (Q ?s ?p)"
    using level_inv_set_remaining [OF l(3) xq x ord'(2) d] by (simp add: sub_from_total_def)
  then have "book_rel (b\<lparr>id_index := (id_index b)(x \<mapsto> ord'), levels := (levels b)(ptr \<mapsto> sub_from_total d l)\<rparr>)
      (set_queue ?s ?p (Q ?s ?p) Q)"
  proof (rule book_rel_set_level [OF rel m])
    show "order_at ((id_index b)(x \<mapsto> ord')) ?s ?p y" if "y \<in> set (Q ?s ?p)" for y
      using book_rel_orderD [OF rel that] ord' by (auto simp: order_at_def)
    show "((id_index b)(x \<mapsto> ord')) y = id_index b y" if "y \<notin> set (Q ?s ?p)" for y
      using that xq by auto
  qed (use ne l(2) in \<open>auto simp: sub_from_total_def\<close>)
  then show ?thesis using m l by (auto simp: level_at_def)
qed

subsection \<open>Fill\<close>

lemma OrderBook_fill_partial:
  assumes rel: "book_rel b Q" and q: "Q s p = x # xs" and x: "id_index b x = Some ord"
    and f: "0 < qty f" "qty f < qty (o_remaining ord)"
  shows "\<exists>b'. OrderBook_fill env x f b = Some (True, b') \<and> book_rel b' Q \<and>
    id_index b' = (id_index b)(x \<mapsto> ord\<lparr>o_remaining := o_remaining ord - f,
      o_status := if o_status ord = StatusNew then StatusPartiallyFilled else o_status ord\<rparr>) \<and>
    ladder True b' = ladder True b \<and> ladder False b' = ladder False b \<and> instrument b' = instrument b"
proof -
  have at: "order_at (id_index b) s p x" using book_rel_orderD [OF rel, of x s p] q by simp
  with x have ord: "order_ok ord" "is_buy ord = s" "o_price ord = p" "o_id ord = x" by (auto simp: order_at_def)
  note r = order_ok_rem [OF ord(1)]
  let ?ord' = "ord\<lparr>o_remaining := o_remaining ord - f,
      o_status := if o_status ord = StatusNew then StatusPartiallyFilled else o_status ord\<rparr>"
  from q have "Q s p \<noteq> []" by simp
  from book_rel_queueD [OF rel this] q obtain ptr l where
    m: "map_of (ladder s b) p = Some ptr" and l: "levels b ptr = Some l" "l_price l = p"
      "level_inv (id_index b) l (x # xs)" by auto
  from reduce_front_partial [OF l(3) x f r(2)] obtain l' where
    rf: "reduce_front f (id_index b, l) = Some (((id_index b)(x \<mapsto> ?ord'), l'),
        \<lparr>ff_qty = f, ff_filled = Some x, ff_consumed = False\<rparr>)" and
    l': "level_inv ((id_index b)(x \<mapsto> ?ord')) l' (x # xs)" "l_price l' = l_price l" by blast
  have rem': "qty (o_remaining ?ord') = qty (o_remaining ord) - qty f"
    using f r by (simp add: i64_id in_i64_def)
  have ok': "order_ok ?ord'" using ord(1) rem' f by (auto simp: order_ok_def domain_defs)
  have "book_rel (b\<lparr>id_index := (id_index b)(x \<mapsto> ?ord'), levels := (levels b)(ptr \<mapsto> l')\<rparr>)
      (set_queue s p (x # xs) Q)"
  proof (rule book_rel_set_level [OF rel m l'(1)])
    show "order_at ((id_index b)(x \<mapsto> ?ord')) s p y" if "y \<in> set (x # xs)" for y
      using that book_rel_orderD [OF rel, of y s p] q ok' ord(2-4) by (auto simp: order_at_def is_buy_def)
    show "((id_index b)(x \<mapsto> ?ord')) y = id_index b y" if "y \<notin> set (Q s p)" for y
      using that q by auto
  qed (use q l(2) l'(2) in auto)
  then have "book_rel (b\<lparr>id_index := (id_index b)(x \<mapsto> ?ord'), levels := (levels b)(ptr \<mapsto> l')\<rparr>) Q"
    using q by (simp add: fun_upd_idem)
  then show ?thesis using x ord m l rf by (simp add: OrderBook_fill_def level_at_def Let_def)
qed

lemma OrderBook_fill_full:
  assumes rel: "book_rel b Q" and env: "freed_price_intact env" and q: "Q s p = x # xs"
    and x: "id_index b x = Some ord" and f: "qty (o_remaining ord) \<le> qty f"
  shows "\<exists>b'. OrderBook_fill env x f b = Some (False, b') \<and> book_rel b' (set_queue s p xs Q) \<and>
    id_index b' x = None \<and> (\<forall>y. y \<noteq> x \<longrightarrow> map_option strip (id_index b' y) = map_option strip (id_index b y)) \<and>
    ladder s b' = (if xs = [] then omap_erase p (ladder s b) else ladder s b) \<and>
    ladder (\<not> s) b' = ladder (\<not> s) b \<and> instrument b' = instrument b"
proof -
  have at: "order_at (id_index b) s p x" using book_rel_orderD [OF rel, of x s p] q by simp
  with x have ord: "order_ok ord" "is_buy ord = s" "o_price ord = p" by (auto simp: order_at_def)
  note r = order_ok_rem [OF ord(1)]
  from q have "Q s p \<noteq> []" by simp
  from book_rel_queueD [OF rel this] q obtain ptr l where
    m: "map_of (ladder s b) p = Some ptr" and st: "level_storage b p = Some ptr" and
    l: "levels b ptr = Some l" "l_price l = p" "level_inv (id_index b) l (x # xs)" by auto
  from reduce_front_full [OF l(3) x r(1) f r(2)] obtain h1 l1 where
    rf: "reduce_front f (id_index b, l) = Some ((h1, l1),
        \<lparr>ff_qty = o_remaining ord, ff_filled = Some x, ff_consumed = True\<rparr>)" and
    l1: "level_inv h1 l1 xs" "l_price l1 = l_price l" and
    h1: "\<And>y. y \<noteq> x \<Longrightarrow> map_option strip (h1 y) = map_option strip (id_index b y)"
      "\<And>y. y \<notin> set (x # xs) \<Longrightarrow> h1 y = id_index b y" by blast
  have d: "x \<notin> set xs" using l(3) by (simp add: level_inv_def)
  let ?b2 = "b\<lparr>levels := (levels b)(ptr \<mapsto> l1), id_index := h1(x := None)\<rparr>"
  let ?b' = "if order_count l1 = 0 then destroy_level p s ?b2 else ?b2"
  have step: "OrderBook_fill env x f b = Some (False, ?b')"
    using x ord m l rf env by (simp add: OrderBook_fill_def level_at_def Let_def freed_price_intact_def)
  have "book_rel ?b' (set_queue s p xs Q)"
  proof (cases "xs = []")
    case True
    have "book_rel (destroy_level p s (b\<lparr>id_index := h1(x := None), levels := (levels b)(ptr \<mapsto> l1)\<rparr>))
        (set_queue s p [] Q)"
      by (rule book_rel_free_level [OF rel m]) (use h1(2) q True in auto)
    then show ?thesis using True level_inv_count_0 [OF l1(1)] by simp
  next
    case False
    have "level_inv (h1(x := None)) l1 xs"
      using l1(1) d by simp
    then have "book_rel (b\<lparr>id_index := h1(x := None), levels := (levels b)(ptr \<mapsto> l1)\<rparr>) (set_queue s p xs Q)"
    proof (rule book_rel_set_level [OF rel m])
      show "order_at (h1(x := None)) s p y" if "y \<in> set xs" for y
      proof -
        from that d have "y \<noteq> x" by auto
        then show ?thesis
          using that q h1(1) [of y] book_rel_orderD [OF rel, of y s p] order_at_same_data [of h1 y "id_index b" s p]
            order_at_cong [of "h1(x := None)" y h1 s p] by simp
      qed
    qed (use False l l1 q h1(2) in auto)
    then show ?thesis using False level_inv_count_0 [OF l1(1)] by simp
  qed
  moreover have "ladder s ?b' = (if xs = [] then omap_erase p (ladder s b) else ladder s b)"
    "ladder (\<not> s) ?b' = ladder (\<not> s) b"
    using level_inv_count_0 [OF l1(1)] st by (cases s; simp add: destroy_level_def Let_def)+
  ultimately show ?thesis using step h1(1) by auto
qed

subsection \<open>Reduce and modify\<close>

lemma order_ok_reduced:
  assumes "order_ok ord" "0 < qty n" "qty n < qty (o_remaining ord)"
  shows "order_ok (reduced n ord)" "order_ok (reduced n ord\<lparr>o_quantity := m\<rparr>)"
  using assms by (auto simp: order_ok_def reduced_def domain_defs)

lemma reduced_fields [simp]:
  "o_id (reduced n ord) = o_id ord" "is_buy (reduced n ord) = is_buy ord" "o_price (reduced n ord) = o_price ord"
  "list_node (reduced n ord) = list_node ord" "o_remaining (reduced n ord) = n"
  by (simp_all add: reduced_def is_buy_def)

lemma reduced_quantity:
  "reduced n ord\<lparr>o_quantity := m\<rparr> =
   ord\<lparr>o_remaining := n, o_quantity := m,
       o_status := if o_status ord = StatusNew then StatusPartiallyFilled else o_status ord\<rparr>"
  by (simp add: reduced_def)

lemma OrderBook_reduce_rel:
  assumes rel: "book_rel b Q" and x: "id_index b x = Some ord" and n: "0 < qty n" "qty n < qty (o_remaining ord)"
  shows "\<exists>b'. OrderBook_reduce x n b = Some (True, b') \<and> book_rel b' Q \<and>
    id_index b' = (id_index b)(x \<mapsto> reduced n ord) \<and> instrument b' = instrument b"
proof -
  note ok = book_rel_index_ok [OF rel x]
  have "qty (o_remaining ord - n) = i64 (qty (o_remaining ord) - qty (o_remaining (reduced n ord)))"
    by simp
  from change_in_place_rel [OF rel x order_ok_reduced(1) [OF ok(1) n] _ _ _ _ this] ok(2)
  obtain ptr l where "level_at (o_price ord) (is_buy ord) b = Some (ptr, l)"
    "book_rel (b\<lparr>id_index := (id_index b)(x \<mapsto> reduced n ord),
        levels := (levels b)(ptr \<mapsto> sub_from_total (o_remaining ord - n) l)\<rparr>) Q" by auto
  with x n order_ok_active [OF ok(1)] show ?thesis
    by (simp add: OrderBook_reduce_def Let_def reduced_def)
qed

lemma OrderBook_modify_reduce_rel:
  assumes rel: "book_rel b Q" and x: "id_index b x = Some ord" and n: "Quantity_is_valid n" "qty n < qty (o_remaining ord)"
  shows "\<exists>b'. OrderBook_modify x n (o_price ord) b = Some (Modified, b') \<and> book_rel b' Q \<and>
    id_index b' = (id_index b)(x \<mapsto> reduced n ord\<lparr>o_quantity := o_quantity ord - (o_remaining ord - n)\<rparr>) \<and>
    instrument b' = instrument b"
proof -
  note ok = book_rel_index_ok [OF rel x]
  let ?ord' = "reduced n ord\<lparr>o_quantity := o_quantity ord - (o_remaining ord - n)\<rparr>"
  have "qty (o_remaining ord - n) = i64 (qty (o_remaining ord) - qty (o_remaining ?ord'))" by simp
  from change_in_place_rel [OF rel x order_ok_reduced(2) [OF ok(1) Quantity_is_valid_pos [OF n(1)] n(2)] _ _ _ _ this] ok(2)
  obtain ptr l where "level_at (o_price ord) (is_buy ord) b = Some (ptr, l)"
    "book_rel (b\<lparr>id_index := (id_index b)(x \<mapsto> ?ord'),
        levels := (levels b)(ptr \<mapsto> sub_from_total (o_remaining ord - n) l)\<rparr>) Q" by (auto simp: is_buy_def reduced_def)
  with x n order_ok_active [OF ok(1)] ok(1) show ?thesis
    by (auto simp: OrderBook_modify_def Let_def reduced_quantity order_ok_def is_limit_is_market)
qed

lemma OrderBook_modify_replace_rel:
  assumes rel: "book_rel b Q" and x: "id_index b x = Some ord"
    and n: "Quantity_is_valid n" and p: "Price_is_valid p"
    and change: "p \<noteq> o_price ord \<or> qty (o_remaining ord) < qty n"
    and other: "Q (\<not> is_buy ord) p = []"
  shows "\<exists>b'. OrderBook_modify x n p b = Some (Replaced, b') \<and>
    book_rel b' (let Q1 = set_queue (is_buy ord) (o_price ord) (remove1 x (Q (is_buy ord) (o_price ord))) Q
                 in set_queue (is_buy ord) p (Q1 (is_buy ord) p @ [x]) Q1) \<and>
    same_data ((id_index b)(x \<mapsto> replaced n p ord)) (id_index b') \<and> instrument b' = instrument b"
proof -
  note ok = book_rel_index_ok [OF rel x]
  let ?s = "is_buy ord"
  let ?Q1 = "set_queue ?s (o_price ord) (remove1 x (Q ?s (o_price ord))) Q"
  from remove_from_level_rel [OF rel x] obtain b1 where
    rm: "remove_from_level x (o_price ord) ?s b = Some b1" and rel1: "book_rel (without x b1) ?Q1" and
    x1: "id_index b1 x = Some (ord\<lparr>list_node := null_node\<rparr>)" and sd: "same_data (id_index b) (id_index b1)" and
    i1: "instrument b1 = instrument b" by blast
  let ?ord2 = "replaced n p (ord\<lparr>list_node := null_node\<rparr>)"
  let ?b2 = "b1\<lparr>id_index := (id_index b1)(x \<mapsto> ?ord2)\<rparr>"
  have w: "without x ?b2 = without x b1" by simp
  have ok2: "order_ok ?ord2" "o_id ?ord2 = x" "is_buy ?ord2 = ?s" "o_price ?ord2 = p"
    using ok n p by (auto simp: order_ok_def replaced_def domain_defs)
  have "?Q1 (\<not> ?s) p = []" using other by simp
  from append_to_level_rel [where x = x and b = ?b2 and Q = ?Q1 and ord = ?ord2 and s = ?s and p = p] rel1 w ok2 this obtain b3 where
    app: "append_to_level x p ?s ?b2 = Some b3" and rel3: "book_rel b3 (set_queue ?s p (?Q1 ?s p @ [x]) ?Q1)" and
    sd3: "same_data ((id_index b1)(x \<mapsto> ?ord2)) (id_index b3)" "instrument b3 = instrument b1" by auto
  have "same_data ((id_index b)(x \<mapsto> replaced n p ord)) (id_index b3)"
    using sd sd3(1) by (simp add: same_data_def replaced_def strip_def)
  moreover have "OrderBook_modify x n p b = Some (Replaced, b3)"
    using x n p change ok(1) order_ok_active [OF ok(1)] rm x1 app
    by (auto simp: OrderBook_modify_def Let_def replaced_def order_ok_def is_limit_is_market)
  ultimately show ?thesis using rel3 i1 sd3(2) by (simp add: Let_def)
qed

section \<open>The book refines the specification\<close>

lemma abs_bookI:
  assumes "book_rel b' Q" "\<And>x. map_option strip (id_index b' x) = R x"
  shows "abs_book b' = \<lparr>aqueue = Q, aorders = R\<rparr>"
  using assms book_rel_queues [OF assms(1)] by (simp add: abs_book_def)

lemma abs_orders: "aorders (abs_book b) x = map_option strip (id_index b x)"
  by (simp add: abs_book_def)

lemma strip_simps [simp]:
  "o_id (strip ord) = o_id ord" "is_buy (strip ord) = is_buy ord" "o_price (strip ord) = o_price ord"
  "o_remaining (strip ord) = o_remaining ord" "o_quantity (strip ord) = o_quantity ord"
  "order_ok (strip ord) = order_ok ord"
  by (simp_all add: strip_def is_buy_def order_ok_def domain_defs)

lemma strip_reduced [simp]:
  "strip (reduced n ord) = reduced n (strip ord)"
  "strip (ord\<lparr>o_quantity := m\<rparr>) = (strip ord)\<lparr>o_quantity := m\<rparr>"
  "strip (replaced n p ord) = replaced n p (strip ord)"
  by (simp_all add: strip_def reduced_def replaced_def)

lemma insert_simulation:
  assumes inv: "book_inv b" and ok: "is_open ord" "queues b (\<not> is_buy ord) (o_price ord) = []"
  shows "\<exists>b'. book_step env (InsertOrder ord) b = Some b' \<and> book_inv b' \<and>
    abs_book b' = spec_step (InsertOrder ord) (abs_book b)"
proof (cases "order_ok ord \<and> id_index b (o_id ord) = None")
  case True
  from inv have rel: "book_rel b (queues b)" by (simp add: book_inv_def)
  from OrderBook_insert_rel [OF rel _ _ ok(2)] True obtain b' where
    b': "OrderBook_insert (Some ord) b = Some (True, b')" "same_data ((id_index b)(o_id ord \<mapsto> ord)) (id_index b')" and
    rel': "book_rel b' (set_queue (is_buy ord) (o_price ord) (queues b (is_buy ord) (o_price ord) @ [o_id ord]) (queues b))"
    by auto
  have "abs_book b' = enqueue ord (abs_book b)"
    by (subst abs_bookI [OF rel', of "(aorders (abs_book b))(o_id ord \<mapsto> strip ord)"])
      (use b'(2) in \<open>auto simp: enqueue_def abs_book_def same_data_def\<close>)
  with True b' rel' show ?thesis by (auto simp: book_step_def spec_step_def abs_orders book_inv_iff)
next
  case False
  with ok(1) have "OrderBook_insert (Some ord) b = Some (False, b)"
    by (auto simp: OrderBook_insert_def order_ok_def)
  with False inv show ?thesis by (auto simp: book_step_def spec_step_def abs_orders)
qed

lemma cancel_simulation:
  assumes inv: "book_inv b"
  shows "\<exists>b'. book_step env (CancelOrder x) b = Some b' \<and> book_inv b' \<and>
    abs_book b' = spec_step (CancelOrder x) (abs_book b)"
proof (cases "id_index b x")
  case None
  with inv show ?thesis by (simp add: book_step_def spec_step_def abs_orders OrderBook_cancel_absent)
next
  case (Some ord)
  from inv have rel: "book_rel b (queues b)" by (simp add: book_inv_def)
  from OrderBook_cancel_rel [OF rel Some] obtain b' where
    b': "OrderBook_cancel x b = Some (True, b')" "same_data ((id_index b)(x := None)) (id_index b')" and
    rel': "book_rel b' (set_queue (is_buy ord) (o_price ord) (remove1 x (queues b (is_buy ord) (o_price ord))) (queues b))"
    by blast
  have "abs_book b' = dequeue (strip ord) (abs_book b)"
    by (subst abs_bookI [OF rel', of "(aorders (abs_book b))(x := None)"])
      (use b'(2) book_rel_index_ok(2) [OF rel Some] in \<open>auto simp: dequeue_def abs_book_def same_data_def\<close>)
  with Some b' rel' show ?thesis by (auto simp: book_step_def spec_step_def abs_orders book_inv_iff)
qed

lemma reduce_simulation:
  assumes inv: "book_inv b"
  shows "\<exists>b'. book_step env (ReduceOrder x n) b = Some b' \<and> book_inv b' \<and>
    abs_book b' = spec_step (ReduceOrder x n) (abs_book b)"
proof (cases "\<exists>ord. id_index b x = Some ord \<and> 0 < qty n \<and> qty n < qty (o_remaining ord)")
  case True
  then obtain ord where x: "id_index b x = Some ord" and n: "0 < qty n" "qty n < qty (o_remaining ord)" by blast
  from inv have rel: "book_rel b (queues b)" by (simp add: book_inv_def)
  from OrderBook_reduce_rel [OF rel x n] obtain b' where
    b': "OrderBook_reduce x n b = Some (True, b')" "id_index b' = (id_index b)(x \<mapsto> reduced n ord)" and
    rel': "book_rel b' (queues b)" by blast
  have "abs_book b' = (abs_book b)\<lparr>aorders := (aorders (abs_book b))(x \<mapsto> reduced n (strip ord))\<rparr>"
    by (subst abs_bookI [OF rel', of "(aorders (abs_book b))(x \<mapsto> reduced n (strip ord))"])
      (use b'(2) in \<open>auto simp: abs_book_def\<close>)
  with x n b' rel' show ?thesis by (auto simp: book_step_def spec_step_def abs_orders book_inv_iff)
next
  case False
  then have "OrderBook_reduce x n b = Some (False, b)"
    by (auto simp: OrderBook_reduce_def not_less split: option.splits)
  with False inv show ?thesis by (auto simp: book_step_def spec_step_def abs_orders split: option.splits)
qed

lemma modify_simulation:
  assumes inv: "book_inv b" and ok: "\<And>ord. id_index b x = Some ord \<Longrightarrow> queues b (\<not> is_buy ord) p = []"
  shows "\<exists>b'. book_step env (ModifyOrder x n p) b = Some b' \<and> book_inv b' \<and>
    abs_book b' = spec_step (ModifyOrder x n p) (abs_book b)"
proof (cases "id_index b x")
  case None
  with inv show ?thesis by (simp add: book_step_def spec_step_def abs_orders OrderBook_modify_def)
next
  case (Some ord)
  from inv have rel: "book_rel b (queues b)" by (simp add: book_inv_def)
  note ook = book_rel_index_ok [OF rel Some]
  have basic: "\<not> is_market ord" "o_status ord \<noteq> StatusFilled" "o_status ord \<noteq> StatusCancelled"
    using ook(1) order_ok_active [OF ook(1)] by (auto simp: order_ok_def is_limit_is_market)
  consider (noop) "\<not> Quantity_is_valid n \<or> \<not> Price_is_valid p \<or> (p = o_price ord \<and> n = o_remaining ord)"
    | (reduce) "Quantity_is_valid n" "p = o_price ord" "qty n < qty (o_remaining ord)"
    | (replace) "Quantity_is_valid n" "Price_is_valid p" "p \<noteq> o_price ord \<or> qty (o_remaining ord) < qty n"
    by (metis Quantity.expand linorder_neqE)
  then show ?thesis
  proof cases
    case noop
    then have "map_option snd (OrderBook_modify x n p b) = Some b"
      using Some basic by (auto simp: OrderBook_modify_def)
    with noop Some inv show ?thesis by (auto simp: book_step_def spec_step_def abs_orders)
  next
    case reduce
    let ?ord' = "reduced n ord\<lparr>o_quantity := o_quantity ord - (o_remaining ord - n)\<rparr>"
    from OrderBook_modify_reduce_rel [OF rel Some reduce(1,3)] obtain b' where
      b': "OrderBook_modify x n (o_price ord) b = Some (Modified, b')" "id_index b' = (id_index b)(x \<mapsto> ?ord')" and
      rel': "book_rel b' (queues b)" by blast
    have "abs_book b' = (abs_book b)\<lparr>aorders := (aorders (abs_book b))(x \<mapsto> strip ?ord')\<rparr>"
      by (subst abs_bookI [OF rel', of "(aorders (abs_book b))(x \<mapsto> strip ?ord')"])
        (use b'(2) in \<open>auto simp: abs_book_def\<close>)
    moreover have "Price_is_valid p" using ook(1) reduce(2) by (simp add: order_ok_def)
    ultimately show ?thesis using Some reduce b' rel'
      by (auto simp: book_step_def spec_step_def abs_orders book_inv_iff)
  next
    case replace
    let ?s = "is_buy ord"
    let ?Q1 = "set_queue ?s (o_price ord) (remove1 x (queues b ?s (o_price ord))) (queues b)"
    from OrderBook_modify_replace_rel [OF rel Some replace ok [OF Some]] obtain b' where
      b': "OrderBook_modify x n p b = Some (Replaced, b')" "same_data ((id_index b)(x \<mapsto> replaced n p ord)) (id_index b')" and
      rel': "book_rel b' (set_queue ?s p (?Q1 ?s p @ [x]) ?Q1)" by (auto simp: Let_def)
    have "abs_book b' = enqueue (replaced n p (strip ord)) (dequeue (strip ord) (abs_book b))"
      by (subst abs_bookI [OF rel', of "(aorders (abs_book b))(x \<mapsto> replaced n p (strip ord))"])
        (use b'(2) ook(2) in \<open>auto simp: enqueue_def dequeue_def abs_book_def same_data_def replaced_def is_buy_def strip_def\<close>)
    with replace Some b' rel' show ?thesis
      by (auto simp: book_step_def spec_step_def abs_orders book_inv_iff)
  qed
qed

lemma fill_simulation:
  assumes inv: "book_inv b" and env: "freed_price_intact env"
    and ok: "\<And>ord. id_index b x = Some ord \<Longrightarrow> \<exists>ys. queues b (is_buy ord) (o_price ord) = x # ys"
  shows "\<exists>b'. book_step env (FillOrder x f) b = Some b' \<and> book_inv b' \<and>
    abs_book b' = spec_step (FillOrder x f) (abs_book b)"
proof (cases "id_index b x")
  case None
  with inv show ?thesis by (simp add: book_step_def spec_step_def abs_orders OrderBook_fill_def)
next
  case (Some ord)
  from inv have rel: "book_rel b (queues b)" by (simp add: book_inv_def)
  note ook = book_rel_index_ok [OF rel Some]
  let ?s = "is_buy ord" and ?p = "o_price ord"
  from ok [OF Some] obtain ys where q: "queues b ?s ?p = x # ys" by blast
  then have "queues b ?s ?p \<noteq> []" by simp
  from book_rel_queueD [OF rel this] q obtain ptr l where
    m: "map_of (ladder ?s b) ?p = Some ptr" and l: "levels b ptr = Some l" "level_inv (id_index b) l (x # ys)" by auto
  consider "qty f \<le> 0" | "0 < qty f" "qty f < qty (o_remaining ord)" | "0 < qty f" "qty (o_remaining ord) \<le> qty f"
    by linarith
  then show ?thesis
  proof cases
    case 1
    have "b\<lparr>levels := (levels b)(ptr \<mapsto> l)\<rparr> = b" using l(1) by (simp add: map_upd_triv)
    then have "OrderBook_fill env x f b = Some (True, b)"
      using 1 Some m l level_inv_head_order [OF l(2) Some]
      by (simp add: OrderBook_fill_def level_at_def reduce_front_def Let_def)
    with 1 Some inv show ?thesis by (simp add: book_step_def spec_step_def abs_orders)
  next
    case 2
    let ?ord' = "reduced (o_remaining ord - f) ord"
    from OrderBook_fill_partial [OF rel q Some 2, of env] obtain b' where
      b': "OrderBook_fill env x f b = Some (True, b')" "id_index b' = (id_index b)(x \<mapsto> ?ord')" and
      rel': "book_rel b' (queues b)" unfolding reduced_def by blast
    have "abs_book b' = (abs_book b)\<lparr>aorders := (aorders (abs_book b))(x \<mapsto> strip ?ord')\<rparr>"
      by (subst abs_bookI [OF rel', of "(aorders (abs_book b))(x \<mapsto> strip ?ord')"])
        (use b'(2) in \<open>auto simp: abs_book_def\<close>)
    with 2 Some b' rel' show ?thesis by (auto simp: book_step_def spec_step_def abs_orders book_inv_iff)
  next
    case 3
    from OrderBook_fill_full [OF rel env q Some 3(2)] obtain b' where
      b': "OrderBook_fill env x f b = Some (False, b')" "id_index b' x = None"
        "\<forall>y. y \<noteq> x \<longrightarrow> map_option strip (id_index b' y) = map_option strip (id_index b y)" and
      rel': "book_rel b' (set_queue ?s ?p ys (queues b))" by auto
    have "abs_book b' = dequeue (strip ord) (abs_book b)"
      by (subst abs_bookI [OF rel', of "(aorders (abs_book b))(x := None)"])
        (use b'(2,3) ook(2) q in \<open>auto simp: dequeue_def abs_book_def\<close>)
    with 3 Some b' rel' show ?thesis by (auto simp: book_step_def spec_step_def abs_orders book_inv_iff)
  qed
qed

interpretation book: refinement "book_step env" spec_step abs_book "\<lambda>c b. freed_price_intact env \<and> book_cmd_ok c b" book_inv
  for env
proof unfold_locales
  fix b c
  assume inv: "book_inv b" and ok: "freed_price_intact env \<and> book_cmd_ok c b"
  show "\<exists>b'. book_step env c b = Some b' \<and> book_inv b' \<and> abs_book b' = spec_step c (abs_book b)"
  proof (cases c)
    case (FillOrder x f)
    with ok inv show ?thesis
      by (intro fill_simulation [of b env x f, folded FillOrder])
        (auto simp: book_cmd_ok_def split: list.splits)
  next
    case (ModifyOrder x n p)
    with ok inv show ?thesis
      by (intro modify_simulation [of b x p env n, folded ModifyOrder]) (auto simp: book_cmd_ok_def)
  qed (use ok inv insert_simulation cancel_simulation reduce_simulation in \<open>auto simp: book_cmd_ok_def\<close>)
qed
end
