(* ===== verification/Risk.thy ===== *)
theory Risk
  imports Domain "HOL-Library.Log_Nat"
begin

text \<open>
  Pre-trade risk checks: \<^verbatim>\<open>include/tt/risk/risk.hpp\<close> and
  \<^verbatim>\<open>src/risk/risk.cpp\<close>. A gate is the list of its checks; the virtual
  \<^verbatim>\<open>evaluate\<close> is a case distinction on the kind of check. Only the rate limiter has
  state (\<^verbatim>\<open>mutable\<close>), so evaluation returns the check as it is afterwards. Doubles
  are rationals with every operation rounded to 53 binary digits, ties to even; the values that
  occur are far from overflow and underflow.
\<close>

section \<open>Double arithmetic\<close>

definition binary_exponent :: "rat \<Rightarrow> int" where
  "binary_exponent x =
     (let (n, d) = quotient_of x; k = bitlen n - bitlen d
      in if 2 powi k \<le> x then k else k - 1)"

definition round_half_even :: "rat \<Rightarrow> int" where
  "round_half_even x =
     (let f = \<lfloor>x\<rfloor>; r = x - of_int f
      in if r < 1 / 2 then f else if r > 1 / 2 then f + 1 else if even f then f else f + 1)"

definition double :: "rat \<Rightarrow> rat" where
  "double x =
     (if x = 0 then 0
      else let u = 2 powi (binary_exponent \<bar>x\<bar> - 52)
           in sgn x * of_int (round_half_even (\<bar>x\<bar> / u)) * u)"

section \<open>Decisions and checks\<close>

datatype RiskRejectCode =
  NoReject | NullOrder | MaxQuantity | MaxNotional | PriceOutOfCollar | RateLimited
  | SelfTradePrevent | InvalidInput

record RiskDecision =
  rd_code :: RiskRejectCode
  rd_reason :: string

definition RiskDecision_ok :: "RiskDecision \<Rightarrow> bool" where
  "RiskDecision_ok d \<longleftrightarrow> rd_code d = NoReject"

definition risk_accept :: RiskDecision where
  "risk_accept = \<lparr>rd_code = NoReject, rd_reason = ''''\<rparr>"

definition risk_reject :: "RiskRejectCode \<Rightarrow> string \<Rightarrow> RiskDecision" where
  "risk_reject c r = \<lparr>rd_code = c, rd_reason = r\<rparr>"

record BucketState =
  tokens :: rat
  last_ns :: int

definition BucketState_init :: BucketState where
  "BucketState_init = \<lparr>tokens = 0, last_ns = 0\<rparr>"

record RateLimiter =
  burst :: nat
  refill_ns :: int
  states :: "TraderId \<rightharpoonup> BucketState"

definition new_RateLimiter :: "nat \<Rightarrow> rat \<Rightarrow> RateLimiter" where
  "new_RateLimiter n refill_per_second =
     \<lparr>burst = n,
      refill_ns = \<lfloor>double (10 ^ 9 / max (double (1 / 10 ^ 6)) refill_per_second)\<rfloor>,
      states = Map.empty\<rparr>"

datatype RiskCheck =
    MaxOrderQuantityCheck Quantity
  | MaxNotionalCheck int
  | PriceCollarCheck Price Price
  | RateLimitCheck RateLimiter
  | AlwaysAllow

definition MaxOrderQuantity_evaluate :: "Quantity \<Rightarrow> Order \<Rightarrow> RiskDecision" where
  "MaxOrderQuantity_evaluate m ord =
     (if \<not> Quantity_is_valid (o_quantity ord) then risk_reject InvalidInput ''invalid quantity''
      else if qty (o_quantity ord) > qty m then risk_reject MaxQuantity ''quantity exceeds maximum''
      else risk_accept)"

text \<open>The product is taken in 128-bit arithmetic.\<close>

definition i128 :: "int \<Rightarrow> int" where "i128 x = (x + 2 ^ 127) mod 2 ^ 128 - 2 ^ 127"

definition MaxNotional_evaluate :: "int \<Rightarrow> Order \<Rightarrow> RiskDecision" where
  "MaxNotional_evaluate max_ticks ord =
     (if \<not> Quantity_is_valid (o_quantity ord) then risk_reject InvalidInput ''invalid quantity''
      else if \<not> Price_is_valid (o_price ord) then risk_reject InvalidInput ''invalid price''
      else if i128 (ticks (o_price ord) * qty (o_quantity ord)) > max_ticks
      then risk_reject MaxNotional ''notional exceeds maximum''
      else risk_accept)"

definition PriceCollar_evaluate :: "Price \<Rightarrow> Price \<Rightarrow> Order \<Rightarrow> RiskDecision" where
  "PriceCollar_evaluate lower upper ord =
     (if \<not> Price_is_valid (o_price ord) then risk_accept
      else if ticks lower > 0 \<and> ticks (o_price ord) < ticks lower
      then risk_reject PriceOutOfCollar ''price below lower collar''
      else if ticks upper > 0 \<and> ticks (o_price ord) > ticks upper
      then risk_reject PriceOutOfCollar ''price above upper collar''
      else risk_accept)"

text \<open>
  The bucket of a trader when its order arrives at \<open>now\<close>. A refill interval of zero
  nanoseconds makes the quotient infinite, and the bucket full.
\<close>

definition refill :: "RateLimiter \<Rightarrow> int \<Rightarrow> BucketState \<Rightarrow> BucketState" where
  "refill rl now s =
     (if last_ns s = 0 then \<lparr>tokens = double (of_nat (burst rl)), last_ns = now\<rparr>
      else let elapsed = i64 (now - last_ns s)
           in if elapsed > 0
              then let full = double (of_nat (burst rl));
                       add = double (double (of_int elapsed) / double (of_int (refill_ns rl)))
                   in \<lparr>tokens = if refill_ns rl = 0 then full else min (double (tokens s + add)) full,
                       last_ns = now\<rparr>
              else s)"

definition RateLimit_evaluate :: "int \<Rightarrow> Order \<Rightarrow> RateLimiter \<Rightarrow> RiskDecision \<times> RateLimiter" where
  "RateLimit_evaluate now ord rl =
     (let t = o_trader_id ord;
          s = refill rl now (case states rl t of None \<Rightarrow> BucketState_init | Some s \<Rightarrow> s)
      in if tokens s < 1
         then (risk_reject RateLimited ''rate limit exceeded'', rl\<lparr>states := (states rl)(t \<mapsto> s)\<rparr>)
         else (risk_accept,
               rl\<lparr>states := (states rl)(t \<mapsto> s\<lparr>tokens := double (tokens s - 1)\<rparr>)\<rparr>))"

fun RiskCheck_evaluate :: "int \<Rightarrow> Order \<Rightarrow> RiskCheck \<Rightarrow> RiskDecision \<times> RiskCheck" where
  "RiskCheck_evaluate now ord (MaxOrderQuantityCheck m) =
     (MaxOrderQuantity_evaluate m ord, MaxOrderQuantityCheck m)"
| "RiskCheck_evaluate now ord (MaxNotionalCheck m) = (MaxNotional_evaluate m ord, MaxNotionalCheck m)"
| "RiskCheck_evaluate now ord (PriceCollarCheck lo up) =
     (PriceCollar_evaluate lo up ord, PriceCollarCheck lo up)"
| "RiskCheck_evaluate now ord (RateLimitCheck rl) =
     (let (d, rl') = RateLimit_evaluate now ord rl in (d, RateLimitCheck rl'))"
| "RiskCheck_evaluate now ord AlwaysAllow = (risk_accept, AlwaysAllow)"

section \<open>The gate\<close>

type_synonym RiskGate = "RiskCheck list"

definition add_check :: "RiskCheck \<Rightarrow> RiskGate \<Rightarrow> RiskGate" where "add_check c g = g @ [c]"
definition clear_checks :: "RiskGate \<Rightarrow> RiskGate" where "clear_checks g = []"
definition check_count :: "RiskGate \<Rightarrow> nat" where "check_count g = length g"

text \<open>Each check that looks at the clock reads it anew: \<open>nows\<close> are the successive readings.\<close>

fun RiskGate_evaluate :: "(nat \<Rightarrow> int) \<Rightarrow> Order \<Rightarrow> RiskGate \<Rightarrow> RiskDecision \<times> RiskGate" where
  "RiskGate_evaluate nows ord [] = (risk_accept, [])"
| "RiskGate_evaluate nows ord (c # cs) =
     (let (d, c') = RiskCheck_evaluate (nows 0) ord c
      in if \<not> RiskDecision_ok d then (d, c' # cs)
         else let (d', cs') = RiskGate_evaluate (\<lambda>i. nows (Suc i)) ord cs in (d', c' # cs'))"

text \<open>A sequence of orders through one limiter, each with the clock at its arrival.\<close>

fun RateLimit_run :: "(int \<times> Order) list \<Rightarrow> RateLimiter \<Rightarrow> RiskDecision list \<times> RateLimiter" where
  "RateLimit_run [] rl = ([], rl)"
| "RateLimit_run ((now, ord) # os) rl =
     (let (d, rl1) = RateLimit_evaluate now ord rl; (ds, rl2) = RateLimit_run os rl1
      in (d # ds, rl2))"

text \<open>
  The buckets of a limiter whose burst is exactly representable: between zero and the burst.
\<close>

definition bucket_ok :: "RateLimiter \<Rightarrow> BucketState \<Rightarrow> bool" where
  "bucket_ok rl s \<longleftrightarrow> 0 \<le> tokens s \<and> tokens s \<le> of_nat (burst rl)"

definition limiter_ok :: "RateLimiter \<Rightarrow> bool" where
  "limiter_ok rl \<longleftrightarrow> burst rl \<le> 2 ^ 53 \<and> 0 \<le> refill_ns rl \<and>
     (\<forall>t s. states rl t = Some s \<longrightarrow> bucket_ok rl s)"

section \<open>Rounding\<close>

lemma binary_exponent_le:
  assumes "0 < x" shows "2 powi binary_exponent x \<le> x"
proof -
  obtain n d where q: "quotient_of x = (n, d)" by fastforce
  then have d: "0 < d" and x: "x = of_int n / of_int d"
    using quotient_of_denom_pos quotient_of_div by blast+
  with assms have n: "0 < n" by (simp add: zero_less_divide_iff)
  have "2 powi (bitlen n - 1) \<le> (of_int n :: rat)"
  proof -
    have "bitlen n - 1 \<ge> 0" using n bitlen_eq_zero_iff [of n] bitlen_nonneg [of n] by linarith
    then have "(2 :: rat) powi (bitlen n - 1) = of_int (2 ^ nat (bitlen n - 1))" by (simp add: power_int_def)
    with bitlen_bounds [OF n] show ?thesis by (metis of_int_le_iff)
  qed
  moreover have "of_int d \<le> (2 :: rat) powi bitlen d"
  proof -
    have "(2 :: rat) powi bitlen d = of_int (2 ^ nat (bitlen d))"
      using bitlen_nonneg [of d] by (simp add: power_int_def)
    with bitlen_bounds [OF d] show ?thesis by (metis of_int_le_iff order_less_imp_le)
  qed
  ultimately have "2 powi (bitlen n - 1) / 2 powi bitlen d \<le> x"
    using d n unfolding x by (intro frac_le) auto
  moreover have "(2 :: rat) powi (bitlen n - bitlen d - 1) = 2 powi (bitlen n - 1) / 2 powi bitlen d"
    by (simp flip: power_int_diff add: algebra_simps)
  ultimately show ?thesis by (simp add: binary_exponent_def q Let_def)
qed

lemma round_half_even_of_int [simp]: "round_half_even (of_int n) = n"
  by (simp add: round_half_even_def)

lemma round_half_even_le: "x \<le> of_int m \<Longrightarrow> round_half_even x \<le> m"
proof -
  assume x: "x \<le> of_int m"
  show ?thesis
  proof (cases "x = of_int m")
    case False
    with x have "\<lfloor>x\<rfloor> < m" by (simp add: floor_less_iff)
    then show ?thesis by (simp add: round_half_even_def Let_def)
  qed simp
qed

lemma round_half_even_nonneg: "0 \<le> x \<Longrightarrow> 0 \<le> round_half_even x"
  by (auto simp: round_half_even_def Let_def le_floor_iff intro: order_trans [of 0 "\<lfloor>x\<rfloor>"])

lemma double_0 [simp]: "double 0 = 0"
  by (simp add: double_def)

lemma double_nonneg: "0 \<le> x \<Longrightarrow> 0 \<le> double x"
  by (auto simp: double_def Let_def sgn_if intro!: mult_nonneg_nonneg round_half_even_nonneg)

text \<open>An integer of at most 53 bits is a whole number of units in the last place of anything below it.\<close>

lemma ulp_divides:
  assumes "0 < x" "x \<le> of_int n" "n \<le> 2 ^ 53"
  shows "\<exists>m. of_int n / 2 powi (binary_exponent x - 52) = (of_int m :: rat)"
proof (cases "binary_exponent x \<le> 52")
  case True
  have "(of_int n :: rat) / 2 powi (binary_exponent x - 52) = of_int (n * 2 ^ nat (52 - binary_exponent x))"
    using True by (simp add: power_int_def field_simps nat_diff_distrib)
  then show ?thesis by blast
next
  case False
  note e = binary_exponent_le [OF assms(1)]
  from False have "(2 :: rat) powi 53 \<le> 2 powi binary_exponent x" by (intro power_int_increasing) auto
  with e have "of_int (2 ^ 53) \<le> x" by simp
  then have x: "of_int (2 ^ 53) \<le> (of_int n :: rat)" using assms(2) by (rule order_trans)
  then have n: "n = 2 ^ 53" using assms(3) by (simp only: of_int_le_iff)
  have "binary_exponent x < 54"
  proof (rule ccontr)
    assume "\<not> binary_exponent x < 54"
    then have "(2 :: rat) powi 54 \<le> 2 powi binary_exponent x" by (intro power_int_increasing) auto
    with e assms(2) show False by (simp add: n)
  qed
  with False have "binary_exponent x = 53" by simp
  then show ?thesis by (intro exI [of _ "2 ^ 52"]) (simp add: n)
qed

lemma double_le:
  assumes "0 \<le> x" "x \<le> of_int n" "n \<le> 2 ^ 53"
  shows "double x \<le> of_int n"
proof (cases "x = 0")
  case False
  with assms have x: "0 < x" by simp
  let ?u = "2 powi (binary_exponent x - 52) :: rat"
  obtain m where m: "of_int n / ?u = of_int m" using ulp_divides [OF x assms(2,3)] by blast
  have "x / ?u \<le> of_int m" unfolding m [symmetric] using assms(2) by (simp add: divide_right_mono)
  then have "of_int (round_half_even (x / ?u)) * ?u \<le> of_int m * ?u"
    by (intro mult_right_mono) (simp_all add: round_half_even_le)
  also have "\<dots> = of_int n" by (simp flip: m)
  finally show ?thesis using x by (simp add: double_def Let_def)
qed (use assms in \<open>simp add: double_def\<close>)

lemma double_of_int:
  assumes "0 \<le> n" "n \<le> 2 ^ 53"
  shows "double (of_int n) = of_int n"
proof (cases "n = 0")
  case False
  with assms have x: "0 < (of_int n :: rat)" by simp
  let ?u = "2 powi (binary_exponent (of_int n) - 52) :: rat"
  obtain m where m: "of_int n / ?u = of_int m" using ulp_divides [OF x _ assms(2)] by blast
  then have "of_int m * ?u = of_int n" by (simp add: field_simps)
  with x m show ?thesis by (simp add: double_def)
qed (simp add: double_def)

section \<open>The rate limiter\<close>

lemma double_burst:
  "burst rl \<le> 2 ^ 53 \<Longrightarrow> double (of_nat (burst rl)) = of_nat (burst rl)"
  using double_of_int [of "int (burst rl)"] by simp

lemma refill_ok:
  assumes "limiter_ok rl" "bucket_ok rl s"
  shows "bucket_ok rl (refill rl now s)"
  using assms by (auto simp: limiter_ok_def bucket_ok_def refill_def Let_def double_burst double_nonneg)

lemma RateLimit_evaluate_ok:
  assumes ok: "limiter_ok rl"
  shows "limiter_ok (snd (RateLimit_evaluate now ord rl))"
proof -
  let ?old = "case states rl (o_trader_id ord) of None \<Rightarrow> BucketState_init | Some s \<Rightarrow> s"
  let ?s = "refill rl now ?old"
  have "bucket_ok rl ?old" using ok
    by (auto simp: limiter_ok_def bucket_ok_def BucketState_init_def split: option.splits)
  then have s: "bucket_ok rl ?s" by (rule refill_ok [OF ok])
  moreover have "bucket_ok rl (?s\<lparr>tokens := double (tokens ?s - 1)\<rparr>)" if "\<not> tokens ?s < 1"
  proof -
    have "double (tokens ?s - 1) \<le> of_int (int (burst rl))"
      using that s ok by (intro double_le) (auto simp: bucket_ok_def limiter_ok_def)
    with that show ?thesis by (simp add: bucket_ok_def double_nonneg)
  qed
  ultimately show ?thesis using ok
    by (auto simp: limiter_ok_def RateLimit_evaluate_def Let_def bucket_ok_def)
qed

lemma RateLimit_evaluate_same_instant:
  assumes "states rl (o_trader_id ord) = Some s" "last_ns s = now" "now \<noteq> 0" "tokens s = of_nat k" "k \<le> 2 ^ 53"
  shows "\<exists>d s'. RateLimit_evaluate now ord rl = (d, rl\<lparr>states := (states rl)(o_trader_id ord \<mapsto> s')\<rparr>) \<and>
    RiskDecision_ok d = (0 < k) \<and> last_ns s' = now \<and> tokens s' = of_nat (k - 1)"
proof -
  have r: "refill rl now s = s" using assms(2,3) by (simp add: refill_def i64_small)
  have "double (of_nat k - 1) = of_nat (k - 1)" if "0 < k"
    using double_of_int [of "int (k - 1)"] assms(5) that by (simp add: of_nat_diff)
  with assms r show ?thesis
    by (cases "k = 0")
      (auto simp: RateLimit_evaluate_def RiskDecision_ok_def risk_accept_def risk_reject_def Let_def)
qed

lemma RateLimit_burst_from:
  assumes "\<forall>o' \<in> set os. o_trader_id o' = t" "states rl t = Some s" "last_ns s = now" "now \<noteq> 0"
    "tokens s = of_nat k" "k \<le> 2 ^ 53"
  shows "map RiskDecision_ok (fst (RateLimit_run (map (Pair now) os) rl)) = map (\<lambda>i. i < k) [0..<length os]"
  using assms
proof (induction os arbitrary: rl s k)
  case (Cons o' os)
  have "states rl (o_trader_id o') = Some s" using Cons.prems by simp
  from RateLimit_evaluate_same_instant [OF this Cons.prems(3,4,5,6)] obtain d s' where
    e: "RateLimit_evaluate now o' rl = (d, rl\<lparr>states := (states rl)(o_trader_id o' \<mapsto> s')\<rparr>)"
      "RiskDecision_ok d = (0 < k)" "last_ns s' = now" "tokens s' = of_nat (k - 1)" by blast
  have "map RiskDecision_ok (fst (RateLimit_run (map (Pair now) os) (rl\<lparr>states := (states rl)(t \<mapsto> s')\<rparr>)))
    = map (\<lambda>i. i < k - 1) [0..<length os]"
    using Cons.prems e by (intro Cons.IH [of _ s']) auto
  with e Cons.prems(1) show ?case
    by (cases "k = 0") (auto simp: split_def Let_def map_upt_Suc less_diff_conv simp del: upt_Suc)
qed simp

lemma RateLimit_evaluate_new:
  assumes "states rl (o_trader_id ord) = None" "now \<noteq> 0" "burst rl \<le> 2 ^ 53"
  shows "RateLimit_evaluate now ord rl = RateLimit_evaluate now ord
    (rl\<lparr>states := (states rl)(o_trader_id ord \<mapsto> \<lparr>tokens = of_nat (burst rl), last_ns = now\<rparr>)\<rparr>)"
  using assms by (simp add: RateLimit_evaluate_def refill_def BucketState_init_def double_burst Let_def i64_small)

lemma RiskGate_evaluate_nth:
  "RiskGate_evaluate nows ord g =
     (let verdict = (\<lambda>i. RiskCheck_evaluate (nows i) ord (g ! i))
      in case find (\<lambda>i. \<not> RiskDecision_ok (fst (verdict i))) [0..<length g] of
           None \<Rightarrow> (risk_accept, map (\<lambda>i. snd (verdict i)) [0..<length g])
         | Some k \<Rightarrow> (fst (verdict k), map (\<lambda>i. snd (verdict i)) [0..<Suc k] @ drop (Suc k) g))"
proof (induction g arbitrary: nows)
  case (Cons c g)
  have "find (\<lambda>i. \<not> P i) [0..<length (c # g)] =
    (if \<not> P 0 then Some 0 else map_option Suc (find (\<lambda>i. \<not> P (Suc i)) [0..<length g]))" for P
    by (simp add: upt_conv_Cons find_map o_def flip: map_Suc_upt del: upt_Suc)
  with Cons show ?case
    by (auto simp: Let_def split_def map_upt_Suc simp del: upt_Suc split: option.splits)
qed simp


section \<open>Properties\<close>

text \<open>
  C19. A burst at one instant: of the orders a new trader sends within one clock reading, exactly
  the first \<open>burst\<close> are let through.
\<close>

theorem rate_limit_burst:
  assumes "\<forall>o' \<in> set os. o_trader_id o' = t" "states rl t = None" "now \<noteq> 0" "burst rl \<le> 2 ^ 53"
  shows "map RiskDecision_ok (fst (RateLimit_run (map (Pair now) os) rl)) =
    map (\<lambda>i. i < burst rl) [0..<length os]"
proof (cases os)
  case (Cons o' os')
  let ?rl = "rl\<lparr>states := (states rl)(t \<mapsto> \<lparr>tokens = of_nat (burst rl), last_ns = now\<rparr>)\<rparr>"
  have "RateLimit_run (map (Pair now) os) rl = RateLimit_run (map (Pair now) os) ?rl"
    using assms RateLimit_evaluate_new [of rl o' now] by (simp add: Cons)
  moreover have "map RiskDecision_ok (fst (RateLimit_run (map (Pair now) os) ?rl)) =
    map (\<lambda>i. i < burst rl) [0..<length os]"
    using assms by (intro RateLimit_burst_from [of _ t _ "\<lparr>tokens = of_nat (burst rl), last_ns = now\<rparr>"]) auto
  ultimately show ?thesis by simp
qed simp

theorem rate_limit_burst_witness:
  "map RiskDecision_ok (fst (RateLimit_run (map (Pair 7) (replicate 5 Order_init)) (new_RateLimiter 3 100))) =
     [True, True, True, False, False]"
  using rate_limit_burst [of "replicate 5 Order_init" 0 "new_RateLimiter 3 100" 7]
  by (simp add: Order_init_def new_RateLimiter_def upt_rec)

text \<open>
  Whatever the order of arrivals and clock readings, no bucket of a limiter leaves the range
  from zero to the burst.
\<close>

theorem rate_limit_bounded:
  assumes "limiter_ok rl"
  shows "limiter_ok (snd (RateLimit_run os rl))"
  using assms
proof (induction os arbitrary: rl)
  case (Cons no os)
  then show ?case using RateLimit_evaluate_ok [of rl "fst no" "snd no"]
    by (cases no) (auto simp: split_def Let_def)
qed simp

theorem rate_limit_bounded_witness:
  "limiter_ok (snd (RateLimit_run [(7, Order_init), (9, Order_init)] (new_RateLimiter 3 100)))"
  by (intro rate_limit_bounded) (simp add: limiter_ok_def new_RateLimiter_def double_nonneg)

text \<open>
  C18. The gate evaluates its checks in order and the first failure rejects: the decision is the one
  of the first check that does not pass, the checks up to it have seen the order, and those behind
  it are as they were.
\<close>

theorem risk_gate_first_failure:
  "RiskGate_evaluate nows ord g =
     (let verdict = (\<lambda>i. RiskCheck_evaluate (nows i) ord (g ! i))
      in case find (\<lambda>i. \<not> RiskDecision_ok (fst (verdict i))) [0..<length g] of
           None \<Rightarrow> (risk_accept, map (\<lambda>i. snd (verdict i)) [0..<length g])
         | Some k \<Rightarrow> (fst (verdict k), map (\<lambda>i. snd (verdict i)) [0..<Suc k] @ drop (Suc k) g))"
  by (rule RiskGate_evaluate_nth)

text \<open>
  The notional check rejects exactly the orders with an invalid price or quantity and those
  whose true notional exceeds the limit: the 128-bit product does not wrap.
\<close>

theorem max_notional_exact:
  "RiskDecision_ok (MaxNotional_evaluate m ord) \<longleftrightarrow>
     Quantity_is_valid (o_quantity ord) \<and> Price_is_valid (o_price ord) \<and>
     ticks (o_price ord) * qty (o_quantity ord) \<le> m"
proof -
  have "i128 (a * b) = a * b" if "0 \<le> a" "a \<le> 10 ^ 12" "0 < b" "b \<le> 10 ^ 12" for a b :: int
  proof -
    have "a * b \<le> 10 ^ 12 * 10 ^ 12" using that by (intro mult_mono) auto
    with that show ?thesis by (simp add: i128_def)
  qed
  then show ?thesis
    by (auto simp: MaxNotional_evaluate_def RiskDecision_ok_def risk_accept_def risk_reject_def
        domain_defs not_less split: if_splits)
qed

end
