(* ===== verification/Engine.thy ===== *)
theory Engine
  imports Book_Refinement Risk
begin

text \<open>
  The matching engine: \<^verbatim>\<open>include/tt/matching/matching_engine.hpp\<close> and
  \<^verbatim>\<open>src/matching/matching_engine.cpp\<close>.

  A \<^verbatim>\<open>TradeSink\<close> is called from inside \<^verbatim>\<open>submit\<close> and may look at the
  engine while the submission is still in progress (the market data publisher does). The
  operations therefore return the sequence of sink calls, each with the engine as it is at that
  moment; a sink is a function applied along that sequence. As in the order book, an operation
  returns \<^const>\<open>None\<close> when the execution is undefined.
\<close>

section \<open>State and events\<close>

datatype SubmitStatus = Accepted | FullyFilled | PartiallyFilled | Rejected | Cancelled

record SubmitResult =
  sr_status :: SubmitStatus
  sr_order_id :: OrderId
  sr_instrument_id :: InstrumentId
  sr_sequence :: Sequence
  filled_quantity :: Quantity
  resting_quantity :: Quantity
  sr_side :: Side
  sr_type :: OrderType
  sr_price :: Price
  reject_reason :: string

definition SubmitResult_init :: SubmitResult where
  "SubmitResult_init =
     \<lparr>sr_status = Accepted, sr_order_id = kInvalidOrderId, sr_instrument_id = kInvalidInstrumentId,
      sr_sequence = 0, filled_quantity = Quantity 0, resting_quantity = Quantity 0,
      sr_side = Buy, sr_type = Limit, sr_price = Price 0, reject_reason = ''''\<rparr>"

datatype SinkEvent = OnTrade Trade | OnSubmitResult SubmitResult

record Engine =
  books :: "InstrumentId \<rightharpoonup> OrderBook"
  descriptors :: "InstrumentId \<rightharpoonup> InstrumentDescriptor"
  risk_gate :: "RiskGate option"
  next_sequence :: Sequence

definition new_Engine :: Engine where
  "new_Engine = \<lparr>books = Map.empty, descriptors = Map.empty, risk_gate = None, next_sequence = 1\<rparr>"

type_synonym SinkTrace = "(SinkEvent \<times> Engine) list"

text \<open>The sink that collects trades and results in two vectors.\<close>

record CollectingSink =
  cs_trades :: "Trade list"
  cs_results :: "SubmitResult list"

fun CollectingSink_on :: "SinkEvent \<Rightarrow> CollectingSink \<Rightarrow> CollectingSink" where
  "CollectingSink_on (OnTrade t) s = s\<lparr>cs_trades := cs_trades s @ [t]\<rparr>"
| "CollectingSink_on (OnSubmitResult r) s = s\<lparr>cs_results := cs_results s @ [r]\<rparr>"

definition collect :: "SinkTrace \<Rightarrow> CollectingSink" where
  "collect trace = fold CollectingSink_on (map fst trace) \<lparr>cs_trades = [], cs_results = []\<rparr>"

section \<open>Instruments\<close>

definition register_instrument_id :: "InstrumentId \<Rightarrow> Engine \<Rightarrow> Engine" where
  "register_instrument_id i e =
     (let e1 = (if books e i = None then e\<lparr>books := (books e)(i \<mapsto> new_OrderBook i)\<rparr> else e)
      in if descriptors e1 i = None
         then e1\<lparr>descriptors := (descriptors e1)(i \<mapsto>
                   InstrumentDescriptor_init\<lparr>d_id := i, symbol := nat_string (unat i),
                     tick_size := Price 1, lot_size := Quantity 1, enabled := True\<rparr>)\<rparr>
         else e1)"

definition register_instrument :: "InstrumentDescriptor \<Rightarrow> Engine \<Rightarrow> Engine" where
  "register_instrument desc e =
     (let e1 = register_instrument_id (d_id desc) e
      in e1\<lparr>descriptors := (descriptors e1)(d_id desc \<mapsto> desc)\<rparr>)"

definition unregister_instrument :: "InstrumentId \<Rightarrow> Engine \<Rightarrow> bool \<times> Engine" where
  "unregister_instrument i e =
     (if books e i = None then (False, e)
      else (True, e\<lparr>books := (books e)(i := None), descriptors := (descriptors e)(i := None)\<rparr>))"

definition descriptor :: "InstrumentId \<Rightarrow> Engine \<Rightarrow> InstrumentDescriptor option" where
  "descriptor i e = descriptors e i"

text \<open>The ids come in the hash table's order, which the model leaves open: a set.\<close>

definition instrument_ids :: "Engine \<Rightarrow> InstrumentId set" where
  "instrument_ids e = dom (descriptors e)"

definition instrument_count :: "Engine \<Rightarrow> nat" where
  "instrument_count e = card (dom (books e))"

definition validate_order :: "InstrumentId \<Rightarrow> Price \<Rightarrow> Quantity \<Rightarrow> Engine \<Rightarrow> string" where
  "validate_order i price q e =
     (if \<not> Quantity_is_valid q then ''invalid quantity''
      else case descriptor i e of
        None \<Rightarrow> ''instrument not registered''
      | Some desc \<Rightarrow>
          if \<not> enabled desc then ''instrument disabled''
          else if ticks price > 0 \<and> \<not> is_valid_tick (tick_size desc) then ''invalid tick size''
          else if ticks price > 0 \<and> \<not> Price_is_valid price then ''invalid price''
          else if ticks price > 0 \<and> ticks price smod ticks (tick_size desc) \<noteq> 0
          then ''price not on tick''
          else if \<not> is_valid_lot (lot_size desc) then ''invalid lot size''
          else if qty q smod qty (lot_size desc) \<noteq> 0 then ''qty not on lot''
          else '''')"

definition engine_clear :: "Engine \<Rightarrow> Engine" where
  "engine_clear e = e\<lparr>books := Map.empty, descriptors := Map.empty, next_sequence := 1\<rparr>"

definition book :: "InstrumentId \<Rightarrow> Engine \<Rightarrow> OrderBook option" where "book i e = books e i"

definition set_risk_gate :: "RiskGate option \<Rightarrow> Engine \<Rightarrow> Engine" where
  "set_risk_gate g e = e\<lparr>risk_gate := g\<rparr>"

section \<open>Matching\<close>

definition crosses :: "Side \<Rightarrow> Price \<Rightarrow> Price \<Rightarrow> bool" where
  "crosses aggressor taker_price book_price =
     (if aggressor = Buy then book_price \<le> taker_price else book_price \<ge> taker_price)"

definition make_trade ::
    "Env \<Rightarrow> TradeId \<Rightarrow> Order \<Rightarrow> OrderId \<Rightarrow> TraderId \<Rightarrow> Price \<Rightarrow> Quantity \<Rightarrow> Trade" where
  "make_trade env tid taker resting_id resting_trader exec_price q =
     (let t = Trade_init\<lparr>t_id := tid, t_instrument_id := o_instrument_id taker, t_price := exec_price,
                t_quantity := q, t_sequence := o_sequence taker, t_timestamp := clock env tid\<rparr>
      in if is_buy taker
         then t\<lparr>buy_order_id := o_id taker, buy_trader_id := o_trader_id taker,
                sell_order_id := resting_id, sell_trader_id := resting_trader\<rparr>
         else t\<lparr>sell_order_id := o_id taker, sell_trader_id := o_trader_id taker,
                buy_order_id := resting_id, buy_trader_id := resting_trader\<rparr>)"

text \<open>
  One iteration of the loop in \<^verbatim>\<open>match_against\<close>; \<open>Some None\<close> is a
  \<^verbatim>\<open>break\<close>. The trade is built after \<^verbatim>\<open>fill\<close>, which has freed the resting
  order if it was consumed, so its trader id is then read from freed memory, which is undefined unless
  that memory is still readable.
\<close>

definition match_step ::
    "Env \<Rightarrow> Order \<Rightarrow> OrderBook \<Rightarrow> Sequence \<Rightarrow> (Trade \<times> Order \<times> OrderBook) option option" where
  "match_step env taker ob seq =
     (let best_opposite = best_opposite_price (o_side taker) ob
      in if \<not> Price_is_valid best_opposite then Some None
         else if is_limit taker \<and> \<not> crosses (o_side taker) (o_price taker) best_opposite
         then Some None
         else do {
           resting \<leftarrow> best_opposite_order (o_side taker) ob;
           (case resting of
              None \<Rightarrow> Some None
            | Some ro \<Rightarrow>
                let q = (if qty (o_remaining taker) > qty (o_remaining ro) then o_remaining ro
                         else o_remaining taker)
                in do {
                  (still_resting, ob') \<leftarrow> OrderBook_fill env (o_id ro) q ob;
                  let resting_trader = (if still_resting then o_trader_id ro else freed_trader_id env seq (o_trader_id ro));
                  if still_resting \<or> freed_readable env
                  then Some (Some (make_trade env seq taker (o_id ro) resting_trader best_opposite q,
                                   taker\<lparr>o_remaining := o_remaining taker - q\<rparr>, ob'))
                  else None }) })"

text \<open>
  The loop, on the taker, the book and the engine's sequence counter; each trade comes with the
  book and the counter at the time of the sink call.
\<close>

partial_function (option) match_loop ::
    "Env \<Rightarrow> Order \<Rightarrow> OrderBook \<Rightarrow> Sequence \<Rightarrow>
     (Order \<times> OrderBook \<times> Sequence \<times> (Trade \<times> OrderBook \<times> Sequence) list) option" where
  "match_loop env taker ob seq =
     (if qty (o_remaining taker) > 0
      then Option.bind (match_step env taker ob seq) (\<lambda>it.
             case it of
               None \<Rightarrow> Some (taker, ob, seq, [])
             | Some (t, taker', ob') \<Rightarrow>
                 Option.bind (match_loop env taker' ob' (seq + 1)) (\<lambda>(tk, ob2, seq2, ts).
                   Some (tk, ob2, seq2, (t, ob', seq + 1) # ts)))
      else Some (taker, ob, seq, []))"

declare match_loop.simps [code]

definition put_book :: "InstrumentId \<Rightarrow> OrderBook \<Rightarrow> Sequence \<Rightarrow> Engine \<Rightarrow> Engine" where
  "put_book i ob seq e = e\<lparr>books := (books e)(i \<mapsto> ob), next_sequence := seq\<rparr>"

definition match_against ::
    "Env \<Rightarrow> Order \<Rightarrow> Engine \<Rightarrow> (bool \<times> Order \<times> Engine \<times> SinkTrace) option" where
  "match_against env taker e =
     (let i = o_instrument_id taker
      in case book i e of
           None \<Rightarrow> Some (qty (o_remaining taker) > 0, taker, e, [])
         | Some ob \<Rightarrow>
             do { (tk, ob', seq', ts) \<leftarrow> match_loop env taker ob (next_sequence e);
                  Some (qty (o_remaining tk) > 0, tk, put_book i ob' seq' e,
                        map (\<lambda>(t, b, s). (OnTrade t, put_book i b s e)) ts) })"

section \<open>Submission\<close>

definition reject :: "SubmitResult \<Rightarrow> string \<Rightarrow> Engine \<Rightarrow> (Engine \<times> SinkTrace) option" where
  "reject result reason e =
     Some (e, [(OnSubmitResult (result\<lparr>sr_status := Rejected, reject_reason := reason\<rparr>), e)])"

text \<open>The risk gate's verdict on the order; an engine without a gate accepts everything.\<close>

definition consult_gate :: "(nat \<Rightarrow> int) \<Rightarrow> Order \<Rightarrow> Engine \<Rightarrow> RiskDecision \<times> Engine" where
  "consult_gate nows ord e =
     (case risk_gate e of
        None \<Rightarrow> (risk_accept, e)
      | Some g \<Rightarrow> let (d, g') = RiskGate_evaluate nows ord g in (d, e\<lparr>risk_gate := Some g'\<rparr>))"

definition filled_of :: "Order \<Rightarrow> Quantity" where
  "filled_of taker = o_quantity taker - o_remaining taker"

text \<open>What happens to the taker after matching.\<close>

definition finish_submit ::
    "SubmitResult \<Rightarrow> bool \<Rightarrow> Order \<Rightarrow> Engine \<Rightarrow> (SubmitResult \<times> Engine) option" where
  "finish_submit result still_has_remaining taker e =
     (if \<not> still_has_remaining
      then Some (result\<lparr>filled_quantity := o_quantity taker, resting_quantity := Quantity 0,
                        sr_status := FullyFilled\<rparr>, e)
      else if is_market taker
      then let r = result\<lparr>filled_quantity := filled_of taker, resting_quantity := Quantity 0,
                          sr_status := if qty (filled_of taker) > 0 then PartiallyFilled else Rejected\<rparr>
           in Some (if sr_status r = Rejected
                    then r\<lparr>reject_reason := ''no liquidity for market order''\<rparr> else r, e)
      else if o_tif taker = IOC
      then Some (result\<lparr>filled_quantity := filled_of taker, resting_quantity := Quantity 0,
                        sr_status := if qty (filled_of taker) > 0 then PartiallyFilled else Cancelled\<rparr>, e)
      else do {
        ob \<leftarrow> book (o_instrument_id taker) e;
        let r = result\<lparr>filled_quantity := filled_of taker, resting_quantity := o_remaining taker,
                       sr_status := Accepted\<rparr>;
        (inserted, ob') \<leftarrow> OrderBook_insert (Some taker) ob;
        Some (if inserted then r else r\<lparr>sr_status := Rejected, reject_reason := ''duplicate order id''\<rparr>,
              e\<lparr>books := (books e)(o_instrument_id taker \<mapsto> ob')\<rparr>) })"

text \<open>
  The part of \<^verbatim>\<open>submit\<close> behind the validation and the risk gate: assign the sequence
  number, match, and deal with what is left.
\<close>

definition sequenced :: "Order \<Rightarrow> Engine \<Rightarrow> Order" where
  "sequenced ord e = ord\<lparr>o_sequence := next_sequence e\<rparr>"

definition result_header :: "Order \<Rightarrow> SubmitResult \<Rightarrow> SubmitResult" where
  "result_header taker r = r\<lparr>sr_sequence := o_sequence taker, sr_side := o_side taker,
     sr_type := o_type taker, sr_price := o_price taker\<rparr>"

definition accept_submit ::
    "Env \<Rightarrow> SubmitResult \<Rightarrow> Order \<Rightarrow> Engine \<Rightarrow> (Engine \<times> SinkTrace) option" where
  "accept_submit env result ord e =
     (let taker = sequenced ord e; e1 = e\<lparr>next_sequence := next_sequence e + 1\<rparr>
      in do {
        (still_has_remaining, tk, e2, trace) \<leftarrow> match_against env taker e1;
        (r, e3) \<leftarrow> finish_submit (result_header taker result) still_has_remaining tk e2;
        Some (e3, trace @ [(OnSubmitResult r, e3)]) })"

definition submit ::
    "Env \<Rightarrow> (nat \<Rightarrow> int) \<Rightarrow> Order option \<Rightarrow> Engine \<Rightarrow> (Engine \<times> SinkTrace) option" where
  "submit env nows order e =
     (case order of
        None \<Rightarrow> reject SubmitResult_init ''null order'' e
      | Some ord0 \<Rightarrow>
          let ord = (if o_id ord0 = kInvalidOrderId then ord0\<lparr>o_id := next_sequence e\<rparr> else ord0);
              result = SubmitResult_init\<lparr>sr_order_id := o_id ord, sr_instrument_id := o_instrument_id ord\<rparr>
          in if o_instrument_id ord = kInvalidInstrumentId then reject result ''invalid instrument'' e
             else if \<not> Quantity_is_valid (o_quantity ord) \<or> qty (o_remaining ord) \<le> 0
             then reject result ''invalid quantity'' e
             else if is_limit ord \<and> \<not> Price_is_valid (o_price ord)
             then reject result ''invalid price'' e
             else if book (o_instrument_id ord) e = None
             then reject result ''instrument not registered'' e
             else let (d, e1) = consult_gate nows ord e
                  in if \<not> RiskDecision_ok d then reject result (''risk: '' @ rd_reason d) e1
                     else accept_submit env result ord e1)"

definition submit_limit ::
    "Env \<Rightarrow> (nat \<Rightarrow> int) \<Rightarrow> Timestamp \<Rightarrow> InstrumentId \<Rightarrow> TraderId \<Rightarrow> Side \<Rightarrow> Price \<Rightarrow> Quantity \<Rightarrow>
     TimeInForce \<Rightarrow> Engine \<Rightarrow> (Engine \<times> SinkTrace) option" where
  "submit_limit env nows now i trader side price q tif e =
     submit env nows (Some (Order_init\<lparr>o_id := 0, o_trader_id := trader, o_instrument_id := i,
       o_side := side, o_type := Limit, o_tif := tif, o_price := price, o_quantity := q,
       o_remaining := q, o_timestamp := now\<rparr>)) e"

section \<open>Cancel, modify, reduce\<close>

text \<open>An operation on the book of an instrument, with the answer for an unknown instrument.\<close>

definition on_book ::
    "InstrumentId \<Rightarrow> 'r \<Rightarrow> (OrderBook \<Rightarrow> ('r \<times> OrderBook) option) \<Rightarrow> Engine \<Rightarrow> ('r \<times> Engine) option" where
  "on_book i absent f e =
     (case book i e of
        None \<Rightarrow> Some (absent, e)
      | Some ob \<Rightarrow> do { (r, ob') \<leftarrow> f ob; Some (r, e\<lparr>books := (books e)(i \<mapsto> ob')\<rparr>) })"

definition engine_cancel :: "InstrumentId \<Rightarrow> OrderId \<Rightarrow> Engine \<Rightarrow> (bool \<times> Engine) option" where
  "engine_cancel i x e = on_book i False (OrderBook_cancel x) e"

definition engine_modify ::
    "InstrumentId \<Rightarrow> OrderId \<Rightarrow> Quantity \<Rightarrow> Price \<Rightarrow> Engine \<Rightarrow> (ModifyResult \<times> Engine) option" where
  "engine_modify i x new_qty new_price e = on_book i NotFound (OrderBook_modify x new_qty new_price) e"

definition engine_reduce :: "InstrumentId \<Rightarrow> OrderId \<Rightarrow> Quantity \<Rightarrow> Engine \<Rightarrow> (bool \<times> Engine) option" where
  "engine_reduce i x new_qty e = on_book i False (OrderBook_reduce x new_qty) e"

section \<open>The side of a book in price-time priority\<close>

text \<open>The resting orders of one side, best price first, oldest first within a price.\<close>

definition resting :: "bool \<Rightarrow> OrderBook \<Rightarrow> Order list" where
  "resting is_bid b = map (\<lambda>x. strip (the (id_index b x))) (priority_ids is_bid b)"

text \<open>
  The reference matcher: walk the opposite side in priority order, take from each order what it
  has until the taker is satisfied or the price is not acceptable. Returns the orders hit with
  the quantity taken from each, and the side that is left.
\<close>

fun fills :: "(Price \<Rightarrow> bool) \<Rightarrow> int \<Rightarrow> Order list \<Rightarrow> (Order \<times> int) list" where
  "fills acceptable r [] = []"
| "fills acceptable r (ro # os) =
     (if r \<le> 0 \<or> \<not> acceptable (o_price ro) then []
      else let f = min r (qty (o_remaining ro)) in (ro, f) # fills acceptable (r - f) os)"

fun left_over :: "(Price \<Rightarrow> bool) \<Rightarrow> int \<Rightarrow> Order list \<Rightarrow> Order list" where
  "left_over acceptable r [] = []"
| "left_over acceptable r (ro # os) =
     (if r \<le> 0 \<or> \<not> acceptable (o_price ro) then ro # os
      else if r < qty (o_remaining ro) then reduced (Quantity (qty (o_remaining ro) - r)) ro # os
      else left_over acceptable (r - qty (o_remaining ro)) os)"

definition acceptable_to :: "Order \<Rightarrow> Price \<Rightarrow> bool" where
  "acceptable_to taker p \<longleftrightarrow> is_limit taker \<longrightarrow> crosses (o_side taker) (o_price taker) p"

text \<open>The trade the engine reports for one of these fills.\<close>

definition trade_of :: "Env \<Rightarrow> Order \<Rightarrow> TradeId \<Rightarrow> Order \<times> int \<Rightarrow> Trade" where
  "trade_of env taker tid f =
     (case f of (ro, n) \<Rightarrow>
        make_trade env tid taker (o_id ro)
          (if n < qty (o_remaining ro) then o_trader_id ro else freed_trader_id env tid (o_trader_id ro))
          (o_price ro) (Quantity n))"

fun trades_of :: "Env \<Rightarrow> Order \<Rightarrow> TradeId \<Rightarrow> (Order \<times> int) list \<Rightarrow> Trade list" where
  "trades_of env taker tid [] = []"
| "trades_of env taker tid (f # fs) = trade_of env taker tid f # trades_of env taker (tid + 1) fs"

definition filled_total :: "(Order \<times> int) list \<Rightarrow> int" where
  "filled_total fs = sum_list (map snd fs)"

text \<open>
  What is reported about a taker after matching, and whether it comes to rest on its side
  \<open>own\<close> when \<open>other\<close> is what the matching left of the other side.
\<close>

definition comes_to_rest :: "Order \<Rightarrow> Order list \<Rightarrow> Order list \<Rightarrow> bool" where
  "comes_to_rest tk own other \<longleftrightarrow> 0 < qty (o_remaining tk) \<and> is_limit tk \<and> o_tif tk \<noteq> IOC \<and>
     order_ok tk \<and> o_id tk \<notin> o_id ` (set own \<union> set other)"

definition outcome :: "SubmitResult \<Rightarrow> Order \<Rightarrow> bool \<Rightarrow> SubmitResult" where
  "outcome r tk rested =
     (if qty (o_remaining tk) \<le> 0
      then r\<lparr>sr_status := FullyFilled, filled_quantity := o_quantity tk, resting_quantity := Quantity 0\<rparr>
      else if is_market tk
      then (if 0 < qty (filled_of tk)
            then r\<lparr>sr_status := PartiallyFilled, filled_quantity := filled_of tk,
                   resting_quantity := Quantity 0\<rparr>
            else r\<lparr>sr_status := Rejected, filled_quantity := filled_of tk, resting_quantity := Quantity 0,
                   reject_reason := ''no liquidity for market order''\<rparr>)
      else if o_tif tk = IOC
      then r\<lparr>sr_status := if 0 < qty (filled_of tk) then PartiallyFilled else Cancelled,
             filled_quantity := filled_of tk, resting_quantity := Quantity 0\<rparr>
      else if rested
      then r\<lparr>sr_status := Accepted, filled_quantity := filled_of tk, resting_quantity := o_remaining tk\<rparr>
      else r\<lparr>sr_status := Rejected, filled_quantity := filled_of tk, resting_quantity := o_remaining tk,
             reject_reason := ''duplicate order id''\<rparr>)"

text \<open>Matching a taker against a book, by the reference matcher.\<close>

definition taker_fills :: "Order \<Rightarrow> OrderBook \<Rightarrow> (Order \<times> int) list" where
  "taker_fills ord b = fills (acceptable_to ord) (qty (o_remaining ord)) (resting (\<not> is_buy ord) b)"

definition other_side_left :: "Order \<Rightarrow> OrderBook \<Rightarrow> Order list" where
  "other_side_left ord b = left_over (acceptable_to ord) (qty (o_remaining ord)) (resting (\<not> is_buy ord) b)"

definition matched :: "Order \<Rightarrow> OrderBook \<Rightarrow> Order" where
  "matched ord b = ord\<lparr>o_remaining := Quantity (qty (o_remaining ord) - filled_total (taker_fills ord b))\<rparr>"

definition uncrossed :: "OrderBook \<Rightarrow> bool" where
  "uncrossed b \<longleftrightarrow> (\<forall>bo \<in> set (resting True b). \<forall>so \<in> set (resting False b). o_price bo < o_price so)"

definition engine_inv :: "Engine \<Rightarrow> bool" where
  "engine_inv e \<longleftrightarrow> (\<forall>i b. books e i = Some b \<longrightarrow> book_inv b)"

end
