(* ===== verification/Matching.thy ===== *)
theory Matching
  imports Engine
begin

text \<open>
  The matching loop implements the reference matcher. A side of a book is the list of its resting
  orders in price-time priority; the theory shows that the list is ordered that way, how filling
  the front, inserting and cancelling change it, and that the loop of
  \<^verbatim>\<open>match_against\<close> returns and produces exactly the fills of the reference matcher.
\<close>

section \<open>Price-time order, defined\<close>

text \<open>\<open>better s p p'\<close>: on side \<open>s\<close>, \<open>p\<close> is at least as good as \<open>p'\<close>.\<close>

definition better :: "bool \<Rightarrow> Price \<Rightarrow> Price \<Rightarrow> bool" where
  "better s p p' \<longleftrightarrow> (if s then p' \<le> p else p \<le> p')"

text \<open>The place of a new order: behind every order that is at least as good.\<close>

fun place :: "bool \<Rightarrow> Order \<Rightarrow> Order list \<Rightarrow> Order list" where
  "place s x [] = [x]"
| "place s x (y # ys) = (if better s (o_price y) (o_price x) then y # place s x ys else x # y # ys)"

definition price_sorted :: "bool \<Rightarrow> Order list \<Rightarrow> bool" where
  "price_sorted s os \<longleftrightarrow> sorted_wrt (\<lambda>a c. better s (o_price a) (o_price c)) os"

abbreviation at_price :: "Price \<Rightarrow> Order list \<Rightarrow> Order list" where
  "at_price p os \<equiv> filter (\<lambda>ord. o_price ord = p) os"

section \<open>One side of the book\<close>

lemma resting_length [simp]: "length (resting s b) = length (priority_ids s b)"
  by (simp add: resting_def)

lemma book_inv_ladder:
  assumes "book_inv b" and "(p, ptr) \<in> set (ladder s b)"
  shows "\<exists>l x xs ord. levels b ptr = Some l \<and> level_inv (id_index b) l (queues b s p) \<and>
    queues b s p = x # xs \<and> id_index b x = Some ord"
proof -
  from assms(1) have rel: "book_rel b (queues b)" by (simp add: book_inv_def)
  have "distinct (map fst (ladder s b))" using book_rel_sorted [OF rel]
    by (cases s) (auto simp: ladder_def intro: price_less.distinct_keys price_greater.distinct_keys)
  then have m: "map_of (ladder s b) p = Some ptr" using assms(2) by simp
  from book_rel_levelD [OF rel m] obtain l x xs where
    l: "levels b ptr = Some l" "level_inv (id_index b) l (queues b s p)" and q: "queues b s p = x # xs"
    by (metis list.exhaust)
  have "order_at (id_index b) s p x" using book_rel_orderD [OF rel, of x s p] q by simp
  then show ?thesis using l q by (auto simp: order_at_def split: option.splits)
qed

lemma book_inv_order_at: "book_inv b \<Longrightarrow> x \<in> set (queues b s p) \<Longrightarrow> order_at (id_index b) s p x"
  using book_rel_orderD by (simp add: book_inv_def)

lemma book_inv_keys:
  assumes "book_inv b"
  shows "distinct (map fst (ladder s b))" and "sorted_wrt (if s then (>) else (<)) (map fst (ladder s b))"
  using book_rel_sorted [of b "queues b"] assms
  by (cases s; auto simp: ladder_def book_inv_def intro: price_less.distinct_keys price_greater.distinct_keys)+

lemma resting_Nil: "book_inv b \<Longrightarrow> resting s b = [] \<longleftrightarrow> ladder s b = []"
  using book_inv_ladder [of b _ _ s]
  by (cases "ladder s b") (fastforce simp: resting_def priority_ids_def)+

lemma resting_Cons:
  assumes inv: "book_inv b" and r: "resting s b = ro # os"
  obtains p ptr m l x xs ord where "ladder s b = (p, ptr) # m" "levels b ptr = Some l"
    "level_inv (id_index b) l (x # xs)" "queues b s p = x # xs" "id_index b x = Some ord" "ro = strip ord"
    "os = map (\<lambda>x. strip (the (id_index b x))) (xs @ concat (map (\<lambda>(p, _). queues b s p) m))"
    "order_at (id_index b) s p x"
proof -
  from r inv have "ladder s b \<noteq> []" using resting_Nil [of b s] by auto
  then obtain p ptr m where m: "ladder s b = (p, ptr) # m" by (metis list.exhaust surj_pair)
  with book_inv_ladder [OF inv, of p ptr s] obtain l x xs ord where
    l: "levels b ptr = Some l" "level_inv (id_index b) l (queues b s p)" "queues b s p = x # xs"
      "id_index b x = Some ord" by auto
  moreover have "order_at (id_index b) s p x" using l(3) by (intro book_inv_order_at [OF inv]) simp
  ultimately show thesis using m r by (intro that [of p ptr m l x xs ord]) (auto simp: resting_def priority_ids_def)
qed

lemma priority_ids_distinct:
  assumes inv: "book_inv b"
  shows "distinct (priority_ids s b)"
proof -
  have "distinct (concat (map (\<lambda>(p, _). queues b s p) m))"
    if "distinct (map fst m)" "set m \<subseteq> set (ladder s b)" for m
    using that
  proof (induction m)
    case (Cons k m)
    obtain p ptr where k: "k = (p, ptr)" by fastforce
    from Cons.prems(2) k book_inv_ladder [OF inv, of p ptr s] have "distinct (queues b s p)"
      by (auto simp: level_inv_def)
    moreover have "x \<notin> set (queues b s p')" if "x \<in> set (queues b s p)" "(p', ptr') \<in> set m" for x p' ptr'
    proof
      assume "x \<in> set (queues b s p')"
      with that(1) have "order_at (id_index b) s p x" "order_at (id_index b) s p' x"
        using book_inv_order_at [OF inv] by blast+
      then have "p' = p" by (auto simp: order_at_def split: option.splits)
      with that(2) Cons.prems(1) k show False by force
    qed
    ultimately show ?case using Cons k by fastforce
  qed simp
  with book_inv_keys(1) [OF inv] show ?thesis by (simp add: priority_ids_def)
qed

lemma priority_idsD:
  assumes "book_inv b" "x \<in> set (priority_ids s b)"
  obtains ord where "id_index b x = Some ord" "is_buy ord = s"
proof -
  from assms(2) obtain p where "x \<in> set (queues b s p)" by (auto simp: priority_ids_def)
  from book_inv_order_at [OF assms(1) this] that show thesis by (auto simp: order_at_def split: option.splits)
qed

lemma set_resting:
  assumes inv: "book_inv b"
  shows "set (resting s b) = {strip ord |x ord. id_index b x = Some ord \<and> is_buy ord = s}"
proof -
  from inv have rel: "book_rel b (queues b)" by (simp add: book_inv_def)
  have "set (priority_ids s b) = {x. \<exists>ord. id_index b x = Some ord \<and> is_buy ord = s}"
  proof (intro equalityI subsetI)
    fix x assume "x \<in> set (priority_ids s b)"
    from priority_idsD [OF inv this] show "x \<in> {x. \<exists>ord. id_index b x = Some ord \<and> is_buy ord = s}" by auto
  next
    fix x assume "x \<in> {x. \<exists>ord. id_index b x = Some ord \<and> is_buy ord = s}"
    then obtain ord where x: "id_index b x = Some ord" "is_buy ord = s" by blast
    from book_rel_indexD [OF rel x(1)] x(2) have q: "x \<in> set (queues b s (o_price ord))" by simp
    then have "map_of (ladder s b) (o_price ord) \<noteq> None" using book_rel_None [OF rel] by force
    then obtain ptr where "(o_price ord, ptr) \<in> set (ladder s b)" using map_of_SomeD by fast
    with q show "x \<in> set (priority_ids s b)" by (force simp: priority_ids_def)
  qed
  then show ?thesis by (force simp: resting_def)
qed

lemma resting_ok:
  assumes "book_inv b" "ro \<in> set (resting s b)"
  shows "order_ok ro" "is_buy ro = s" "map_option strip (id_index b (o_id ro)) = Some ro"
proof -
  from assms set_resting [OF assms(1), of s] obtain x ord where
    x: "id_index b x = Some ord" "is_buy ord = s" "ro = strip ord" by auto
  moreover have "order_ok ord" "o_id ord = x"
    using book_rel_index_ok [of b "queues b", OF _ x(1)] assms(1) by (simp_all add: book_inv_def)
  ultimately show "order_ok ro" "is_buy ro = s" "map_option strip (id_index b (o_id ro)) = Some ro" by simp_all
qed

lemma resting_cong:
  assumes "ladder t b' = ladder t b" "queues b' t = queues b t"
    "\<And>x. x \<in> set (priority_ids t b) \<Longrightarrow> map_option strip (id_index b' x) = map_option strip (id_index b x)"
    "book_inv b"
  shows "resting t b' = resting t b"
proof -
  have ids: "priority_ids t b' = priority_ids t b" using assms(1,2) by (simp add: priority_ids_def)
  have "strip (the (id_index b' x)) = strip (the (id_index b x))" if x: "x \<in> set (priority_ids t b)" for x
    using assms(3) [OF x] priority_idsD [OF assms(4) x] by (metis option.map_sel option.simps(3) map_option_is_None)
  then show ?thesis by (simp add: resting_def ids)
qed

section \<open>Filling the front of a side\<close>

lemma fill_front_partial:
  assumes inv: "book_inv b" and r: "resting s b = ro # os"
    and f: "0 < qty f" "qty f < qty (o_remaining ro)"
  shows "\<exists>b'. OrderBook_fill env (o_id ro) f b = Some (True, b') \<and> book_inv b' \<and>
    resting s b' = reduced (o_remaining ro - f) ro # os \<and> resting (\<not> s) b' = resting (\<not> s) b \<and>
    instrument b' = instrument b"
proof -
  from resting_Cons [OF inv r] obtain p ptr m l x xs ord where
    m: "ladder s b = (p, ptr) # m" and q: "queues b s p = x # xs" and x: "id_index b x = Some ord" "ro = strip ord" and
    os: "os = map (\<lambda>x. strip (the (id_index b x))) (xs @ concat (map (\<lambda>(p, _). queues b s p) m))" and
    at: "order_at (id_index b) s p x" by metis
  from inv have rel: "book_rel b (queues b)" by (simp add: book_inv_def)
  from at x have id: "o_id ord = x" "is_buy ord = s" by (auto simp: order_at_def)
  have f': "qty f < qty (o_remaining ord)" using f(2) x by simp
  from OrderBook_fill_partial [OF rel q x(1) f(1) f', of env] obtain b' where
    b': "OrderBook_fill env x f b = Some (True, b')" "book_rel b' (queues b)"
      "id_index b' = (id_index b)(x \<mapsto> reduced (o_remaining ord - f) ord)"
      "ladder True b' = ladder True b" "ladder False b' = ladder False b" "instrument b' = instrument b"
    unfolding reduced_def by blast
  have lad: "ladder t b' = ladder t b" for t using b'(4,5) by (cases t) simp_all
  have qs: "queues b' = queues b" using book_rel_queues [OF b'(2)] by simp
  have ids: "priority_ids s b = x # xs @ concat (map (\<lambda>(p, _). queues b s p) m)"
    using m q by (simp add: priority_ids_def)
  with priority_ids_distinct [OF inv, of s] have
    "x \<notin> set (xs @ concat (map (\<lambda>(p, _). queues b s p) m))" by simp
  then have "resting s b' = reduced (o_remaining ro - f) ro # os"
    using ids qs lad b'(3) x os by (auto simp: resting_def priority_ids_def)
  moreover have "resting (\<not> s) b' = resting (\<not> s) b"
    using b'(3) qs lad x(1) id by (intro resting_cong) (auto simp: inv elim: priority_idsD [OF inv])
  ultimately show ?thesis using b' x id by (auto simp: book_inv_iff)
qed

lemma fill_front_full:
  assumes inv: "book_inv b" and env: "freed_price_intact env" and r: "resting s b = ro # os"
    and f: "qty (o_remaining ro) \<le> qty f"
  shows "\<exists>b'. OrderBook_fill env (o_id ro) f b = Some (False, b') \<and> book_inv b' \<and>
    resting s b' = os \<and> resting (\<not> s) b' = resting (\<not> s) b \<and> instrument b' = instrument b"
proof -
  from resting_Cons [OF inv r] obtain p ptr m l x xs ord where
    m: "ladder s b = (p, ptr) # m" and q: "queues b s p = x # xs" and x: "id_index b x = Some ord" "ro = strip ord" and
    os: "os = map (\<lambda>x. strip (the (id_index b x))) (xs @ concat (map (\<lambda>(p, _). queues b s p) m))" and
    at: "order_at (id_index b) s p x" by metis
  from inv have rel: "book_rel b (queues b)" by (simp add: book_inv_def)
  from at x have id: "o_id ord = x" "is_buy ord = s" by (auto simp: order_at_def)
  have f': "qty (o_remaining ord) \<le> qty f" using f x by simp
  from OrderBook_fill_full [OF rel env q x(1) f'] obtain b' where
    b': "OrderBook_fill env x f b = Some (False, b')" "book_rel b' (set_queue s p xs (queues b))"
      "id_index b' x = None" "\<forall>y. y \<noteq> x \<longrightarrow> map_option strip (id_index b' y) = map_option strip (id_index b y)"
      "ladder s b' = (if xs = [] then omap_erase p (ladder s b) else ladder s b)"
      "ladder (\<not> s) b' = ladder (\<not> s) b" "instrument b' = instrument b" by auto
  have qs: "queues b' = set_queue s p xs (queues b)" using book_rel_queues [OF b'(2)] by simp
  let ?tail = "concat (map (\<lambda>(p, _). queues b s p) m)"
  have ids: "priority_ids s b = x # xs @ ?tail" using m q by (simp add: priority_ids_def)
  have pm: "p \<notin> fst ` set m" using book_inv_keys(1) [OF inv, of s] m by simp
  then have tail: "map (\<lambda>(p, _). queues b' s p) m = map (\<lambda>(p, _). queues b s p) m"
    by (intro map_cong) (force simp: qs)+
  have "omap_erase p (ladder s b) = m" using pm m by (force simp: omap_erase_def filter_id_conv)
  then have ids': "priority_ids s b' = xs @ ?tail"
    using b'(5) m by (cases "xs = []") (simp_all add: priority_ids_def tail, simp add: qs)
  have "map (\<lambda>x. strip (the (id_index b' x))) (xs @ ?tail) = os" unfolding os
  proof (rule map_cong [OF refl])
    fix y assume y: "y \<in> set (xs @ ?tail)"
    then have "y \<noteq> x" using priority_ids_distinct [OF inv, of s] ids by auto
    moreover obtain o' where "id_index b y = Some o'"
      using priority_idsD [OF inv, of y s] y ids by auto
    ultimately show "strip (the (id_index b' y)) = strip (the (id_index b y))" using b'(4) by force
  qed
  then have "resting s b' = os" by (simp add: resting_def ids')
  moreover have "resting (\<not> s) b' = resting (\<not> s) b"
  proof (rule resting_cong [OF b'(6) _ _ inv])
    show "queues b' (\<not> s) = queues b (\<not> s)" by (simp add: qs)
    fix y assume "y \<in> set (priority_ids (\<not> s) b)"
    then have "y \<noteq> x" using x(1) id by (auto elim: priority_idsD [OF inv])
    with b'(4) show "map_option strip (id_index b' y) = map_option strip (id_index b y)" by simp
  qed
  ultimately show ?thesis using b' x id by (auto simp: book_inv_iff)
qed

section \<open>The matching loop\<close>

lemma best_opposite_ladder:
  "best_opposite_price (o_side taker) b = best_price (ladder (\<not> is_buy taker) b)"
  "best_opposite_order (o_side taker) b = best_order (ladder (\<not> is_buy taker) b) b"
  by (auto simp: best_opposite_price_def best_opposite_order_def best_bid_def best_ask_def
      best_bid_order_def best_ask_order_def ladder_def is_buy_def)

lemma match_step_stop:
  assumes inv: "book_inv b"
    and stop: "\<And>ro os. resting (\<not> is_buy taker) b = ro # os \<Longrightarrow> \<not> acceptable_to taker (o_price ro)"
  shows "match_step env taker b seq = Some None"
proof (cases "resting (\<not> is_buy taker) b")
  case Nil
  then have "ladder (\<not> is_buy taker) b = []" using resting_Nil [OF inv] by simp
  then show ?thesis by (simp add: match_step_def best_opposite_ladder best_price_def)
next
  case (Cons ro os)
  from resting_Cons [OF inv Cons] obtain p ptr m x ord where
    "ladder (\<not> is_buy taker) b = (p, ptr) # m" "id_index b x = Some ord" "ro = strip ord"
    "order_at (id_index b) (\<not> is_buy taker) p x" by metis
  with stop [OF Cons] show ?thesis
    by (auto simp: match_step_def best_opposite_ladder best_price_def order_at_def acceptable_to_def)
qed

lemma match_step_fill:
  assumes inv: "book_inv b" and env: "freed_price_intact env"
    and r: "resting (\<not> is_buy taker) b = ro # os" and acc: "acceptable_to taker (o_price ro)"
    and rem: "0 < qty (o_remaining taker)" "in_i64 (qty (o_remaining taker))"
  shows "\<exists>b'. match_step env taker b seq =
      Some (Some (trade_of env taker seq (ro, min (qty (o_remaining taker)) (qty (o_remaining ro))),
                  taker\<lparr>o_remaining := Quantity (qty (o_remaining taker) -
                           min (qty (o_remaining taker)) (qty (o_remaining ro)))\<rparr>, b')) \<and>
    book_inv b' \<and> instrument b' = instrument b \<and> resting (is_buy taker) b' = resting (is_buy taker) b \<and>
    resting (\<not> is_buy taker) b' =
      (if qty (o_remaining taker) < qty (o_remaining ro)
       then reduced (Quantity (qty (o_remaining ro) - qty (o_remaining taker))) ro # os else os)"
proof -
  from resting_Cons [OF inv r] obtain p ptr m l x xs ord where
    m: "ladder (\<not> is_buy taker) b = (p, ptr) # m" "levels b ptr = Some l" "level_inv (id_index b) l (x # xs)" and
    x: "id_index b x = Some ord" "ro = strip ord" and
    at: "order_at (id_index b) (\<not> is_buy taker) p x" by metis
  from at x have ord: "order_ok ord" "o_id ord = x" "o_price ord = p" by (auto simp: order_at_def)
  note r1 = order_ok_rem [OF ord(1)]
  have best: "best_opposite_price (o_side taker) b = p" "best_opposite_order (o_side taker) b = Some (Some ord)"
    using m level_inv_head_order [OF m(3) x(1)] by (simp_all add: best_opposite_ladder best_price_def best_order_def)
  have p: "Price_is_valid p" using ord by (simp add: order_ok_def)
  let ?q = "if qty (o_remaining taker) > qty (o_remaining ord) then o_remaining ord else o_remaining taker"
  let ?kept = "qty (o_remaining taker) < qty (o_remaining ord)"
  have "\<exists>b'. OrderBook_fill env x ?q b = Some (?kept, b') \<and> book_inv b' \<and> instrument b' = instrument b \<and>
    resting (is_buy taker) b' = resting (is_buy taker) b \<and> resting (\<not> is_buy taker) b' =
      (if ?kept then reduced (Quantity (qty (o_remaining ro) - qty (o_remaining taker))) ro # os else os)"
  proof (cases ?kept)
    case True
    with rem x r1 fill_front_partial [OF inv r, of "o_remaining taker" env] ord show ?thesis
      by (auto simp: minus_Quantity_eq in_i64_def)
  next
    case False
    with x fill_front_full [OF inv env r, of ?q] ord show ?thesis by (auto split: if_splits)
  qed
  then obtain b' where b': "OrderBook_fill env x ?q b = Some (?kept, b')" and
    rest: "book_inv b' \<and> instrument b' = instrument b \<and> resting (is_buy taker) b' = resting (is_buy taker) b \<and>
      resting (\<not> is_buy taker) b' =
      (if ?kept then reduced (Quantity (qty (o_remaining ro) - qty (o_remaining taker))) ro # os else os)"
    by blast
  show ?thesis
  proof (intro exI [of _ b'] conjI)
    show "match_step env taker b seq =
      Some (Some (trade_of env taker seq (ro, min (qty (o_remaining taker)) (qty (o_remaining ro))),
                  taker\<lparr>o_remaining := Quantity (qty (o_remaining taker) -
                           min (qty (o_remaining taker)) (qty (o_remaining ro)))\<rparr>, b'))"
      using b' acc rem r1 x ord p env [unfolded freed_price_intact_def]
      by (auto simp: match_step_def best trade_of_def acceptable_to_def Let_def minus_Quantity_eq min_def
          in_i64_def strip_def dest!: Quantity.expand)
  qed (use rest x in auto)
qed


lemma make_trade_remaining [simp]: "trade_of env (taker\<lparr>o_remaining := q\<rparr>) tid f = trade_of env taker tid f"
  by (simp add: trade_of_def make_trade_def is_buy_def Let_def split: prod.splits)

lemma trades_of_remaining [simp]: "trades_of env (taker\<lparr>o_remaining := q\<rparr>) tid fs = trades_of env taker tid fs"
  by (induction fs arbitrary: tid) simp_all

lemma taker_remaining [simp]:
  "acceptable_to (taker\<lparr>o_remaining := q\<rparr>) = acceptable_to taker" "is_buy (taker\<lparr>o_remaining := q\<rparr>) = is_buy taker"
  by (auto simp: acceptable_to_def is_limit_def is_buy_def fun_eq_iff)

lemma filled_total_simps [simp]: "filled_total [] = 0" "filled_total ((ro, n) # fs) = n + filled_total fs"
  by (simp_all add: filled_total_def)

lemma fills_done [simp]: "r \<le> 0 \<Longrightarrow> fills acc r os = []" "r \<le> 0 \<Longrightarrow> left_over acc r os = os"
  by (cases os; simp)+

lemma match_loop_done: "qty (o_remaining taker) \<le> 0 \<Longrightarrow> match_loop env taker b seq = Some (taker, b, seq, [])"
  by (simp add: match_loop.simps)

lemma match_loop_stop:
  assumes "match_step env taker b seq = Some None"
  shows "match_loop env taker b seq = Some (taker, b, seq, [])"
  by (subst match_loop.simps) (simp add: assms)

lemma match_loop_step:
  assumes "0 < qty (o_remaining taker)" "match_step env taker b seq = Some (Some (t, taker', b'))"
    "match_loop env taker' b' (seq + 1) = Some (tk, b2, seq2, ts)"
  shows "match_loop env taker b seq = Some (tk, b2, seq2, (t, b', seq + 1) # ts)"
  by (subst match_loop.simps) (simp add: assms)

text \<open>What the loop should do, and the two cases of the order at the front.\<close>

definition loop_matches :: "Env \<Rightarrow> Order \<Rightarrow> OrderBook \<Rightarrow> Sequence \<Rightarrow> bool" where
  "loop_matches env taker b seq \<longleftrightarrow>
     (let r = qty (o_remaining taker); os = resting (\<not> is_buy taker) b; fs = fills (acceptable_to taker) r os
      in \<exists>b' ts. match_loop env taker b seq =
           Some (taker\<lparr>o_remaining := Quantity (r - filled_total fs)\<rparr>, b', seq + of_nat (length fs), ts) \<and>
         map fst ts = trades_of env taker seq fs \<and>
         (\<forall>(t, bi, si) \<in> set ts. book_inv bi) \<and> b' = (if ts = [] then b else fst (snd (last ts))) \<and>
         book_inv b' \<and> instrument b' = instrument b \<and> resting (is_buy taker) b' = resting (is_buy taker) b \<and>
         resting (\<not> is_buy taker) b' = left_over (acceptable_to taker) r os)"

lemma loop_matches_untaken:
  assumes inv: "book_inv b" and ros: "resting (\<not> is_buy taker) b = ro # os"
    and not: "\<not> (0 < qty (o_remaining taker) \<and> acceptable_to taker (o_price ro))"
  shows "loop_matches env taker b seq"
proof -
  have "match_loop env taker b seq = Some (taker, b, seq, [])"
  proof (cases "0 < qty (o_remaining taker)")
    case True
    with not ros inv show ?thesis by (intro match_loop_stop match_step_stop) auto
  qed (simp add: match_loop_done)
  with not ros inv show ?thesis by (auto simp: loop_matches_def not_less)
qed

lemma loop_matches_taken:
  assumes inv: "book_inv b" and env: "freed_price_intact env" and rem: "in_i64 (qty (o_remaining taker))"
    and ros: "resting (\<not> is_buy taker) b = ro # os" and some: "acceptable_to taker (o_price ro)" "0 < qty (o_remaining taker)"
    and IH: "\<And>tk b1. os = resting (\<not> is_buy tk) b1 \<Longrightarrow> book_inv b1 \<Longrightarrow> in_i64 (qty (o_remaining tk)) \<Longrightarrow> loop_matches env tk b1 (seq + 1)"
  shows "loop_matches env taker b seq"
proof -
  let ?r = "qty (o_remaining taker)"
  from match_step_fill [OF inv env ros some rem, of seq] obtain b1 where
    st: "match_step env taker b seq = Some (Some (trade_of env taker seq (ro, min ?r (qty (o_remaining ro))),
       taker\<lparr>o_remaining := Quantity (?r - min ?r (qty (o_remaining ro)))\<rparr>, b1))" (is "_ = Some (Some (?t, ?tk, b1))") and
    b1: "book_inv b1" "instrument b1 = instrument b" "resting (is_buy taker) b1 = resting (is_buy taker) b"
      "resting (\<not> is_buy taker) b1 = (if ?r < qty (o_remaining ro)
         then reduced (Quantity (qty (o_remaining ro) - ?r)) ro # os else os)" by blast
  show ?thesis
  proof (cases "?r < qty (o_remaining ro)")
    case less: True
    then have "match_loop env taker b seq = Some (?tk, b1, seq + 1, [(?t, b1, seq + 1)])"
      using some by (intro match_loop_step [OF _ st]) (simp_all add: match_loop_done)
    with less some ros b1 show ?thesis by (auto simp: loop_matches_def)
  next
    case full: False
    have "0 < qty (o_remaining ro)"
      using resting_ok(1) [OF inv, of ro "\<not> is_buy taker"] ros by (simp add: order_ok_rem)
    then have rem': "in_i64 (qty (o_remaining ?tk))" using full rem by (simp add: in_i64_def min_def)
    from full b1 have "loop_matches env ?tk b1 (seq + 1)" by (intro IH b1(1) rem') simp
    with full b1 obtain b2 ts where
      loop: "match_loop env ?tk b1 (seq + 1) = Some (taker\<lparr>o_remaining := Quantity (?r - qty (o_remaining ro) -
           filled_total (fills (acceptable_to taker) (?r - qty (o_remaining ro)) os))\<rparr>, b2,
          seq + 1 + of_nat (length (fills (acceptable_to taker) (?r - qty (o_remaining ro)) os)), ts)" and
      rest: "map fst ts = trades_of env taker (seq + 1) (fills (acceptable_to taker) (?r - qty (o_remaining ro)) os)"
        "\<forall>(t, bi, si) \<in> set ts. book_inv bi" "b2 = (if ts = [] then b1 else fst (snd (last ts)))"
        "book_inv b2" "instrument b2 = instrument b1"
        "resting (is_buy taker) b2 = resting (is_buy taker) b1"
        "resting (\<not> is_buy taker) b2 = left_over (acceptable_to taker) (?r - qty (o_remaining ro)) os"
      by (auto simp: loop_matches_def Let_def min_def)
    from match_loop_step [OF _ st loop] some full ros rest b1 show ?thesis
      by (auto simp: loop_matches_def min_def algebra_simps Let_def)
  qed
qed

theorem match_loop_fills:
  fixes taker :: Order
  defines "acc \<equiv> acceptable_to taker" and "s \<equiv> is_buy taker"
  assumes inv: "book_inv b" and env: "freed_price_intact env" and rem: "in_i64 (qty (o_remaining taker))"
  shows "\<exists>b' ts. match_loop env taker b seq =
      Some (taker\<lparr>o_remaining := Quantity (qty (o_remaining taker) -
              filled_total (fills acc (qty (o_remaining taker)) (resting (\<not> s) b)))\<rparr>, b',
            seq + of_nat (length (fills acc (qty (o_remaining taker)) (resting (\<not> s) b))), ts) \<and>
    map fst ts = trades_of env taker seq (fills acc (qty (o_remaining taker)) (resting (\<not> s) b)) \<and>
    (\<forall>(t, bi, si) \<in> set ts. book_inv bi) \<and> b' = (if ts = [] then b else fst (snd (last ts))) \<and>
    book_inv b' \<and> instrument b' = instrument b \<and> resting s b' = resting s b \<and>
    resting (\<not> s) b' = left_over acc (qty (o_remaining taker)) (resting (\<not> s) b)"
proof -
  have "loop_matches env taker b seq" using inv rem
  proof (induction "resting (\<not> is_buy taker) b" arbitrary: taker b seq)
    case (Nil taker b seq)
    then have "match_step env taker b seq = Some None" by (intro match_step_stop) auto
    with Nil show ?case by (simp add: loop_matches_def match_loop_stop)
  next
    case (Cons ro os taker b seq)
    note ros = Cons.hyps(2) [symmetric]
    show ?case
    proof (cases "0 < qty (o_remaining taker) \<and> acceptable_to taker (o_price ro)")
      case True
      with loop_matches_taken [OF Cons.prems(1) env Cons.prems(2) ros] Cons.hyps(1) show ?thesis by blast
    qed (rule loop_matches_untaken [OF Cons.prems(1) ros])
  qed
  then show ?thesis unfolding loop_matches_def acc_def s_def Let_def .
qed

section \<open>Price-time order\<close>

lemma better_refl [simp]: "better s p p" by (simp add: better_def)
lemma better_trans: "better s p q \<Longrightarrow> better s q r \<Longrightarrow> better s p r" by (auto simp: better_def split: if_splits)
lemma better_antisym: "better s p q \<Longrightarrow> better s q p \<Longrightarrow> p = q" by (auto simp: better_def split: if_splits)
lemma better_total: "better s p q \<or> better s q p" by (auto simp: better_def)

lemma price_sorted_simps [simp]:
  "price_sorted s []"
  "price_sorted s (x # xs) \<longleftrightarrow> (\<forall>y \<in> set xs. better s (o_price x) (o_price y)) \<and> price_sorted s xs"
  by (simp_all add: price_sorted_def)

lemma price_sorted_unique:
  assumes "price_sorted s xs" "price_sorted s ys" "\<And>p. at_price p xs = at_price p ys"
  shows "xs = ys"
  using assms
proof (induction xs arbitrary: ys)
  case Nil
  then have "at_price p ys = []" for p by (metis filter.simps(1))
  then show ?case by (metis (mono_tags, lifting) empty_filter_conv list.set_intros(1) neq_Nil_conv)
next
  case (Cons x xs)
  have "at_price (o_price x) ys \<noteq> []" using Cons.prems(3) [of "o_price x"] by auto
  then obtain y ys' where ys: "ys = y # ys'" by (cases ys) auto
  have "y \<in> set (at_price (o_price y) (x # xs))" unfolding Cons.prems(3) ys by simp
  then have "y \<in> set (x # xs)" by (metis filter_is_subset subsetD)
  then have "better s (o_price x) (o_price y)" using Cons.prems(1) by auto
  moreover have "x \<in> set (at_price (o_price x) ys)" unfolding Cons.prems(3) [symmetric] by simp
  then have "better s (o_price y) (o_price x)" using Cons.prems(2) ys by (auto split: if_splits)
  ultimately have p: "o_price x = o_price y" by (rule better_antisym)
  with Cons.prems(3) [of "o_price x"] ys have xy: "x = y" by simp
  have "at_price p xs = at_price p ys'" for p
    using Cons.prems(3) [of p] xy ys by (auto split: if_splits)
  with Cons.IH [of ys'] Cons.prems xy ys show ?case by simp
qed

lemma set_place [simp]: "set (place s x xs) = insert x (set xs)"
  by (induction xs) auto

lemma price_sorted_place: "price_sorted s xs \<Longrightarrow> price_sorted s (place s x xs)"
  using better_total better_trans by (induction xs) (auto, blast+)

lemma at_price_place:
  "price_sorted s xs \<Longrightarrow>
   at_price p (place s x xs) = (if p = o_price x then at_price p xs @ [x] else at_price p xs)"
proof (induction xs)
  case (Cons y ys)
  have "at_price (o_price x) (y # ys) = []" if "\<not> better s (o_price y) (o_price x)"
    using that Cons.prems by (auto simp: filter_empty_conv dest: better_trans)
  with Cons show ?case by auto
qed simp

lemma price_sorted_const: "(\<And>x. x \<in> set xs \<Longrightarrow> o_price x = p) \<Longrightarrow> price_sorted s xs"
  by (induction xs) auto

lemma queue_price:
  "book_inv b \<Longrightarrow> ord \<in> set (map (\<lambda>x. strip (the (id_index b x))) (queues b s p)) \<Longrightarrow> o_price ord = p"
  using book_inv_order_at [of b _ s p] by (fastforce simp: order_at_def split: option.splits)

lemma resting_price_sorted:
  assumes inv: "book_inv b"
  shows "price_sorted s (resting s b)"
proof -
  let ?os = "\<lambda>q. map (\<lambda>x. strip (the (id_index b x))) q"
  note price = queue_price [OF inv, where s = s]
  have "price_sorted s (?os (concat (map (\<lambda>(p, _). queues b s p) m)))"
    if "sorted_wrt (if s then (>) else (<)) (map fst m)" for m
    using that
  proof (induction m)
    case (Cons k m)
    obtain p ptr where k: "k = (p, ptr)" by fastforce
    have "price_sorted s (?os (queues b s p))"
      by (rule price_sorted_const) (rule price)
    moreover have "better s (o_price x) (o_price y)"
      if "x \<in> set (?os (queues b s p))" "y \<in> set (?os (concat (map (\<lambda>(p, _). queues b s p) m)))" for x y
    proof -
      from that(2) obtain p' ptr' where "(p', ptr') \<in> set m" "y \<in> set (?os (queues b s p'))" by auto
      with Cons.prems k price that(1) show ?thesis by (fastforce simp: better_def split: if_splits)
    qed
    ultimately show ?case using Cons k by (simp add: price_sorted_def sorted_wrt_append)
  qed simp
  with book_inv_keys(2) [OF inv, of s] show ?thesis by (simp add: resting_def priority_ids_def)
qed

lemma at_price_resting:
  assumes inv: "book_inv b"
  shows "at_price p (resting s b) = map (\<lambda>x. the (aorders (abs_book b) x)) (aqueue (abs_book b) s p)"
proof -
  let ?os = "\<lambda>q. map (\<lambda>x. strip (the (id_index b x))) q"
  note price = queue_price [OF inv, where s = s]
  have "at_price p (?os (concat (map (\<lambda>(p, _). queues b s p) m))) =
      (if p \<in> fst ` set m then ?os (queues b s p) else [])" if "distinct (map fst m)" for m
    using that
  proof (induction m)
    case (Cons k m)
    have "at_price p (?os (queues b s (fst k))) = (if p = fst k then ?os (queues b s p) else [])"
      using price [of _ "fst k"] by (auto simp: filter_id_conv filter_empty_conv)
    with Cons show ?case by (auto simp: split_def)
  qed simp
  from this [OF book_inv_keys(1) [OF inv, of s]]
  have "at_price p (resting s b) = (if p \<in> fst ` set (ladder s b) then ?os (queues b s p) else [])"
    by (simp add: resting_def priority_ids_def)
  moreover have "queues b s p = []" if "p \<notin> fst ` set (ladder s b)"
    using that inv book_rel_None [of b "queues b" s p] by (simp add: book_inv_def map_of_eq_None_iff)
  moreover have "?os (queues b s p) = map (\<lambda>x. the (aorders (abs_book b) x)) (aqueue (abs_book b) s p)"
  proof -
    have "strip (the (id_index b x)) = the (aorders (abs_book b) x)" if "x \<in> set (queues b s p)" for x
      using book_inv_order_at [OF inv that] by (auto simp: abs_orders order_at_def split: option.splits)
    then show ?thesis by (simp add: abs_book_def)
  qed
  ultimately show ?thesis by auto
qed


section \<open>Inserting and cancelling\<close>

lemma resting_enqueue:
  assumes inv: "book_inv b" "book_inv b'" and enq: "abs_book b' = enqueue ord (abs_book b)"
    and new: "id_index b (o_id ord) = None"
  shows "resting s b' = (if s = is_buy ord then place s (strip ord) (resting s b) else resting s b)"
proof -
  have at: "at_price p (resting s b') =
      (if s = is_buy ord \<and> p = o_price ord then at_price p (resting s b) @ [strip ord] else at_price p (resting s b))" for p
  proof -
    have "x \<noteq> o_id ord" if "x \<in> set (queues b s p)" for x
      using book_inv_order_at [OF inv(1) that] new by (auto simp: order_at_def)
    then have "map (\<lambda>x. the (((aorders (abs_book b))(o_id ord \<mapsto> strip ord)) x)) (queues b s p) =
        map (\<lambda>x. the (aorders (abs_book b) x)) (queues b s p)" by (intro map_cong) auto
    then show ?thesis unfolding at_price_resting [OF inv(2)] at_price_resting [OF inv(1)] enq
      by (auto simp: enqueue_def abs_book_def)
  qed
  show ?thesis
  proof (rule price_sorted_unique [of s])
    show "price_sorted s (if s = is_buy ord then place s (strip ord) (resting s b) else resting s b)"
      using resting_price_sorted [OF inv(1)] by (simp add: price_sorted_place)
    show "at_price p (resting s b') = at_price p (if s = is_buy ord then place s (strip ord) (resting s b) else resting s b)" for p
      unfolding at using at_price_place [OF resting_price_sorted [OF inv(1), of s], of p "strip ord"] by auto
  qed (rule resting_price_sorted [OF inv(2)])
qed

lemma price_sorted_filter: "price_sorted s xs \<Longrightarrow> price_sorted s (filter P xs)"
  by (simp add: price_sorted_def sorted_wrt_filter)

lemma resting_dequeue:
  assumes inv: "book_inv b" "book_inv b'" and deq: "abs_book b' = dequeue (strip ord) (abs_book b)"
    and x: "id_index b x = Some ord"
  shows "resting s b' = filter (\<lambda>ro. o_id ro \<noteq> x) (resting s b)"
proof -
  from inv(1) have rel: "book_rel b (queues b)" by (simp add: book_inv_def)
  note ord = book_rel_index_ok [OF rel x]
  have ids: "o_id (the (aorders (abs_book b) y)) = y" if "y \<in> set (queues b s p)" for y s p
    using book_inv_order_at [OF inv(1) that] by (auto simp: order_at_def abs_orders split: option.splits)
  have at: "at_price p (resting s b') = filter (\<lambda>ro. o_id ro \<noteq> x) (at_price p (resting s b))" for p
  proof -
    have elsewhere: "x \<notin> set (queues b s p)" if "\<not> (s = is_buy ord \<and> p = o_price ord)"
      using that x book_inv_order_at [OF inv(1), of x s p] by (auto simp: order_at_def)
    have "distinct (queues b s p)"
      using book_rel_queueD [OF rel, of s p] by (cases "queues b s p = []") (auto simp: level_inv_def)
    then have "aqueue (abs_book b') s p = removeAll x (queues b s p)"
      using elsewhere ord deq by (auto simp: dequeue_def abs_book_def distinct_remove1_removeAll removeAll_id)
    moreover have "aorders (abs_book b') = (aorders (abs_book b))(x := None)"
      using ord deq by (simp add: dequeue_def)
    moreover have "filter (\<lambda>ro. o_id ro \<noteq> x) (map (\<lambda>y. the (aorders (abs_book b) y)) (queues b s p)) =
        map (\<lambda>y. the (aorders (abs_book b) y)) (removeAll x (queues b s p))"
      using ids by (auto simp: filter_map o_def removeAll_filter_not_eq intro!: map_cong filter_cong)
    ultimately show ?thesis
      unfolding at_price_resting [OF inv(2)] at_price_resting [OF inv(1)] by (simp add: abs_book_def)
  qed
  show ?thesis
  proof (rule price_sorted_unique [of s])
    show "price_sorted s (filter (\<lambda>ro. o_id ro \<noteq> x) (resting s b))"
      by (intro price_sorted_filter resting_price_sorted [OF inv(1)])
    show "at_price p (resting s b') = at_price p (filter (\<lambda>ro. o_id ro \<noteq> x) (resting s b))" for p
      unfolding at by (simp add: conj_commute)
  qed (rule resting_price_sorted [OF inv(2)])
qed

lemma OrderBook_insert_total:
  assumes inv: "book_inv b" and ok: "is_open ord" "queues b (\<not> is_buy ord) (o_price ord) = []"
  obtains b' where "OrderBook_insert (Some ord) b = Some (order_ok ord \<and> id_index b (o_id ord) = None, b')"
    "book_inv b'" "\<not> (order_ok ord \<and> id_index b (o_id ord) = None) \<Longrightarrow> b' = b"
    "\<And>s. resting s b' = (if order_ok ord \<and> id_index b (o_id ord) = None \<and> s = is_buy ord
       then place s (strip ord) (resting s b) else resting s b)"
proof (cases "order_ok ord \<and> id_index b (o_id ord) = None")
  case True
  from insert_simulation [OF inv ok, of undefined] obtain b' where
    b': "map_option snd (OrderBook_insert (Some ord) b) = Some b'" "book_inv b'"
      "abs_book b' = enqueue ord (abs_book b)"
    using True by (auto simp: book_step_def spec_step_def abs_orders)
  have "OrderBook_insert (Some ord) b = Some (True, b')"
    using b'(1) True by (auto simp: OrderBook_insert_def order_ok_def)
  then show thesis using True b' resting_enqueue [OF inv b'(2,3)] by (intro that [of b']) auto
next
  case False
  with ok(1) have "OrderBook_insert (Some ord) b = Some (False, b)"
    by (auto simp: OrderBook_insert_def order_ok_def)
  with False inv show thesis by (intro that [of b]) auto
qed

section \<open>Facts about the reference matcher\<close>

lemma fills_bounds:
  assumes "\<And>ro. ro \<in> set os \<Longrightarrow> 0 < qty (o_remaining ro)" "0 \<le> r"
  shows "0 \<le> filled_total (fills acc r os) \<and> filled_total (fills acc r os) \<le> r"
  using assms
proof (induction os arbitrary: r)
  case (Cons ro os)
  have "0 \<le> min r (qty (o_remaining ro))" using Cons.prems(1) [of ro] Cons.prems(2) by simp
  with Cons.IH [of "r - min r (qty (o_remaining ro))"] Cons.prems show ?case by (auto simp: Let_def)
qed simp

lemma left_over_stop:
  assumes "\<And>ro. ro \<in> set os \<Longrightarrow> 0 < qty (o_remaining ro)" "filled_total (fills acc r os) < r"
    and "left_over acc r os = ro # os'"
  shows "\<not> acc (o_price ro)"
  using assms
proof (induction os arbitrary: r)
  case (Cons a os)
  show ?case
  proof (cases "0 < r \<and> acc (o_price a) \<and> qty (o_remaining a) \<le> r")
    case True
    then have "min r (qty (o_remaining a)) = qty (o_remaining a)" by simp
    with True Cons.prems show ?thesis by (intro Cons.IH [of "r - qty (o_remaining a)"]) (auto simp: Let_def)
  next
    case False
    with Cons.prems show ?thesis by (auto simp: Let_def min_def split: if_splits)
  qed
qed simp

end
