(* ===== verification/Submission.thy ===== *)
theory Submission
  imports Matching
begin

text \<open>
  What a submission does, end to end: the trades and the result the sink is told, the books
  afterwards, and the invariant of the whole engine under any sequence of commands.
\<close>

section \<open>The engine as a machine\<close>

datatype EngineCommand =
    SubmitCmd Env "nat \<Rightarrow> int" "Order option"
  | CancelCmd InstrumentId OrderId
  | ModifyCmd InstrumentId OrderId Quantity Price
  | ReduceCmd InstrumentId OrderId Quantity
  | RegisterCmd InstrumentDescriptor
  | UnregisterCmd InstrumentId
  | SetGateCmd "RiskGate option"
  | ClearCmd

fun engine_step :: "EngineCommand \<Rightarrow> Engine \<Rightarrow> Engine option" where
  "engine_step (SubmitCmd env nows ord) e = map_option fst (submit env nows ord e)"
| "engine_step (CancelCmd i x) e = map_option snd (engine_cancel i x e)"
| "engine_step (ModifyCmd i x n p) e = map_option snd (engine_modify i x n p e)"
| "engine_step (ReduceCmd i x n) e = map_option snd (engine_reduce i x n e)"
| "engine_step (RegisterCmd d) e = Some (register_instrument d e)"
| "engine_step (UnregisterCmd i) e = Some (snd (unregister_instrument i e))"
| "engine_step (SetGateCmd g) e = Some (set_risk_gate g e)"
| "engine_step ClearCmd e = Some (engine_clear e)"

text \<open>
  The conditions under which the engine is safe to drive. An order is submitted open and with a
  64-bit remaining quantity; a modified order must not meet the other side of its book, since
  \<^verbatim>\<open>modify\<close> does not match; and freed orders keep their price long enough.
\<close>

fun engine_cmd_ok :: "EngineCommand \<Rightarrow> Engine \<Rightarrow> bool" where
  "engine_cmd_ok (SubmitCmd env nows order) e \<longleftrightarrow> freed_price_intact env \<and>
     (case order of None \<Rightarrow> True | Some ord \<Rightarrow> is_open ord \<and> in_i64 (qty (o_remaining ord)))"
| "engine_cmd_ok (ModifyCmd i x n p) e \<longleftrightarrow>
     (case books e i of None \<Rightarrow> True
      | Some b \<Rightarrow> (case id_index b x of None \<Rightarrow> True
         | Some ord \<Rightarrow> \<forall>ro \<in> set (resting (\<not> is_buy ord) b). \<not> crosses (o_side ord) p (o_price ro)))"
| "engine_cmd_ok _ e \<longleftrightarrow> True"

definition book_ok :: "OrderBook \<Rightarrow> bool" where
  "book_ok b \<longleftrightarrow> book_inv b \<and> uncrossed b"

definition engine_ok :: "Engine \<Rightarrow> bool" where
  "engine_ok e \<longleftrightarrow> (\<forall>i b. books e i = Some b \<longrightarrow> book_ok b)"

definition with_id :: "Order \<Rightarrow> Engine \<Rightarrow> Order" where
  "with_id ord e = (if o_id ord = kInvalidOrderId then ord\<lparr>o_id := next_sequence e\<rparr> else ord)"

definition valid_submission :: "Order \<Rightarrow> Engine \<Rightarrow> bool" where
  "valid_submission ord e \<longleftrightarrow> o_instrument_id ord \<noteq> kInvalidInstrumentId \<and>
     Quantity_is_valid (o_quantity ord) \<and> 0 < qty (o_remaining ord) \<and>
     (is_limit ord \<longrightarrow> Price_is_valid (o_price ord)) \<and> books e (o_instrument_id ord) \<noteq> None"

text \<open>
  A submission that passes validation and the risk gate, and the taker it puts to the matcher.
\<close>

definition admitted :: "(nat \<Rightarrow> int) \<Rightarrow> Order \<Rightarrow> Engine \<Rightarrow> bool" where
  "admitted nows ord e \<longleftrightarrow> valid_submission ord e \<and> is_open ord \<and> in_i64 (qty (o_remaining ord)) \<and>
     RiskDecision_ok (fst (consult_gate nows (with_id ord e) e))"

definition taker_of :: "Order \<Rightarrow> Engine \<Rightarrow> Order" where
  "taker_of ord e = sequenced (with_id ord e) e"

definition traded :: "Trade list \<Rightarrow> int" where
  "traded ts = sum_list (map (\<lambda>t. qty (t_quantity t)) ts)"

text \<open>
  The sink calls made while matching: every trade is of the instrument, the engine at each call
  differs from the one before the submission in that book only, and the last call sees the final book.
\<close>

definition callbacks_ok :: "InstrumentId \<Rightarrow> OrderBook \<Rightarrow> OrderBook \<Rightarrow> Engine \<Rightarrow> SinkTrace \<Rightarrow> bool" where
  "callbacks_ok i b b' e trace \<longleftrightarrow>
     (\<forall>(a, en) \<in> set trace. \<exists>t bi. a = OnTrade t \<and> t_instrument_id t = i \<and>
        books en = (books e)(i \<mapsto> bi) \<and> book_inv bi) \<and>
     (if trace = [] then b' = b else books (snd (last trace)) i = Some b')"

section \<open>The end of a submission\<close>

lemma index_resting:
  assumes inv: "book_inv b"
  shows "id_index b x = None \<longleftrightarrow> x \<notin> o_id ` (set (resting True b) \<union> set (resting False b))"
proof (cases "id_index b x")
  case None
  have "o_id ro \<noteq> x" if "ro \<in> set (resting t b)" for ro t
    using resting_ok(3) [OF inv that] None by auto
  with None show ?thesis by auto
next
  case (Some ord)
  then have "strip ord \<in> set (resting (is_buy ord) b)" using set_resting [OF inv] by auto
  moreover have "o_id ord = x"
    using book_rel_index_ok(2) [of b "queues b", OF _ Some] inv by (simp add: book_inv_def)
  ultimately have "x \<in> o_id ` set (resting (is_buy ord) b)" by (metis image_eqI strip_simps(1))
  with Some show ?thesis by (cases "is_buy ord") auto
qed

lemma queue_empty_if_unacceptable:
  assumes inv: "book_inv b" and "is_limit tk"
    and no: "\<And>ro. ro \<in> set (resting (\<not> is_buy tk) b) \<Longrightarrow> \<not> acceptable_to tk (o_price ro)"
  shows "queues b (\<not> is_buy tk) (o_price tk) = []"
proof (rule ccontr)
  assume "queues b (\<not> is_buy tk) (o_price tk) \<noteq> []"
  then have "at_price (o_price tk) (resting (\<not> is_buy tk) b) \<noteq> []"
    by (simp add: at_price_resting [OF inv] abs_book_def)
  then obtain ro where "ro \<in> set (resting (\<not> is_buy tk) b)" "o_price ro = o_price tk"
    by (auto simp: filter_empty_conv)
  with no [of ro] show False by (simp add: acceptable_to_def crosses_def)
qed

lemma finish_submit_spec:
  fixes tk :: Order
  defines "s \<equiv> is_buy tk"
  assumes inv: "book_inv b" and b: "books e (o_instrument_id tk) = Some b"
    and tk: "is_open tk" "0 < qty (o_remaining tk)"
    and no: "\<And>ro. ro \<in> set (resting (\<not> s) b) \<Longrightarrow> \<not> acceptable_to tk (o_price ro)"
  shows "\<exists>b'. finish_submit r True tk e =
      Some (outcome r tk (comes_to_rest tk (resting s b) (resting (\<not> s) b)),
            e\<lparr>books := (books e)(o_instrument_id tk \<mapsto> b')\<rparr>) \<and> book_inv b' \<and>
    (\<not> comes_to_rest tk (resting s b) (resting (\<not> s) b) \<longrightarrow> b' = b) \<and>
    resting (\<not> s) b' = resting (\<not> s) b \<and>
    resting s b' = (if comes_to_rest tk (resting s b) (resting (\<not> s) b)
                    then place s (strip tk) (resting s b) else resting s b)"
proof (cases "is_limit tk \<and> o_tif tk \<noteq> IOC")
  case True
  have "queues b (\<not> is_buy tk) (o_price tk) = []"
    using queue_empty_if_unacceptable [OF inv] no True by (simp add: s_def)
  from OrderBook_insert_total [OF inv tk(1) this] obtain b' where
    b': "OrderBook_insert (Some tk) b = Some (order_ok tk \<and> id_index b (o_id tk) = None, b')"
      "book_inv b'" "\<not> (order_ok tk \<and> id_index b (o_id tk) = None) \<Longrightarrow> b' = b" and
    rest: "\<And>t. resting t b' = (if order_ok tk \<and> id_index b (o_id tk) = None \<and> t = is_buy tk
       then place t (strip tk) (resting t b) else resting t b)" by metis
  have c: "comes_to_rest tk (resting (is_buy tk) b) (resting (\<not> is_buy tk) b) \<longleftrightarrow> order_ok tk \<and> id_index b (o_id tk) = None"
    using True tk index_resting [OF inv] by (cases "is_buy tk") (auto simp: comes_to_rest_def)
  show ?thesis
    using True tk b b' rest unfolding s_def
    by (intro exI [of _ b']) (auto simp: c finish_submit_def outcome_def book_def is_limit_is_market)
next
  case False
  then have "\<not> comes_to_rest tk (resting s b) (resting (\<not> s) b)" by (auto simp: comes_to_rest_def)
  with False tk b inv show ?thesis
    by (intro exI [of _ b]) (auto simp: finish_submit_def outcome_def is_limit_is_market Let_def fun_upd_idem)
qed


section \<open>An accepted submission\<close>

lemma collect_trades: "fold CollectingSink_on (map OnTrade ts) s = s\<lparr>cs_trades := cs_trades s @ ts\<rparr>"
  by (induction ts arbitrary: s) simp_all

lemma collect_submission:
  assumes "map fst trace = map OnTrade ts @ [OnSubmitResult r]"
  shows "collect trace = \<lparr>cs_trades = ts, cs_results = [r]\<rparr>"
  by (simp add: collect_def assms collect_trades)

lemma matched_simps [simp]:
  "is_buy (matched ord b) = is_buy ord" "is_limit (matched ord b) = is_limit ord" "is_open (matched ord b) = is_open ord"
  "o_instrument_id (matched ord b) = o_instrument_id ord" "o_id (matched ord b) = o_id ord"
  "acceptable_to (matched ord b) = acceptable_to ord" "o_tif (matched ord b) = o_tif ord"
  by (simp_all add: matched_def domain_defs)

lemma trades_of_instrument: "t \<in> set (trades_of env taker tid fs) \<Longrightarrow> t_instrument_id t = o_instrument_id taker"
  by (induction fs arbitrary: tid) (auto simp: trade_of_def make_trade_def Let_def split: prod.splits)

lemma match_against_spec:
  assumes inv: "book_inv b" and b: "books e (o_instrument_id taker) = Some b"
    and env: "freed_price_intact env" and rem: "in_i64 (qty (o_remaining taker))"
  shows "\<exists>b' trace. match_against env taker e =
      Some (0 < qty (o_remaining (matched taker b)), matched taker b,
            put_book (o_instrument_id taker) b' (next_sequence e + of_nat (length (taker_fills taker b))) e, trace) \<and>
    map fst trace = map OnTrade (trades_of env taker (next_sequence e) (taker_fills taker b)) \<and>
    callbacks_ok (o_instrument_id taker) b b' e trace \<and>
    book_inv b' \<and> resting (is_buy taker) b' = resting (is_buy taker) b \<and>
    resting (\<not> is_buy taker) b' = other_side_left taker b"
proof -
  let ?i = "o_instrument_id taker"
  from match_loop_fills [OF inv env rem, of "next_sequence e"] obtain b' ts where
    loop: "match_loop env taker b (next_sequence e) =
      Some (matched taker b, b', next_sequence e + of_nat (length (taker_fills taker b)), ts)" and
    ts: "map fst ts = trades_of env taker (next_sequence e) (taker_fills taker b)" "\<forall>(t, bi, si) \<in> set ts. book_inv bi"
      "b' = (if ts = [] then b else fst (snd (last ts)))" and
    b': "book_inv b'" "resting (is_buy taker) b' = resting (is_buy taker) b"
      "resting (\<not> is_buy taker) b' = other_side_left taker b"
    unfolding matched_def taker_fills_def other_side_left_def by blast
  let ?trace = "map (\<lambda>(t, bi, si). (OnTrade t, put_book ?i bi si e)) ts"
  have fst: "map fst ?trace = map OnTrade (map fst ts)" by (simp add: split_def)
  have "t_instrument_id t = ?i" if "t \<in> set (map fst ts)" for t
    using trades_of_instrument that unfolding ts(1) by blast
  then have "callbacks_ok ?i b b' e ?trace"
    using ts(2,3) by (fastforce simp: callbacks_ok_def put_book_def last_map split_def)
  with loop b b' ts(1) fst show ?thesis by (auto simp: match_against_def book_def Let_def simp del: map_map)
qed

text \<open>When the taker is not satisfied, nothing acceptable is left on the other side.\<close>

lemma other_side_unacceptable:
  assumes inv: "book_inv b" "book_inv b'" and left: "resting (\<not> is_buy taker) b' = other_side_left taker b"
    and "0 < qty (o_remaining (matched taker b))" and ro: "ro \<in> set (resting (\<not> is_buy taker) b')"
  shows "\<not> acceptable_to taker (o_price ro)"
proof -
  from ro obtain ro1 os where os: "resting (\<not> is_buy taker) b' = ro1 # os" by (cases "resting (\<not> is_buy taker) b'") auto
  have "\<not> acceptable_to taker (o_price ro1)"
    using assms(4) left os resting_ok(1) [OF inv(1)]
    by (intro left_over_stop [of "resting (\<not> is_buy taker) b" _ _ ro1 os])
      (auto simp: matched_def taker_fills_def other_side_left_def order_ok_rem)
  moreover have "better (\<not> is_buy taker) (o_price ro1) (o_price ro)"
    using resting_price_sorted [OF inv(2), of "\<not> is_buy taker"] ro os by auto
  ultimately show ?thesis by (auto simp: acceptable_to_def crosses_def better_def is_buy_def split: if_splits)
qed

lemma outcome_unrested:
  "sr_status (outcome r tk (comes_to_rest tk own other)) \<in> {Rejected, Cancelled} \<Longrightarrow> \<not> comes_to_rest tk own other"
  by (auto simp: outcome_def comes_to_rest_def is_limit_is_market split: if_splits)

lemma outcome_instrument: "sr_instrument_id (outcome (result_header tk r) x y) = sr_instrument_id r"
  by (simp add: outcome_def result_header_def)

lemma finish_matched:
  fixes taker :: Order and b :: OrderBook
  defines "s \<equiv> is_buy taker" and "left \<equiv> matched taker b"
  defines "rests \<equiv> comes_to_rest left (resting s b) (other_side_left taker b)"
  assumes inv: "book_inv b" "book_inv b1" and tk: "is_open taker"
    and sides: "resting s b1 = resting s b" "resting (\<not> s) b1 = other_side_left taker b"
    and here: "books e (o_instrument_id taker) = Some b1"
  shows "\<exists>b'. finish_submit r (0 < qty (o_remaining left)) left e =
      Some (outcome r left rests, e\<lparr>books := (books e)(o_instrument_id taker \<mapsto> b')\<rparr>) \<and>
    book_inv b' \<and> (\<not> rests \<longrightarrow> b' = b1) \<and> resting (\<not> s) b' = other_side_left taker b \<and>
    resting s b' = (if rests then place s (strip left) (resting s b) else resting s b)"
proof (cases "0 < qty (o_remaining left)")
  case False
  moreover from here have "e\<lparr>books := (books e)(o_instrument_id taker \<mapsto> b1)\<rparr> = e" by (simp add: map_upd_triv)
  ultimately show ?thesis using inv sides
    by (intro exI [of _ b1]) (auto simp: finish_submit_def outcome_def rests_def comes_to_rest_def)
next
  case True
  have "\<not> acceptable_to left (o_price ro)" if "ro \<in> set (resting (\<not> is_buy left) b1)" for ro
    using other_side_unacceptable [OF inv] True that sides by (simp add: s_def left_def)
  from finish_submit_spec [OF inv(2) _ _ _ this, of e r, unfolded left_def matched_simps] tk here True sides show ?thesis
    by (auto simp: s_def left_def rests_def)
qed

lemma accept_submit_spec:
  fixes ord :: Order and e :: Engine and r0 :: SubmitResult
  defines "taker \<equiv> sequenced ord e" and "s \<equiv> is_buy ord"
  assumes inv: "book_inv b" and b: "books e (o_instrument_id ord) = Some b" and env: "freed_price_intact env"
    and ord: "is_open ord" "in_i64 (qty (o_remaining ord))"
  shows "\<exists>e' trace b'. accept_submit env r0 ord e = Some (e', trace) \<and>
    collect trace = \<lparr>cs_trades = trades_of env taker (next_sequence e + 1) (taker_fills taker b),
      cs_results = [outcome (result_header taker r0) (matched taker b)
                      (comes_to_rest (matched taker b) (resting s b) (other_side_left taker b))]\<rparr> \<and>
    (\<exists>trades r b1. trace = trades @ [(OnSubmitResult r, e')] \<and> sr_instrument_id r = sr_instrument_id r0 \<and>
       callbacks_ok (o_instrument_id ord) b b1 e trades \<and> (sr_status r \<in> {Rejected, Cancelled} \<longrightarrow> b' = b1)) \<and>
    e' = e\<lparr>books := (books e)(o_instrument_id ord \<mapsto> b'),
           next_sequence := next_sequence e + 1 + of_nat (length (taker_fills taker b))\<rparr> \<and>
    book_inv b' \<and> resting (\<not> s) b' = other_side_left taker b \<and>
    resting s b' = (if comes_to_rest (matched taker b) (resting s b) (other_side_left taker b)
                    then place s (strip (matched taker b)) (resting s b) else resting s b)"
proof -
  let ?e1 = "e\<lparr>next_sequence := next_sequence e + 1\<rparr>"
  have tk: "is_buy taker = s" "is_open taker" "o_instrument_id taker = o_instrument_id ord"
    "in_i64 (qty (o_remaining taker))"
    using ord by (simp_all add: taker_def sequenced_def s_def domain_defs)
  have b1: "books ?e1 (o_instrument_id taker) = Some b" using b tk by simp
  from match_against_spec [OF inv b1 env tk(4)] obtain b1 trace where
    m: "match_against env taker ?e1 =
      Some (0 < qty (o_remaining (matched taker b)), matched taker b,
            put_book (o_instrument_id ord) b1 (next_sequence e + 1 + of_nat (length (taker_fills taker b))) ?e1, trace)" and
    tr: "map fst trace = map OnTrade (trades_of env taker (next_sequence e + 1) (taker_fills taker b))" and
    cb: "callbacks_ok (o_instrument_id ord) b b1 ?e1 trace" and
    b1: "book_inv b1" "resting s b1 = resting s b" "resting (\<not> s) b1 = other_side_left taker b"
    unfolding tk by auto
  let ?e2 = "put_book (o_instrument_id ord) b1 (next_sequence e + 1 + of_nat (length (taker_fills taker b))) ?e1"
  let ?rest = "comes_to_rest (matched taker b) (resting s b) (other_side_left taker b)"
  have here: "books ?e2 (o_instrument_id taker) = Some b1" by (simp add: put_book_def tk)
  from finish_matched [OF inv b1(1) tk(2) _ _ here, unfolded tk, OF b1(2,3), of "result_header taker r0"] obtain b' where
    fin: "finish_submit (result_header taker r0) (0 < qty (o_remaining (matched taker b))) (matched taker b) ?e2 =
      Some (outcome (result_header taker r0) (matched taker b) ?rest,
            ?e2\<lparr>books := (books ?e2)(o_instrument_id ord \<mapsto> b')\<rparr>)" and
    b': "book_inv b'" "\<not> ?rest \<Longrightarrow> b' = b1" "resting (\<not> s) b' = other_side_left taker b"
      "resting s b' = (if ?rest then place s (strip (matched taker b)) (resting s b) else resting s b)"
    by blast
  let ?e3 = "?e2\<lparr>books := (books ?e2)(o_instrument_id ord \<mapsto> b')\<rparr>"
  let ?r = "outcome (result_header taker r0) (matched taker b) ?rest"
  have sub: "accept_submit env r0 ord e = Some (?e3, trace @ [(OnSubmitResult ?r, ?e3)])"
    using m fin by (simp add: accept_submit_def taker_def Let_def)
  have col: "collect (trace @ [(OnSubmitResult ?r, ?e3)]) =
      \<lparr>cs_trades = trades_of env taker (next_sequence e + 1) (taker_fills taker b), cs_results = [?r]\<rparr>"
    by (rule collect_submission) (simp add: tr)
  have shape: "\<exists>trades r b1. trace @ [(OnSubmitResult ?r, ?e3)] = trades @ [(OnSubmitResult r, ?e3)] \<and>
      sr_instrument_id r = sr_instrument_id r0 \<and> callbacks_ok (o_instrument_id ord) b b1 e trades \<and>
      (sr_status r \<in> {Rejected, Cancelled} \<longrightarrow> b' = b1)"
    using cb b'(2) outcome_unrested [of "result_header taker r0" "matched taker b" "resting s b" "other_side_left taker b"]
    by (intro exI [of _ trace] exI [of _ ?r] exI [of _ b1]) (auto simp: callbacks_ok_def outcome_instrument)
  show ?thesis
    by (rule exI [of _ ?e3], rule exI [of _ "trace @ [(OnSubmitResult ?r, ?e3)]"], rule exI [of _ b'],
        intro conjI, rule sub, rule col, rule shape) (use b' in \<open>auto simp: put_book_def\<close>)
qed

section \<open>Uncrossed books\<close>

lemma uncrossed_iff:
  assumes "book_inv b"
  shows "uncrossed b \<longleftrightarrow> (\<forall>x y bo so. aorders (abs_book b) x = Some bo \<longrightarrow> aorders (abs_book b) y = Some so \<longrightarrow>
    is_buy bo \<longrightarrow> \<not> is_buy so \<longrightarrow> o_price bo < o_price so)"
  unfolding uncrossed_def set_resting [OF assms] abs_orders by (auto; metis strip_simps(2,3))

lemma uncrossed_resting:
  "uncrossed b \<longleftrightarrow> (\<forall>a \<in> set (resting s b). \<forall>c \<in> set (resting (\<not> s) b).
     if s then o_price a < o_price c else o_price c < o_price a)"
  by (cases s) (auto simp: uncrossed_def)

lemma left_over_prices: "o_price ` set (left_over acc r os) \<subseteq> o_price ` set os"
  by (induction os arbitrary: r) (auto simp: image_subset_iff)

lemma uncrossed_unacceptable:
  "is_limit tk \<Longrightarrow> \<not> acceptable_to tk p \<longleftrightarrow> (if is_buy tk then o_price tk < p else p < o_price tk)"
  by (auto simp: acceptable_to_def crosses_def is_buy_def)

lemma accept_submit_uncrossed:
  assumes inv: "book_inv b" "book_inv b'" and un: "uncrossed b"
    and opp: "resting (\<not> is_buy taker) b' = other_side_left taker b"
    and own: "resting (is_buy taker) b' = (if comes_to_rest (matched taker b) (resting (is_buy taker) b) (other_side_left taker b)
       then place (is_buy taker) (strip (matched taker b)) (resting (is_buy taker) b) else resting (is_buy taker) b)"
  shows "uncrossed b'"
proof -
  let ?s = "is_buy taker"
  have old: "if ?s then o_price a < o_price c else o_price c < o_price a"
    if "a \<in> set (resting ?s b)" "c \<in> set (resting (\<not> ?s) b')" for a c
  proof -
    from that(2) left_over_prices have "o_price c \<in> o_price ` set (resting (\<not> ?s) b)"
      unfolding opp other_side_left_def by blast
    with un that(1) show ?thesis unfolding uncrossed_resting [of b ?s] by auto
  qed
  have new: "if ?s then o_price taker < o_price c else o_price c < o_price taker"
    if "comes_to_rest (matched taker b) (resting ?s b) (other_side_left taker b)"
      "c \<in> set (resting (\<not> ?s) b')" for c
  proof -
    from that(1) have "is_limit taker" "0 < qty (o_remaining (matched taker b))" by (auto simp: comes_to_rest_def)
    with other_side_unacceptable [OF inv opp _ that(2)] show ?thesis by (simp add: uncrossed_unacceptable)
  qed
  have "o_price (matched taker b) = o_price taker" by (simp add: matched_def)
  with old new show ?thesis unfolding uncrossed_resting [of b' ?s] own by auto
qed

section \<open>Submission step by step\<close>

lemma submit_valid:
  assumes v: "valid_submission ord0 e"
  defines "ord \<equiv> with_id ord0 e"
  shows "submit env nows (Some ord0) e =
    (let r = SubmitResult_init\<lparr>sr_order_id := o_id ord, sr_instrument_id := o_instrument_id ord\<rparr>;
         (d, e1) = consult_gate nows ord e
     in if RiskDecision_ok d then accept_submit env r ord e1 else reject r (''risk: '' @ rd_reason d) e1)"
  using v by (auto simp: submit_def valid_submission_def ord_def with_id_def book_def is_limit_def Let_def split: prod.splits)

lemma submit_invalid:
  assumes "\<not> valid_submission ord0 e"
  shows "\<exists>r. submit env nows (Some ord0) e = Some (e, [(OnSubmitResult r, e)]) \<and> sr_status r = Rejected"
  using assms by (auto simp: submit_def valid_submission_def reject_def book_def is_limit_def Let_def)

lemma consult_gate_frame:
  "consult_gate nows ord e = (d, e1) \<Longrightarrow> books e1 = books e \<and> descriptors e1 = descriptors e \<and> next_sequence e1 = next_sequence e"
  by (auto simp: consult_gate_def split: option.splits prod.splits)

lemma with_id_simps [simp]:
  "is_buy (with_id ord e) = is_buy ord" "is_open (with_id ord e) = is_open ord" "is_limit (with_id ord e) = is_limit ord"
  "o_instrument_id (with_id ord e) = o_instrument_id ord" "o_remaining (with_id ord e) = o_remaining ord"
  "o_quantity (with_id ord e) = o_quantity ord" "o_price (with_id ord e) = o_price ord" "o_side (with_id ord e) = o_side ord"
  "o_tif (with_id ord e) = o_tif ord" "o_type (with_id ord e) = o_type ord"
  by (simp_all add: with_id_def domain_defs)

lemma sequenced_simps [simp]:
  "is_buy (sequenced ord e) = is_buy ord" "is_open (sequenced ord e) = is_open ord" "is_limit (sequenced ord e) = is_limit ord"
  "o_instrument_id (sequenced ord e) = o_instrument_id ord" "o_remaining (sequenced ord e) = o_remaining ord"
  "o_id (sequenced ord e) = o_id ord" "acceptable_to (sequenced ord e) = acceptable_to ord"
  by (simp_all add: sequenced_def domain_defs acceptable_to_def fun_eq_iff)

lemma submit_engine_ok:
  assumes inv: "engine_ok e" and ok: "engine_cmd_ok (SubmitCmd env nows order) e"
  shows "\<exists>e' trace. submit env nows order e = Some (e', trace) \<and> engine_ok e'"
proof (cases order)
  case None
  then show ?thesis using inv by (simp add: submit_def reject_def)
next
  case (Some ord0)
  show ?thesis
  proof (cases "valid_submission ord0 e")
    case False
    with submit_invalid inv Some show ?thesis by blast
  next
    case True
    let ?ord = "with_id ord0 e"
    let ?r = "SubmitResult_init\<lparr>sr_order_id := o_id ?ord, sr_instrument_id := o_instrument_id ?ord\<rparr>"
    obtain d e1 where d: "consult_gate nows ?ord e = (d, e1)" by fastforce
    note frame = consult_gate_frame [OF d]
    show ?thesis
    proof (cases "RiskDecision_ok d")
      case False
      then show ?thesis using inv frame by (simp add: Some submit_valid [OF True] d reject_def engine_ok_def)
    next
      case acc: True
      from True obtain b where b: "books e1 (o_instrument_id ?ord) = Some b" using frame by (auto simp: valid_submission_def)
      then have binv: "book_inv b" "uncrossed b" using inv frame by (auto simp: engine_ok_def book_ok_def)
      from accept_submit_spec [OF binv(1) b, of env ?r] ok obtain e' trace b' where
        s: "accept_submit env ?r ?ord e1 = Some (e', trace)"
          "books e' = (books e1)(o_instrument_id ?ord \<mapsto> b')" "book_inv b'" and
        rest: "resting (\<not> is_buy (sequenced ?ord e1)) b' = other_side_left (sequenced ?ord e1) b"
          "resting (is_buy (sequenced ?ord e1)) b' =
            (if comes_to_rest (matched (sequenced ?ord e1) b) (resting (is_buy (sequenced ?ord e1)) b) (other_side_left (sequenced ?ord e1) b)
             then place (is_buy (sequenced ?ord e1)) (strip (matched (sequenced ?ord e1) b)) (resting (is_buy (sequenced ?ord e1)) b)
             else resting (is_buy (sequenced ?ord e1)) b)"
        by (auto simp: Some)
      have "uncrossed b'" by (rule accept_submit_uncrossed [OF binv(1) s(3) binv(2) rest])
      with s inv frame have "engine_ok e'" by (auto simp: engine_ok_def book_ok_def)
      then show ?thesis using acc s by (auto simp: Some submit_valid [OF True] d)
    qed
  qed
qed


section \<open>The other commands\<close>

text \<open>A command that gives no order a price at which it meets the other side.\<close>

lemma uncrossed_update:
  assumes inv: "book_inv b" "book_inv b'" and un: "uncrossed b"
    and old: "\<And>y ord'. aorders (abs_book b') y = Some ord' \<Longrightarrow> y \<noteq> x \<Longrightarrow> aorders (abs_book b) y = Some ord'"
    and new: "\<And>ord'. aorders (abs_book b') x = Some ord' \<Longrightarrow>
      (\<exists>ord. aorders (abs_book b) x = Some ord \<and> is_buy ord' = is_buy ord \<and>
        (o_price ord' = o_price ord \<or>
         (\<forall>y c. aorders (abs_book b) y = Some c \<longrightarrow> is_buy c \<noteq> is_buy ord \<longrightarrow> \<not> crosses (o_side ord) (o_price ord') (o_price c))))"
  shows "uncrossed b'"
  unfolding uncrossed_iff [OF inv(2)]
proof (intro allI impI)
  fix y z bo so
  assume y: "aorders (abs_book b') y = Some bo" and z: "aorders (abs_book b') z = Some so"
    and side: "is_buy bo" "\<not> is_buy so"
  note un = un [unfolded uncrossed_iff [OF inv(1)], rule_format]
  consider "y = x" "z \<noteq> x" | "z = x" "y \<noteq> x" | "y \<noteq> x" "z \<noteq> x"
    using y z side by fastforce
  then show "o_price bo < o_price so"
  proof cases
    case 1
    with new [of bo] old [OF z] y side un show ?thesis
      by (auto simp: crosses_def is_buy_def not_le)
  next
    case 2
    with new [of so] old [OF y] z side un show ?thesis
      by (auto simp: crosses_def is_buy_def not_le)
  next
    case 3
    with un old [OF y] old [OF z] side show ?thesis by blast
  qed
qed

lemma aorders_resting:
  assumes inv: "book_inv b" and y: "aorders (abs_book b) y = Some c"
  shows "c \<in> set (resting (is_buy c) b)" "o_id c = y"
proof -
  from y obtain ord where ord: "id_index b y = Some ord" "c = strip ord" by (auto simp: abs_orders)
  then show "c \<in> set (resting (is_buy c) b)" using set_resting [OF inv] by auto
  show "o_id c = y" using book_rel_index_ok(2) [of b "queues b", OF _ ord(1)] inv ord(2) by (simp add: book_inv_def)
qed

lemma queue_empty_if_uncrossing:
  assumes inv: "book_inv b" and no: "\<forall>ro \<in> set (resting (\<not> is_buy ord) b). \<not> crosses (o_side ord) p (o_price ro)"
  shows "queues b (\<not> is_buy ord) p = []"
proof (rule ccontr)
  assume "queues b (\<not> is_buy ord) p \<noteq> []"
  then have "at_price p (resting (\<not> is_buy ord) b) \<noteq> []" by (simp add: at_price_resting [OF inv] abs_book_def)
  then obtain ro where "ro \<in> set (resting (\<not> is_buy ord) b)" "o_price ro = p" by (auto simp: filter_empty_conv)
  with no show False by (force simp: crosses_def)
qed

lemma strip_side [simp]: "o_side (strip ord) = o_side ord"
  by (simp add: strip_def)

lemma cancel_book_ok:
  assumes "book_ok b" shows "\<exists>r b'. OrderBook_cancel x b = Some (r, b') \<and> book_ok b'"
proof -
  from assms have inv: "book_inv b" and un: "uncrossed b" by (simp_all add: book_ok_def)
  from cancel_simulation [OF inv, of undefined x] obtain b' where
    b': "map_option snd (OrderBook_cancel x b) = Some b'" "book_inv b'" "abs_book b' = spec_step (CancelOrder x) (abs_book b)"
    by (auto simp: book_step_def)
  have "aorders (abs_book b') y = Some ord' \<Longrightarrow> aorders (abs_book b) y = Some ord'" for y ord'
    using b'(3) by (auto simp: spec_step_def dequeue_def split: option.splits if_splits)
  then have "uncrossed b'" using un unfolding uncrossed_iff [OF inv] uncrossed_iff [OF b'(2)] by blast
  with b' show ?thesis by (auto simp: book_ok_def)
qed

lemma reduce_book_ok:
  assumes "book_ok b" shows "\<exists>r b'. OrderBook_reduce x n b = Some (r, b') \<and> book_ok b'"
proof -
  from assms have inv: "book_inv b" and un: "uncrossed b" by (simp_all add: book_ok_def)
  from reduce_simulation [OF inv, of undefined x n] obtain b' where
    b': "map_option snd (OrderBook_reduce x n b) = Some b'" "book_inv b'" "abs_book b' = spec_step (ReduceOrder x n) (abs_book b)"
    by (auto simp: book_step_def)
  have "uncrossed b'"
    by (rule uncrossed_update [OF inv b'(2) un, of x])
      (auto simp: b'(3) spec_step_def split: option.splits if_splits)
  with b' show ?thesis by (auto simp: book_ok_def)
qed

lemma modify_book_ok:
  assumes "book_ok b"
    and ok: "\<And>ord. id_index b x = Some ord \<Longrightarrow> \<forall>ro \<in> set (resting (\<not> is_buy ord) b). \<not> crosses (o_side ord) p (o_price ro)"
  shows "\<exists>r b'. OrderBook_modify x n p b = Some (r, b') \<and> book_ok b'"
proof -
  from assms have inv: "book_inv b" and un: "uncrossed b" by (simp_all add: book_ok_def)
  from modify_simulation [OF inv, of x p undefined n] queue_empty_if_uncrossing [OF inv ok] obtain b' where
    b': "map_option snd (OrderBook_modify x n p b) = Some b'" "book_inv b'" "abs_book b' = spec_step (ModifyOrder x n p) (abs_book b)"
    by (auto simp: book_step_def)
  have far: "\<not> crosses (o_side ord) p (o_price c)"
    if "id_index b x = Some ord" "aorders (abs_book b) y = Some c" "is_buy c \<noteq> is_buy ord" for ord y c
    using ok [OF that(1)] aorders_resting(1) [OF inv that(2)] that(3) by (cases "is_buy ord") auto
  have "uncrossed b'"
  proof (cases "aorders (abs_book b) x")
    case None
    then have "abs_book b' = abs_book b" using b'(3) by (simp add: spec_step_def)
    then show ?thesis using un uncrossed_iff [OF inv] uncrossed_iff [OF b'(2)] by simp
  next
    case (Some ord)
    have id: "o_id ord = x" by (rule aorders_resting(2) [OF inv Some])
    have far': "\<not> crosses (o_side ord) p (o_price c)" if "aorders (abs_book b) y = Some c" "is_buy c \<noteq> is_buy ord" for y c
    proof -
      from Some obtain ord1 where "id_index b x = Some ord1" "ord = strip ord1" by (auto simp: abs_orders)
      with far [OF this(1) that(1)] that(2) show ?thesis by simp
    qed
    show ?thesis
      by (rule uncrossed_update [OF inv b'(2) un, of x])
        (use far' in \<open>auto simp: b'(3) spec_step_def Some id enqueue_def dequeue_def replaced_def reduced_def is_buy_def split: if_splits\<close>)
  qed
  with b' show ?thesis by (auto simp: book_ok_def)
qed


lemma on_book_ok:
  assumes inv: "engine_ok e" and f: "\<And>b. books e i = Some b \<Longrightarrow> book_ok b \<Longrightarrow> \<exists>r b'. f b = Some (r, b') \<and> book_ok b'"
  shows "\<exists>e'. map_option snd (on_book i absent f e) = Some e' \<and> engine_ok e'"
proof (cases "books e i")
  case None
  with inv show ?thesis by (simp add: on_book_def book_def)
next
  case (Some b)
  with inv have "book_ok b" by (auto simp: engine_ok_def)
  with f [OF Some] obtain r b' where "f b = Some (r, b')" "book_ok b'" by blast
  with Some inv show ?thesis by (simp add: on_book_def book_def engine_ok_def)
qed

lemma book_ok_new: "book_ok (new_OrderBook i)"
  using book_inv_new [of i]
  by (simp add: book_ok_def uncrossed_def resting_def priority_ids_def new_OrderBook_def ladder_def)

interpretation engine: guarded_machine engine_step engine_cmd_ok engine_ok
proof
  fix e c
  assume inv: "engine_ok e" and ok: "engine_cmd_ok c e"
  show "\<exists>e'. engine_step c e = Some e' \<and> engine_ok e'"
  proof (cases c)
    case (SubmitCmd env nows order)
    with submit_engine_ok [OF inv] ok show ?thesis by fastforce
  next
    case (CancelCmd i x)
    then show ?thesis using on_book_ok [OF inv cancel_book_ok] by (simp add: engine_cancel_def)
  next
    case (ReduceCmd i x n)
    then show ?thesis using on_book_ok [OF inv reduce_book_ok] by (simp add: engine_reduce_def)
  next
    case (ModifyCmd i x n p)
    have "\<exists>r b'. OrderBook_modify x n p b = Some (r, b') \<and> book_ok b'" if "books e i = Some b" "book_ok b" for b
      using that ok ModifyCmd by (intro modify_book_ok) auto
    from on_book_ok [OF inv this, where absent = NotFound] show ?thesis by (simp add: ModifyCmd engine_modify_def)
  qed (use inv book_ok_new in \<open>auto simp: engine_ok_def register_instrument_def register_instrument_id_def
      unregister_instrument_def set_risk_gate_def engine_clear_def Let_def\<close>)
qed

end
