(* ===== verification/Market_Example.thy ===== *)
theory Market_Example
  imports Submission
begin

text \<open>
  A small market with both sides populated, reached by submissions from an empty engine. The
  properties of the book and of the engine are instantiated on it.
\<close>

definition demo_env :: Env where
  "demo_env = \<lparr>freed_readable = True, freed_price = o_price, freed_trader_id = (\<lambda>_ t. t), clock = (\<lambda>_. 0)\<rparr>"

definition limit_order :: "OrderId \<Rightarrow> TraderId \<Rightarrow> Side \<Rightarrow> int \<Rightarrow> int \<Rightarrow> Order" where
  "limit_order x t s p q =
     Order_init\<lparr>o_id := x, o_trader_id := t, o_instrument_id := 1, o_side := s, o_price := Price p,
       o_quantity := Quantity q, o_remaining := Quantity q\<rparr>"

definition demo_submit :: "Order \<Rightarrow> EngineCommand" where
  "demo_submit ord = SubmitCmd demo_env (\<lambda>_. 1) (Some ord)"

definition demo_commands :: "EngineCommand list" where
  "demo_commands =
     [RegisterCmd (InstrumentDescriptor_init\<lparr>d_id := 1\<rparr>),
      demo_submit (limit_order 10 1 Sell 100 5),
      demo_submit (limit_order 11 2 Sell 101 5),
      demo_submit (limit_order 12 3 Sell 100 4),
      demo_submit (limit_order 20 4 Buy 98 6),
      demo_submit (limit_order 21 5 Buy 97 3)]"

definition demo_engine :: Engine where
  "demo_engine = the (run_steps engine_step demo_commands new_Engine)"

definition demo_book :: OrderBook where
  "demo_book = the (books demo_engine 1)"

lemma demo_env_intact [simp]: "freed_price_intact demo_env"
  by (simp add: demo_env_def freed_price_intact_def)

lemma limit_order_simps [simp]:
  "is_open (limit_order x t s p q)" "o_remaining (limit_order x t s p q) = Quantity q"
  "o_instrument_id (limit_order x t s p q) = 1" "o_price (limit_order x t s p q) = Price p"
  "o_quantity (limit_order x t s p q) = Quantity q" "is_limit (limit_order x t s p q)"
  "o_id (limit_order x t s p q) = x" "is_buy (limit_order x t s p q) \<longleftrightarrow> s = Buy"
  by (simp_all add: limit_order_def Order_init_def domain_defs)

lemma demo_admissible: "admissible engine_step engine_cmd_ok demo_commands e"
  by (rule admissible_always) (auto simp: demo_commands_def demo_submit_def in_i64_def)

lemma demo_engine_ok: "engine_ok demo_engine"
  using engine.run_ok [OF _ demo_admissible, of new_Engine]
  by (auto simp: demo_engine_def engine_ok_def new_Engine_def)

lemma demo_book_at: "books demo_engine 1 = Some demo_book"
proof -
  have "\<not> Option.is_none (books demo_engine 1)" by code_simp
  then show ?thesis by (auto simp: demo_book_def Option.is_none_def)
qed

lemma demo_book_ok: "book_inv demo_book" "uncrossed demo_book"
  using demo_engine_ok demo_book_at by (auto simp: engine_ok_def book_ok_def)

lemma demo_resting:
  "map o_id (resting False demo_book) = [10, 12, 11]" "map o_id (resting True demo_book) = [20, 21]"
  by code_simp+

lemma demo_limit_admitted:
  assumes "0 < q" "q \<le> 1000000000000" "0 \<le> p" "p \<le> 1000000000000"
  shows "admitted nows (limit_order x t s p q) demo_engine"
proof -
  have "risk_gate demo_engine = None" by code_simp
  with assms show ?thesis
    by (simp add: admitted_def valid_submission_def demo_book_at consult_gate_def RiskDecision_ok_def
        risk_accept_def in_i64_def Quantity_is_valid_def Price_is_valid_def kMaxQuantity_def
        kMaxPriceTicks_def kInvalidInstrumentId_def)
qed

end
