(* ===== verification/Engine_Properties.thy ===== *)
theory Engine_Properties
  imports Market_Example
begin

text \<open>
  The correctness properties of the matching engine, each instantiated on the example market.
\<close>

section \<open>Auxiliary notions\<close>

text \<open>The reason of the first validation step that fails.\<close>

definition first_reason :: "Order \<Rightarrow> Engine \<Rightarrow> string" where
  "first_reason ord e =
     snd (hd (filter fst
       [(o_instrument_id ord = kInvalidInstrumentId, ''invalid instrument''),
        (\<not> Quantity_is_valid (o_quantity ord) \<or> qty (o_remaining ord) \<le> 0, ''invalid quantity''),
        (is_limit ord \<and> \<not> Price_is_valid (o_price ord), ''invalid price''),
        (books e (o_instrument_id ord) = None, ''instrument not registered'')]))"

text \<open>All resting ids lie below the sequence counter.\<close>

definition ids_below :: "Engine \<Rightarrow> bool" where
  "ids_below e \<longleftrightarrow> (\<forall>i b s. books e i = Some b \<longrightarrow>
     (\<forall>ro \<in> set (resting s b). unat (o_id ro) < unat (next_sequence e)))"

text \<open>The same environment, but with freed orders that keep their contents; and a taker that consumes the first order it meets.\<close>

definition settled :: "Env \<Rightarrow> Env" where
  "settled env = env\<lparr>freed_readable := True, freed_price := o_price\<rparr>"

definition consumes_front :: "Order \<Rightarrow> OrderBook \<Rightarrow> bool" where
  "consumes_front taker b \<longleftrightarrow> (\<exists>ro os. resting (\<not> is_buy taker) b = ro # os \<and> acceptable_to taker (o_price ro) \<and>
     qty (o_remaining ro) \<le> qty (o_remaining taker))"

section \<open>Price-time priority\<close>

lemma submit_spec:
  assumes ok: "engine_ok e" and adm: "admitted nows ord0 e"
    and env: "freed_price_intact env" and b: "books e (o_instrument_id ord0) = Some b"
  defines "taker \<equiv> taker_of ord0 e" and "s \<equiv> is_buy ord0"
  obtains e' trace b' where "submit env nows (Some ord0) e = Some (e', trace)"
    "cs_trades (collect trace) = trades_of env taker (next_sequence e + 1) (taker_fills taker b)"
    "cs_results (collect trace) = [outcome (result_header taker
           (SubmitResult_init\<lparr>sr_order_id := o_id taker, sr_instrument_id := o_instrument_id taker\<rparr>)) (matched taker b)
           (comes_to_rest (matched taker b) (resting s b) (other_side_left taker b))]"
    "books e' = (books e)(o_instrument_id ord0 \<mapsto> b')"
    "next_sequence e' = next_sequence e + 1 + of_nat (length (taker_fills taker b))"
    "book_ok b'" "resting (\<not> s) b' = other_side_left taker b"
    "resting s b' = (if comes_to_rest (matched taker b) (resting s b) (other_side_left taker b)
                     then place s (strip (matched taker b)) (resting s b) else resting s b)"
proof -
  obtain d e1 where gate: "consult_gate nows (with_id ord0 e) e = (d, e1)" by fastforce
  have v: "valid_submission ord0 e" "is_open ord0" "in_i64 (qty (o_remaining ord0))" "RiskDecision_ok d"
    using adm gate by (auto simp: admitted_def)
  note frame = consult_gate_frame [OF gate]
  have binv: "book_inv b" "uncrossed b" using ok b by (auto simp: engine_ok_def book_ok_def)
  have b1: "books e1 (o_instrument_id (with_id ord0 e)) = Some b" using b frame by simp
  have tk: "sequenced (with_id ord0 e) e1 = taker" using frame by (simp add: taker_def taker_of_def sequenced_def)
  let ?r = "SubmitResult_init\<lparr>sr_order_id := o_id (with_id ord0 e), sr_instrument_id := o_instrument_id (with_id ord0 e)\<rparr>"
  have ord: "is_open (with_id ord0 e)" "in_i64 (qty (o_remaining (with_id ord0 e)))" using v by simp_all
  from accept_submit_spec [OF binv(1) b1 env ord, of ?r, unfolded tk] obtain e' trace b' where
    acc: "accept_submit env ?r (with_id ord0 e) e1 = Some (e', trace)" and
    rest: "collect trace = \<lparr>cs_trades = trades_of env taker (next_sequence e1 + 1) (taker_fills taker b),
      cs_results = [outcome (result_header taker ?r) (matched taker b)
           (comes_to_rest (matched taker b) (resting s b) (other_side_left taker b))]\<rparr>"
      "e' = e1\<lparr>books := (books e1)(o_instrument_id ord0 \<mapsto> b'),
           next_sequence := next_sequence e1 + 1 + of_nat (length (taker_fills taker b))\<rparr>" "book_inv b'" and
    sides: "resting (\<not> s) b' = other_side_left taker b"
      "resting s b' = (if comes_to_rest (matched taker b) (resting s b) (other_side_left taker b)
                     then place s (strip (matched taker b)) (resting s b) else resting s b)"
    unfolding s_def by auto
  have "uncrossed b'"
    using accept_submit_uncrossed [OF binv(1) rest(3) binv(2), of taker] sides by (simp add: taker_def taker_of_def s_def)
  moreover have "submit env nows (Some ord0) e = Some (e', trace)"
    using gate acc v by (simp add: submit_valid [OF v(1)])
  ultimately show thesis using rest sides frame
    by (intro that [of e' trace b']) (auto simp: book_ok_def taker_def taker_of_def)
qed

lemma trades_of_traded: "traded (trades_of env taker tid fs) = filled_total fs"
  by (induction fs arbitrary: tid)
    (auto simp: traded_def filled_total_def trade_of_def make_trade_def Let_def)

lemma length_trades_of [simp]: "length (trades_of env taker tid fs) = length fs"
  by (induction fs arbitrary: tid) auto

lemma nth_trades_of: "i < length fs \<Longrightarrow> trades_of env taker tid fs ! i = trade_of env taker (tid + of_nat i) (fs ! i)"
  by (induction fs arbitrary: tid i) (auto simp: nth_Cons' algebra_simps split: nat.splits)

lemma taker_of_simps [simp]:
  "is_buy (taker_of ord e) = is_buy ord" "is_limit (taker_of ord e) = is_limit ord" "o_remaining (taker_of ord e) = o_remaining ord"
  "o_quantity (taker_of ord e) = o_quantity ord" "o_tif (taker_of ord e) = o_tif ord" "o_side (taker_of ord e) = o_side ord"
  "o_price (taker_of ord e) = o_price ord" "o_type (taker_of ord e) = o_type ord"
  by (simp_all add: taker_of_def sequenced_def is_buy_def is_limit_def)

lemma resting_positive: "book_inv b \<Longrightarrow> ro \<in> set (resting s b) \<Longrightarrow> 0 < qty (o_remaining ro)"
  using resting_ok(1) order_ok_rem(1) by blast

lemma fills_sound:
  assumes "(ro, n) \<in> set (fills acc r os)" "\<And>ro. ro \<in> set os \<Longrightarrow> 0 < qty (o_remaining ro)"
  shows "ro \<in> set os \<and> acc (o_price ro) \<and> 0 < n \<and> n \<le> qty (o_remaining ro)"
  using assms by (induction os arbitrary: r) (auto simp: Let_def split: if_splits)

lemma left_over_total:
  assumes "\<And>ro. ro \<in> set os \<Longrightarrow> 0 < qty (o_remaining ro)"
  shows "sum_list (map (qty \<circ> o_remaining) (left_over acc r os)) + filled_total (fills acc r os) =
    sum_list (map (qty \<circ> o_remaining) os)"
  using assms
proof (induction os arbitrary: r)
  case (Cons ro os)
  from Cons.IH [of "r - qty (o_remaining ro)"] Cons.prems show ?case by (auto simp: Let_def min_def)
qed simp

text \<open>
  C1. Price-time priority. A submission that passes validation and the risk gate returns, and its
  trades are exactly those of the reference matcher: the other side of the book is walked best
  price first and oldest first within a price, each order gives what it has until the taker is
  satisfied or the next price is not acceptable to its limit. The book keeps what the walk leaves
  on the other side; on its own side the taker, if it comes to rest, is placed behind every order
  at least as good as it. No other book changes.
\<close>

theorem submit_price_time_priority:
  assumes "engine_ok e" "admitted nows ord e" "freed_price_intact env" "books e (o_instrument_id ord) = Some b"
  shows "\<exists>e' trace b'. submit env nows (Some ord) e = Some (e', trace) \<and>
    cs_trades (collect trace) = trades_of env (taker_of ord e) (next_sequence e + 1) (taker_fills (taker_of ord e) b) \<and>
    books e' = (books e)(o_instrument_id ord \<mapsto> b') \<and> book_ok b' \<and>
    resting (\<not> is_buy ord) b' = other_side_left (taker_of ord e) b \<and>
    resting (is_buy ord) b' =
      (if comes_to_rest (matched (taker_of ord e) b) (resting (is_buy ord) b) (other_side_left (taker_of ord e) b)
       then place (is_buy ord) (strip (matched (taker_of ord e) b)) (resting (is_buy ord) b)
       else resting (is_buy ord) b)"
  using submit_spec [OF assms] by metis

theorem submit_price_time_priority_witness:
  "\<exists>e' trace b'. submit demo_env (\<lambda>_. 1) (Some (limit_order 30 6 Buy 100 20)) demo_engine = Some (e', trace) \<and>
     map (\<lambda>t. (sell_order_id t, t_price t, t_quantity t)) (cs_trades (collect trace)) =
       [(10, Price 100, Quantity 5), (12, Price 100, Quantity 4)] \<and>
     books e' = (books demo_engine)(1 \<mapsto> b') \<and> map o_id (resting False b') = [11] \<and>
     map o_id (resting True b') = [30, 20, 21]"
proof -
  let ?ord = "limit_order 30 6 Buy 100 20"
  have "map (\<lambda>t. (sell_order_id t, t_price t, t_quantity t))
      (trades_of demo_env (taker_of ?ord demo_engine) (next_sequence demo_engine + 1) (taker_fills (taker_of ?ord demo_engine) demo_book)) =
       [(10, Price 100, Quantity 5), (12, Price 100, Quantity 4)]"
    and "map o_id (other_side_left (taker_of ?ord demo_engine) demo_book) = [11]"
    and "map o_id (if comes_to_rest (matched (taker_of ?ord demo_engine) demo_book) (resting True demo_book) (other_side_left (taker_of ?ord demo_engine) demo_book)
       then place True (strip (matched (taker_of ?ord demo_engine) demo_book)) (resting True demo_book) else resting True demo_book) = [30, 20, 21]"
    by code_simp+
  with submit_price_time_priority [OF demo_engine_ok demo_limit_admitted demo_env_intact, of 20 100 30 6 Buy demo_book]
  show ?thesis by (fastforce simp: demo_book_at)
qed

section \<open>Trades\<close>

lemma trade_of_fields:
  "qty (t_quantity (trade_of env tk tid (ro, n))) = n" "t_price (trade_of env tk tid (ro, n)) = o_price ro"
  "t_id (trade_of env tk tid (ro, n)) = tid" "t_sequence (trade_of env tk tid (ro, n)) = o_sequence tk"
  "(if is_buy tk then sell_order_id else buy_order_id) (trade_of env tk tid (ro, n)) = o_id ro"
  "(if is_buy tk then buy_order_id else sell_order_id) (trade_of env tk tid (ro, n)) = o_id tk"
  "t_instrument_id (trade_of env tk tid (ro, n)) = o_instrument_id tk"
  by (simp_all add: trade_of_def make_trade_def Let_def)

lemma trades_of_member:
  "t \<in> set (trades_of env tk tid fs) \<Longrightarrow> \<exists>tid' ro n. t = trade_of env tk tid' (ro, n) \<and> (ro, n) \<in> set fs"
  by (induction fs arbitrary: tid) (auto, blast)

text \<open>
  C4. Every trade is against an order that was resting on the other side, at that order's price,
  which the taker's limit accepts, and for a positive quantity that the order had.
\<close>

theorem submit_trades_sound:
  assumes "engine_ok e" "admitted nows ord e" "freed_price_intact env" "books e (o_instrument_id ord) = Some b"
  shows "\<exists>e' trace. submit env nows (Some ord) e = Some (e', trace) \<and>
    (\<forall>t \<in> set (cs_trades (collect trace)). \<exists>ro \<in> set (resting (\<not> is_buy ord) b).
       (if is_buy ord then sell_order_id t else buy_order_id t) = o_id ro \<and> t_price t = o_price ro \<and>
       (is_limit ord \<longrightarrow> (if is_buy ord then o_price ro \<le> o_price ord else o_price ord \<le> o_price ro)) \<and>
       0 < qty (t_quantity t) \<and> qty (t_quantity t) \<le> qty (o_remaining ro))"
proof -
  let ?tk = "taker_of ord e"
  have binv: "book_inv b" using assms by (auto simp: engine_ok_def book_ok_def)
  from submit_spec [OF assms] obtain e' trace where s: "submit env nows (Some ord) e = Some (e', trace)"
    "cs_trades (collect trace) = trades_of env ?tk (next_sequence e + 1) (taker_fills ?tk b)" by metis
  have "\<exists>ro \<in> set (resting (\<not> is_buy ord) b).
       (if is_buy ord then sell_order_id t else buy_order_id t) = o_id ro \<and> t_price t = o_price ro \<and>
       (is_limit ord \<longrightarrow> (if is_buy ord then o_price ro \<le> o_price ord else o_price ord \<le> o_price ro)) \<and>
       0 < qty (t_quantity t) \<and> qty (t_quantity t) \<le> qty (o_remaining ro)"
    if t: "t \<in> set (trades_of env ?tk (next_sequence e + 1) (taker_fills ?tk b))" for t
  proof -
    from trades_of_member [OF t] obtain tid ro n where
      t': "t = trade_of env ?tk tid (ro, n)" "(ro, n) \<in> set (taker_fills ?tk b)" by blast
    from t'(2) have "ro \<in> set (resting (\<not> is_buy ord) b) \<and> acceptable_to ?tk (o_price ro) \<and> 0 < n \<and> n \<le> qty (o_remaining ro)"
      using fills_sound [OF _ resting_positive [OF binv], of ro n "acceptable_to ?tk"] by (simp add: taker_fills_def)
    then show ?thesis using t'(1) trade_of_fields(5) [of ?tk env tid ro n]
      by (intro bexI [of _ ro]) (auto simp: trade_of_fields acceptable_to_def crosses_def is_buy_def split: if_splits)
  qed
  with s show ?thesis by auto
qed

theorem submit_trades_sound_witness:
  "\<exists>e' trace. submit demo_env (\<lambda>_. 1) (Some (limit_order 30 6 Buy 101 7)) demo_engine = Some (e', trace) \<and>
    (\<forall>t \<in> set (cs_trades (collect trace)). \<exists>ro \<in> set (resting False demo_book).
       sell_order_id t = o_id ro \<and> t_price t = o_price ro \<and> o_price ro \<le> Price 101 \<and>
       0 < qty (t_quantity t) \<and> qty (t_quantity t) \<le> qty (o_remaining ro))"
  using submit_trades_sound [OF demo_engine_ok demo_limit_admitted demo_env_intact, of 7 101 30 6 Buy demo_book "\<lambda>_. 1"]
  by (simp add: demo_book_at)

text \<open>
  C5. Quantity is conserved. What a submission trades is between zero and what the taker asked for,
  the other side of the book loses exactly the traded quantity, and if the taker is not satisfied,
  then nothing its limit accepts is left on the other side.
\<close>

theorem submit_conserves_quantity:
  assumes "engine_ok e" "admitted nows ord e" "freed_price_intact env" "books e (o_instrument_id ord) = Some b"
  shows "\<exists>e' trace b'. submit env nows (Some ord) e = Some (e', trace) \<and> books e' (o_instrument_id ord) = Some b' \<and>
    (let filled = traded (cs_trades (collect trace)); total = (\<lambda>os. sum_list (map (qty \<circ> o_remaining) os))
     in 0 \<le> filled \<and> filled \<le> qty (o_remaining ord) \<and>
        total (resting (\<not> is_buy ord) b') = total (resting (\<not> is_buy ord) b) - filled \<and>
        (filled < qty (o_remaining ord) \<longrightarrow>
          (\<forall>ro \<in> set (resting (\<not> is_buy ord) b'). \<not> acceptable_to ord (o_price ro))))"
proof -
  let ?tk = "taker_of ord e" and ?os = "resting (\<not> is_buy ord) b"
  have binv: "book_inv b" using assms by (auto simp: engine_ok_def book_ok_def)
  from submit_spec [OF assms] obtain e' trace b' where s: "submit env nows (Some ord) e = Some (e', trace)"
    "cs_trades (collect trace) = trades_of env ?tk (next_sequence e + 1) (taker_fills ?tk b)"
    "books e' = (books e)(o_instrument_id ord \<mapsto> b')" "book_ok b'"
    "resting (\<not> is_buy ord) b' = other_side_left ?tk b" by metis
  have pos: "0 < qty (o_remaining ro)" if "ro \<in> set ?os" for ro using resting_positive [OF binv that] .
  have rem: "0 < qty (o_remaining ord)" using assms(2) by (simp add: admitted_def valid_submission_def)
  have acc: "acceptable_to ?tk = acceptable_to ord" by (simp add: acceptable_to_def fun_eq_iff)
  have f: "traded (cs_trades (collect trace)) = filled_total (fills (acceptable_to ord) (qty (o_remaining ord)) ?os)"
    by (simp add: s(2) trades_of_traded taker_fills_def acc)
  moreover have "\<not> acceptable_to ord (o_price ro)"
    if "traded (cs_trades (collect trace)) < qty (o_remaining ord)" "ro \<in> set (resting (\<not> is_buy ord) b')" for ro
    using other_side_unacceptable [OF binv, of b' ?tk ro] s(4,5) that f
    by (simp add: book_ok_def matched_def taker_fills_def acc)
  moreover have "sum_list (map (qty \<circ> o_remaining) (resting (\<not> is_buy ord) b')) + traded (cs_trades (collect trace)) =
      sum_list (map (qty \<circ> o_remaining) ?os)"
    unfolding f s(5) other_side_left_def acc using left_over_total [OF pos] by simp
  ultimately show ?thesis using s(1,3) fills_bounds [OF pos, of _ "qty (o_remaining ord)" "acceptable_to ord"] rem
    by (intro exI [of _ e'] exI [of _ trace] exI [of _ b']) (auto simp: Let_def)
qed

theorem submit_conserves_quantity_witness:
  "\<exists>e' trace b'. submit demo_env (\<lambda>_. 1) (Some (limit_order 30 6 Buy 100 20)) demo_engine = Some (e', trace) \<and>
    books e' 1 = Some b' \<and>
    sum_list (map (qty \<circ> o_remaining) (resting False b')) = 14 - traded (cs_trades (collect trace))"
proof -
  have "sum_list (map (qty \<circ> o_remaining) (resting False demo_book)) = 14" by code_simp
  with submit_conserves_quantity [OF demo_engine_ok demo_limit_admitted demo_env_intact, of 20 100 30 6 Buy demo_book "\<lambda>_. 1"]
  show ?thesis by (auto simp: demo_book_at Let_def)
qed


section \<open>Results\<close>

text \<open>
  C11. The one result a submission of a fresh order reports: filled is what was traded; the status says
  whether the order was satisfied, its rest dropped (market, IOC) or kept in the book.
\<close>

theorem submit_result:
  assumes "engine_ok e" "admitted nows ord e" "freed_price_intact env" "books e (o_instrument_id ord) = Some b"
    and fresh: "o_remaining ord = o_quantity ord"
  shows "\<exists>e' trace r. submit env nows (Some ord) e = Some (e', trace) \<and> cs_results (collect trace) = [r] \<and>
    (let filled = traded (cs_trades (collect trace)); left = qty (o_quantity ord) - filled;
         rests = comes_to_rest (matched (taker_of ord e) b) (resting (is_buy ord) b) (other_side_left (taker_of ord e) b)
     in filled_quantity r = Quantity filled \<and>
        resting_quantity r = Quantity (if 0 < left \<and> is_limit ord \<and> o_tif ord \<noteq> IOC then left else 0) \<and>
        sr_status r =
          (if left = 0 then FullyFilled
           else if is_market ord then (if 0 < filled then PartiallyFilled else Rejected)
           else if o_tif ord = IOC then (if 0 < filled then PartiallyFilled else Cancelled)
           else if rests then Accepted else Rejected))"
proof -
  let ?tk = "taker_of ord e" and ?os = "resting (\<not> is_buy ord) b"
  have binv: "book_inv b" using assms by (auto simp: engine_ok_def book_ok_def)
  from submit_spec [OF assms(1-4)] obtain e' trace b' where s: "submit env nows (Some ord) e = Some (e', trace)"
    "cs_trades (collect trace) = trades_of env ?tk (next_sequence e + 1) (taker_fills ?tk b)"
    "cs_results (collect trace) = [outcome (result_header ?tk
           (SubmitResult_init\<lparr>sr_order_id := o_id ?tk, sr_instrument_id := o_instrument_id ?tk\<rparr>)) (matched ?tk b)
           (comes_to_rest (matched ?tk b) (resting (is_buy ord) b) (other_side_left ?tk b))]" by metis
  let ?f = "filled_total (taker_fills ?tk b)"
  have rem: "0 < qty (o_quantity ord)" "qty (o_quantity ord) \<le> kMaxQuantity"
    using assms(2) by (simp_all add: admitted_def valid_submission_def Quantity_is_valid_def)
  have f: "0 \<le> ?f" "?f \<le> qty (o_quantity ord)"
    using fills_bounds [of ?os "qty (o_quantity ord)" "acceptable_to ?tk"] resting_positive [OF binv] rem fresh
    by (auto simp: taker_fills_def)
  have tk: "qty (o_remaining (matched ?tk b)) = qty (o_quantity ord) - ?f" "filled_of (matched ?tk b) = Quantity ?f"
    "o_quantity (matched ?tk b) = o_quantity ord" "is_market (matched ?tk b) = is_market ord"
    using f rem fresh by (simp_all add: matched_def filled_of_def minus_Quantity_eq kMaxQuantity_def domain_defs)
  have "?f = qty (o_quantity ord) \<Longrightarrow> o_quantity ord = Quantity ?f" by (simp add: Quantity.expand)
  then show ?thesis using s(1,3) f tk
    by (intro exI conjI)
      (assumption, assumption, auto simp: s(2) trades_of_traded Let_def outcome_def result_header_def
         SubmitResult_init_def is_limit_is_market Quantity.expand)
qed

theorem submit_result_witness:
  "\<exists>e' trace r. submit demo_env (\<lambda>_. 1) (Some (limit_order 30 6 Buy 100 20)) demo_engine = Some (e', trace) \<and>
    cs_results (collect trace) = [r] \<and> filled_quantity r = Quantity (traded (cs_trades (collect trace)))"
  using submit_result [OF demo_engine_ok demo_limit_admitted demo_env_intact, of 20 100 30 6 Buy demo_book "\<lambda>_. 1"]
  by (auto simp: demo_book_at Let_def)

text \<open>
  C16. Rejections. A submission that fails validation trades nothing, changes nothing, consumes no
  sequence number and reports exactly one result, \<^const>\<open>Rejected\<close> with the reason of the
  first check that fails; a null order likewise.
\<close>

theorem submit_rejects_invalid:
  assumes "case order of None \<Rightarrow> True | Some ord \<Rightarrow> \<not> valid_submission ord e"
  shows "\<exists>r. submit env nows order e = Some (e, [(OnSubmitResult r, e)]) \<and> sr_status r = Rejected \<and>
    reject_reason r = (case order of None \<Rightarrow> ''null order'' | Some ord \<Rightarrow> first_reason ord e)"
  using assms
  by (cases order) (auto simp: submit_def reject_def valid_submission_def first_reason_def book_def is_limit_def Let_def)

theorem submit_rejects_invalid_witness:
  "\<exists>r. submit demo_env (\<lambda>_. 1) (Some (limit_order 30 6 Buy 100 0)) demo_engine =
      Some (demo_engine, [(OnSubmitResult r, demo_engine)]) \<and> reject_reason r = ''invalid quantity''"
  using submit_rejects_invalid [of demo_engine "Some (limit_order 30 6 Buy 100 0)" demo_env "\<lambda>_. 1"]
  by (auto simp: valid_submission_def first_reason_def Quantity_is_valid_def kInvalidInstrumentId_def)

text \<open>
  C17. The risk gate. When a gate rejects a valid submission, no book and no sequence number changes,
  the gate keeps its new state, and the one result is \<^const>\<open>Rejected\<close> with the gate's reason.
\<close>

theorem submit_risk_reject:
  assumes "valid_submission ord e" "risk_gate e = Some g" "RiskGate_evaluate nows (with_id ord e) g = (d, g')"
    "\<not> RiskDecision_ok d"
  shows "\<exists>r. submit env nows (Some ord) e = Some (e\<lparr>risk_gate := Some g'\<rparr>, [(OnSubmitResult r, e\<lparr>risk_gate := Some g'\<rparr>)]) \<and>
    sr_status r = Rejected \<and> reject_reason r = ''risk: '' @ rd_reason d"
  using assms by (simp add: submit_valid consult_gate_def reject_def)

theorem submit_risk_reject_witness:
  "\<exists>r. submit demo_env (\<lambda>_. 1) (Some (limit_order 30 6 Buy 100 9)) (set_risk_gate (Some [MaxOrderQuantityCheck (Quantity 8)]) demo_engine) =
      Some (set_risk_gate (Some [MaxOrderQuantityCheck (Quantity 8)]) demo_engine,
        [(OnSubmitResult r, set_risk_gate (Some [MaxOrderQuantityCheck (Quantity 8)]) demo_engine)]) \<and>
    reject_reason r = ''risk: quantity exceeds maximum''"
  using submit_risk_reject [of "limit_order 30 6 Buy 100 9" "set_risk_gate (Some [MaxOrderQuantityCheck (Quantity 8)]) demo_engine"
      "[MaxOrderQuantityCheck (Quantity 8)]" "\<lambda>_. 1" "risk_reject MaxQuantity ''quantity exceeds maximum''"
      "[MaxOrderQuantityCheck (Quantity 8)]" demo_env]
  by (auto simp: valid_submission_def set_risk_gate_def demo_book_at MaxOrderQuantity_evaluate_def RiskDecision_ok_def
      risk_reject_def Quantity_is_valid_def Price_is_valid_def kMaxQuantity_def kMaxPriceTicks_def kInvalidInstrumentId_def)

section \<open>Sequence numbers and identifiers\<close>

lemma seq_taker: "o_sequence (taker_of ord e) = next_sequence e"
  by (simp add: taker_of_def sequenced_def)

text \<open>
  One counter numbers submissions and trades: the order takes the current value, its trades the
  values directly after it in the order of execution, each trade carries the taker's sequence, and
  the counter ends behind them (modulo \<open>2 ^ 64\<close>).
\<close>

theorem submit_sequence_numbers:
  assumes "engine_ok e" "admitted nows ord e" "freed_price_intact env" "books e (o_instrument_id ord) = Some b"
  shows "\<exists>e' trace. submit env nows (Some ord) e = Some (e', trace) \<and>
    (let ts = cs_trades (collect trace)
     in map sr_sequence (cs_results (collect trace)) = [next_sequence e] \<and>
        (\<forall>i < length ts. t_id (ts ! i) = next_sequence e + 1 + of_nat i \<and> t_sequence (ts ! i) = next_sequence e) \<and>
        next_sequence e' = next_sequence e + 1 + of_nat (length ts))"
proof -
  let ?tk = "taker_of ord e"
  from submit_spec [OF assms] obtain e' trace where s: "submit env nows (Some ord) e = Some (e', trace)"
    "cs_trades (collect trace) = trades_of env ?tk (next_sequence e + 1) (taker_fills ?tk b)"
    "cs_results (collect trace) = [outcome (result_header ?tk
           (SubmitResult_init\<lparr>sr_order_id := o_id ?tk, sr_instrument_id := o_instrument_id ?tk\<rparr>)) (matched ?tk b)
           (comes_to_rest (matched ?tk b) (resting (is_buy ord) b) (other_side_left ?tk b))]"
    "next_sequence e' = next_sequence e + 1 + of_nat (length (taker_fills ?tk b))" by metis
  have "t_id (cs_trades (collect trace) ! i) = next_sequence e + 1 + of_nat i \<and> t_sequence (cs_trades (collect trace) ! i) = next_sequence e"
    if "i < length (taker_fills ?tk b)" for i
    using that by (cases "taker_fills ?tk b ! i") (simp add: s(2) nth_trades_of trade_of_fields seq_taker)
  moreover have "sr_sequence (outcome (result_header ?tk r) tk x) = next_sequence e" for r tk x
    by (simp add: outcome_def result_header_def seq_taker)
  ultimately show ?thesis using s by (auto simp: Let_def)
qed

theorem submit_sequence_numbers_witness:
  "\<exists>e' trace. submit demo_env (\<lambda>_. 1) (Some (limit_order 30 6 Buy 100 20)) demo_engine = Some (e', trace) \<and>
    next_sequence e' = 7 + of_nat (length (cs_trades (collect trace)))"
proof -
  have "next_sequence demo_engine = 6" by code_simp
  with submit_sequence_numbers [OF demo_engine_ok demo_limit_admitted demo_env_intact, of 20 100 30 6 Buy demo_book "\<lambda>_. 1"]
  show ?thesis by (auto simp: demo_book_at Let_def)
qed

text \<open>
  Immediate-or-cancel and market orders never rest: after the submission their side of the book is
  what it was.
\<close>

theorem immediate_orders_never_rest:
  assumes "engine_ok e" "admitted nows ord e" "freed_price_intact env" "books e (o_instrument_id ord) = Some b"
    and "is_market ord \<or> o_tif ord = IOC"
  shows "\<exists>e' trace b'. submit env nows (Some ord) e = Some (e', trace) \<and> books e' (o_instrument_id ord) = Some b' \<and>
    resting (is_buy ord) b' = resting (is_buy ord) b"
proof -
  have "\<not> comes_to_rest (matched (taker_of ord e) b) (resting (is_buy ord) b) (other_side_left (taker_of ord e) b)"
    using assms(5) by (auto simp: comes_to_rest_def is_limit_is_market)
  with submit_spec [OF assms(1-4)] show ?thesis by (metis fun_upd_same)
qed

lemma demo_ioc_admitted: "admitted nows (limit_order 30 6 Sell 97 20\<lparr>o_tif := IOC\<rparr>) demo_engine"
proof -
  have "admitted nows (limit_order 30 6 Sell 97 20) demo_engine" by (rule demo_limit_admitted) simp_all
  moreover have "risk_gate demo_engine = None" by code_simp
  ultimately show ?thesis
    by (simp add: admitted_def valid_submission_def is_limit_def is_open_def consult_gate_def)
qed

theorem immediate_orders_never_rest_witness:
  "\<exists>e' trace b'. submit demo_env (\<lambda>_. 1) (Some (limit_order 30 6 Sell 97 20\<lparr>o_tif := IOC\<rparr>)) demo_engine = Some (e', trace) \<and>
    books e' 1 = Some b' \<and> map o_id (resting False b') = [10, 12, 11]"
  using immediate_orders_never_rest [OF demo_engine_ok demo_ioc_admitted demo_env_intact, of demo_book "\<lambda>_. 1"]
  by (auto simp: demo_book_at is_buy_def limit_order_def demo_resting)

lemma FOK_same_match:
  fixes ord :: Order
  assumes "ord' = ord\<lparr>o_tif := GTC\<rparr>" "o_tif ord = FOK"
  shows "taker_fills (taker_of ord' e) b = taker_fills (taker_of ord e) b"
    "other_side_left (taker_of ord' e) b = other_side_left (taker_of ord e) b"
    "trades_of env (taker_of ord' e) tid fs = trades_of env (taker_of ord e) tid fs"
    "comes_to_rest (matched (taker_of ord' e) b) own other = comes_to_rest (matched (taker_of ord e) b) own other"
    "outcome (result_header (taker_of ord' e) r) (matched (taker_of ord' e) b) x = outcome (result_header (taker_of ord e) r) (matched (taker_of ord e) b) x"
    "o_id (taker_of ord' e) = o_id (taker_of ord e)" "o_instrument_id (taker_of ord' e) = o_instrument_id (taker_of ord e)"
proof -
  have tk: "taker_of ord' e = (taker_of ord e)\<lparr>o_tif := GTC\<rparr>" "o_tif (taker_of ord e) = FOK"
    using assms by (auto simp: taker_of_def sequenced_def with_id_def)
  have acc: "acceptable_to (t\<lparr>o_tif := GTC\<rparr>) = acceptable_to t" "is_buy (t\<lparr>o_tif := GTC\<rparr>) = is_buy t"
    "is_limit (t\<lparr>o_tif := GTC\<rparr>) = is_limit t" "is_market (t\<lparr>o_tif := GTC\<rparr>) = is_market t"
    "order_ok (t\<lparr>o_tif := GTC\<rparr>) = order_ok t" for t :: Order
    by (auto simp: acceptable_to_def fun_eq_iff domain_defs order_ok_def)
  show "taker_fills (taker_of ord' e) b = taker_fills (taker_of ord e) b"
    and left: "other_side_left (taker_of ord' e) b = other_side_left (taker_of ord e) b"
    by (simp_all add: tk(1) taker_fills_def other_side_left_def acc)
  then have m: "matched (taker_of ord' e) b = (matched (taker_of ord e) b)\<lparr>o_tif := GTC\<rparr>"
    by (simp add: matched_def tk(1))
  show "trades_of env (taker_of ord' e) tid fs = trades_of env (taker_of ord e) tid fs"
    by (induction fs arbitrary: tid)
      (auto simp: tk(1) trade_of_def make_trade_def acc Let_def split: prod.splits)
  show "comes_to_rest (matched (taker_of ord' e) b) own other = comes_to_rest (matched (taker_of ord e) b) own other"
    unfolding m by (simp add: comes_to_rest_def acc assms(2))
  show "outcome (result_header (taker_of ord' e) r) (matched (taker_of ord' e) b) x = outcome (result_header (taker_of ord e) r) (matched (taker_of ord e) b) x"
    unfolding m by (simp add: outcome_def result_header_def acc tk filled_of_def assms(2))
  show "o_id (taker_of ord' e) = o_id (taker_of ord e)" "o_instrument_id (taker_of ord' e) = o_instrument_id (taker_of ord e)"
    by (simp_all add: tk(1))
qed


lemma RiskCheck_evaluate_tif: "RiskCheck_evaluate now (ord\<lparr>o_tif := x\<rparr>) c = RiskCheck_evaluate now ord c"
  by (cases c) (simp_all add: MaxOrderQuantity_evaluate_def MaxNotional_evaluate_def PriceCollar_evaluate_def RateLimit_evaluate_def)

lemma RiskGate_evaluate_tif: "RiskGate_evaluate nows (ord\<lparr>o_tif := x\<rparr>) g = RiskGate_evaluate nows ord g"
  by (induction g arbitrary: nows) (simp_all add: RiskCheck_evaluate_tif split: prod.splits)

lemma admitted_tif: "admitted nows (ord\<lparr>o_tif := x\<rparr>) e = admitted nows ord e"
proof -
  have "with_id (ord\<lparr>o_tif := x\<rparr>) e = (with_id ord e)\<lparr>o_tif := x\<rparr>" by (simp add: with_id_def)
  then show ?thesis
    by (simp add: admitted_def valid_submission_def is_limit_def is_open_def consult_gate_def RiskGate_evaluate_tif
        split: option.splits)
qed

text \<open>
  C27. Fill-or-kill has no effect of its own: a submission with \<^const>\<open>FOK\<close> produces the same
  trades and the same result as the same submission with \<^const>\<open>GTC\<close>, and in particular rests
  what it could not fill.
\<close>

theorem fok_is_gtc:
  assumes "engine_ok e" "admitted nows ord e" "freed_price_intact env" "books e (o_instrument_id ord) = Some b"
    and fok: "o_tif ord = FOK"
  shows "\<exists>e1 e2 trace1 trace2. submit env nows (Some ord) e = Some (e1, trace1) \<and>
    submit env nows (Some (ord\<lparr>o_tif := GTC\<rparr>)) e = Some (e2, trace2) \<and> collect trace1 = collect trace2"
proof -
  note same = FOK_same_match [OF refl fok, where e = e]
  from submit_spec [OF assms(1-4)] obtain e1 trace1 where
    1: "submit env nows (Some ord) e = Some (e1, trace1)"
      "cs_trades (collect trace1) = trades_of env (taker_of ord e) (next_sequence e + 1) (taker_fills (taker_of ord e) b)"
      "cs_results (collect trace1) = [outcome (result_header (taker_of ord e)
           (SubmitResult_init\<lparr>sr_order_id := o_id (taker_of ord e), sr_instrument_id := o_instrument_id (taker_of ord e)\<rparr>))
           (matched (taker_of ord e) b)
           (comes_to_rest (matched (taker_of ord e) b) (resting (is_buy ord) b) (other_side_left (taker_of ord e) b))]" by metis
  have adm: "admitted nows (ord\<lparr>o_tif := GTC\<rparr>) e" using assms(2) by (simp add: admitted_tif)
  have b: "books e (o_instrument_id (ord\<lparr>o_tif := GTC\<rparr>)) = Some b" using assms(4) by simp
  have side: "is_buy (ord\<lparr>o_tif := GTC\<rparr>) = is_buy ord" by (simp add: is_buy_def)
  from submit_spec [OF assms(1) adm assms(3) b, unfolded same side] obtain e2 trace2 where
    2: "submit env nows (Some (ord\<lparr>o_tif := GTC\<rparr>)) e = Some (e2, trace2)"
      "cs_trades (collect trace2) = cs_trades (collect trace1)" "cs_results (collect trace2) = cs_results (collect trace1)"
    unfolding 1 by metis
  have "collect trace1 = collect trace2" using 2(2,3) by (intro CollectingSink.equality) simp_all
  with 1 2 show ?thesis by blast
qed

theorem fok_is_gtc_witness:
  "\<exists>e1 e2 trace1 trace2.
    submit demo_env (\<lambda>_. 1) (Some (limit_order 30 6 Buy 100 20\<lparr>o_tif := FOK\<rparr>)) demo_engine = Some (e1, trace1) \<and>
    submit demo_env (\<lambda>_. 1) (Some (limit_order 30 6 Buy 100 20\<lparr>o_tif := FOK, o_tif := GTC\<rparr>)) demo_engine = Some (e2, trace2) \<and>
    collect trace1 = collect trace2"
proof -
  have "admitted (\<lambda>_. 1) (limit_order 30 6 Buy 100 20\<lparr>o_tif := FOK\<rparr>) demo_engine"
    unfolding admitted_tif by (rule demo_limit_admitted) simp_all
  from fok_is_gtc [OF demo_engine_ok this demo_env_intact] show ?thesis by (simp add: demo_book_at)
qed

section \<open>Cancelling\<close>

text \<open>
  Cancelling a resting order succeeds and takes exactly that order out of the book; the others keep
  their places. Cancelling an unknown order or at an unknown instrument answers false and changes
  nothing.
\<close>

theorem engine_cancel_removes:
  assumes "engine_ok e"
  shows "case books e i of
      None \<Rightarrow> engine_cancel i x e = Some (False, e)
    | Some b \<Rightarrow>
        (\<exists>b'. engine_cancel i x e = Some (id_index b x \<noteq> None, e\<lparr>books := (books e)(i \<mapsto> b')\<rparr>) \<and> book_ok b' \<and>
           (\<forall>s. resting s b' = filter (\<lambda>ro. o_id ro \<noteq> x) (resting s b)))"
proof (cases "books e i")
  case None
  then show ?thesis by (simp add: engine_cancel_def on_book_def book_def)
next
  case (Some b)
  then have ok: "book_ok b" using assms by (auto simp: engine_ok_def)
  then have inv: "book_inv b" by (simp add: book_ok_def)
  from cancel_book_ok [OF ok, of x] obtain r b' where b': "OrderBook_cancel x b = Some (r, b')" "book_ok b'" by blast
  have "r = (id_index b x \<noteq> None) \<and> (\<forall>s. resting s b' = filter (\<lambda>ro. o_id ro \<noteq> x) (resting s b))"
  proof (cases "id_index b x")
    case None
    then have "o_id ro \<noteq> x" if "ro \<in> set (resting s b)" for ro s
      using resting_ok(3) [OF inv that] by auto
    with None b' show ?thesis by (auto simp: OrderBook_cancel_absent filter_id_conv intro!: filter_True [symmetric])
  next
    case (Some ord)
    from cancel_simulation [OF inv, of undefined x] b' have
      "abs_book b' = dequeue (strip ord) (abs_book b)" by (auto simp: book_step_def spec_step_def abs_orders Some)
    moreover have "r" using b'(1) Some order_ok_active book_rel_index_ok(1) [of b "queues b", OF _ Some] inv
      by (auto simp: OrderBook_cancel_def book_inv_def split: bind_splits if_splits)
    ultimately show ?thesis using resting_dequeue [OF inv _ _ Some] b'(2) Some by (simp add: book_ok_def)
  qed
  with Some b' show ?thesis by (auto simp: engine_cancel_def on_book_def book_def)
qed

theorem engine_cancel_removes_witness:
  "\<exists>b'. engine_cancel 1 12 demo_engine = Some (True, demo_engine\<lparr>books := (books demo_engine)(1 \<mapsto> b')\<rparr>) \<and>
    map o_id (resting False b') = [10, 11]"
proof -
  have "\<not> Option.is_none (id_index demo_book 12)" "map o_id (filter (\<lambda>ro. o_id ro \<noteq> 12) (resting False demo_book)) = [10, 11]"
    by code_simp+
  with engine_cancel_removes [OF demo_engine_ok, of 1 12] show ?thesis by (auto simp: demo_book_at Option.is_none_def)
qed

section \<open>Whole runs\<close>

text \<open>
  C3. Invariant of whole runs. Take any sequence of registrations, submissions, cancels, modifications and reductions,
  started on a new engine, each of which meets \<^const>\<open>engine_cmd_ok\<close> in the state it finds: submitted orders are open and
  fit 64 bits, no order is modified to a price that crosses the other side, and the reads of freed orders that every full
  fill makes find the order unchanged (\<^const>\<open>freed_price_intact\<close>; by the language they are undefined, see
  \<open>Reads of freed orders\<close> below). Then every operation returns, and every book ends well-formed and uncrossed.
\<close>

theorem engine_run_safe:
  assumes "admissible engine_step engine_cmd_ok cs new_Engine"
  shows "\<exists>e. run_steps engine_step cs new_Engine = Some e \<and> engine_ok e"
  using assms by (intro engine.run_ok) (simp_all add: engine_ok_def new_Engine_def)

theorem engine_run_safe_witness:
  "\<exists>e. run_steps engine_step demo_commands new_Engine = Some e \<and> engine_ok e"
  by (rule engine_run_safe [OF demo_admissible])

section \<open>Automatic order ids\<close>

lemma left_over_ids: "o_id ` set (left_over acc r os) \<subseteq> o_id ` set os"
  by (induction os arbitrary: r) (auto simp: image_subset_iff)

lemma unat_add_no_wrap: "unat (w :: 64 word) + n < 2 ^ 64 \<Longrightarrow> unat (w + of_nat n) = unat w + n"
  by (simp add: unat_word_ariths unat_of_nat)

lemma length_fills: "length (fills acc r os) \<le> length os"
  by (induction os arbitrary: r) (auto simp: Let_def)

lemma matched_fields:
  "o_price (matched ord b) = o_price ord" "is_open (taker_of ord e) = is_open ord"
  "qty (o_remaining (matched ord b)) = qty (o_remaining ord) - filled_total (taker_fills ord b)"
  by (simp_all add: matched_def taker_of_def)

lemma ids_below_update:
  assumes "ids_below e" "\<forall>t. \<forall>ro \<in> set (resting t b'). unat (o_id ro) \<le> unat (next_sequence e)"
    and "books e' = (books e)(i \<mapsto> b')" "unat (next_sequence e) < unat (next_sequence e')"
  shows "ids_below e'"
  unfolding ids_below_def
proof (intro allI impI ballI)
  fix j bj t ro assume "books e' j = Some bj" "ro \<in> set (resting t bj)"
  then have "unat (o_id ro) \<le> unat (next_sequence e)"
    using assms(1-3) by (cases "j = i") (fastforce simp: ids_below_def)+
  then show "unat (o_id ro) < unat (next_sequence e')" using assms(4) by simp
qed

lemma auto_id_rests:
  assumes binv: "book_inv b" and adm: "admitted nows ord e"
    and auto: "o_id ord = kInvalidOrderId" and fresh: "o_remaining ord = o_quantity ord" and seq: "0 < unat (next_sequence e)"
    and new: "next_sequence e \<notin> o_id ` (set (resting (is_buy ord) b) \<union> set (other_side_left (taker_of ord e) b))"
    and lim: "0 < qty (o_remaining (matched (taker_of ord e) b))" "is_limit ord" "o_tif ord \<noteq> IOC"
  shows "comes_to_rest (matched (taker_of ord e) b) (resting (is_buy ord) b) (other_side_left (taker_of ord e) b)"
proof -
  let ?tk = "taker_of ord e"
  have id: "o_id ?tk = next_sequence e" using auto by (simp add: taker_of_def sequenced_def with_id_def)
  have "filled_total (taker_fills ?tk b) \<ge> 0"
    using fills_bounds [of "resting (\<not> is_buy ord) b" "qty (o_remaining ord)" "acceptable_to ?tk"] resting_positive [OF binv] adm
    by (auto simp: taker_fills_def admitted_def valid_submission_def)
  moreover have "Price_is_valid (o_price ord)" "is_open ord" "Quantity_is_valid (o_quantity ord)"
    using adm lim(2) by (auto simp: admitted_def valid_submission_def)
  moreover have "next_sequence e \<noteq> 0" using seq by auto
  ultimately have "order_ok (matched ?tk b)" using lim fresh id
    by (auto simp: order_ok_def Quantity_is_valid_def kInvalidOrderId_def matched_fields)
  then show ?thesis using lim id new by (simp add: comes_to_rest_def)
qed

text \<open>
  C20. Engine-assigned ids never collide. While all resting ids lie below the counter and the counter
  does not wrap, a valid order without an id is never turned away as a duplicate, and the ids keep
  lying below the counter.
\<close>

theorem auto_ids_never_collide:
  assumes "engine_ok e" "admitted nows ord e" "freed_price_intact env" "books e (o_instrument_id ord) = Some b"
    and auto: "o_id ord = kInvalidOrderId" and fresh: "o_remaining ord = o_quantity ord"
    and below: "ids_below e" "0 < unat (next_sequence e)"
    and wrap: "unat (next_sequence e) + 1 + length (resting (\<not> is_buy ord) b) < 2 ^ 64"
  shows "\<exists>e' trace. submit env nows (Some ord) e = Some (e', trace) \<and> ids_below e' \<and>
    (\<forall>r \<in> set (cs_results (collect trace)). reject_reason r \<noteq> ''duplicate order id'')"
proof -
  let ?tk = "taker_of ord e"
  let ?s = "is_buy ord"
  have binv: "book_inv b" using assms by (auto simp: engine_ok_def book_ok_def)
  from submit_spec [OF assms(1-4)] obtain e' trace b' where s: "submit env nows (Some ord) e = Some (e', trace)"
    "cs_results (collect trace) = [outcome (result_header ?tk
           (SubmitResult_init\<lparr>sr_order_id := o_id ?tk, sr_instrument_id := o_instrument_id ?tk\<rparr>)) (matched ?tk b)
           (comes_to_rest (matched ?tk b) (resting ?s b) (other_side_left ?tk b))]"
    "books e' = (books e)(o_instrument_id ord \<mapsto> b')"
    "next_sequence e' = next_sequence e + 1 + of_nat (length (taker_fills ?tk b))"
    "resting (\<not> ?s) b' = other_side_left ?tk b"
    "resting ?s b' = (if comes_to_rest (matched ?tk b) (resting ?s b) (other_side_left ?tk b)
                     then place ?s (strip (matched ?tk b)) (resting ?s b) else resting ?s b)" by metis
  have id: "o_id ?tk = next_sequence e" using auto by (simp add: taker_of_def sequenced_def with_id_def)
  have old: "unat (o_id ro) < unat (next_sequence e)" if "ro \<in> set (resting t b)" for ro t
    using below(1) assms(4) that by (auto simp: ids_below_def)
  have left: "unat (o_id ro) < unat (next_sequence e)" if "ro \<in> set (other_side_left ?tk b)" for ro
    using left_over_ids that old unfolding other_side_left_def by (metis (mono_tags, lifting) image_iff subsetD)
  have len: "length (taker_fills ?tk b) \<le> length (resting (\<not> ?s) b)"
    using length_fills [of _ _ "resting (\<not> ?s) b"] by (simp add: taker_fills_def del: resting_length)
  have "next_sequence e' = next_sequence e + of_nat (1 + length (taker_fills ?tk b))" using s(4) by simp
  then have seq: "unat (next_sequence e') = unat (next_sequence e) + (1 + length (taker_fills ?tk b))"
    using wrap len by (simp only:) (intro unat_add_no_wrap, simp)
  have own: "unat (o_id ro) \<le> unat (next_sequence e)" if "ro \<in> set (resting ?s b')" for ro
    using that s(6) old id by (fastforce split: if_splits)
  have other: "unat (o_id ro) \<le> unat (next_sequence e)" if "ro \<in> set (resting (\<not> ?s) b')" for ro
    using that s(5) left by fastforce
  have "unat (o_id ro) \<le> unat (next_sequence e)" if "ro \<in> set (resting t b')" for t ro
    using that own other by (cases "t = ?s") simp_all
  then have both: "\<forall>t. \<forall>ro \<in> set (resting t b'). unat (o_id ro) \<le> unat (next_sequence e)" by blast
  have "unat (next_sequence e) < unat (next_sequence e')" using seq by linarith
  then have "ids_below e'" using ids_below_update [OF below(1) both s(3)] by blast
  moreover have "comes_to_rest (matched ?tk b) (resting ?s b) (other_side_left ?tk b)"
    if "0 < qty (o_remaining (matched ?tk b))" "is_limit ord" "o_tif ord \<noteq> IOC"
    using auto_id_rests [OF binv assms(2) auto fresh below(2) _ that] old left by fastforce
  then have "\<forall>r \<in> set (cs_results (collect trace)). reject_reason r \<noteq> ''duplicate order id''"
    using s(2) by (auto simp: outcome_def result_header_def SubmitResult_init_def is_limit_is_market)
  ultimately show ?thesis using s(1) by blast
qed


lemma new_book_resting [simp]: "resting s (new_OrderBook i) = []"
  by (simp add: resting_def priority_ids_def new_OrderBook_def ladder_def)

theorem auto_ids_never_collide_witness:
  "\<exists>e' trace. submit demo_env (\<lambda>_. 1) (Some (limit_order 0 6 Buy 100 20)) (register_instrument_id 1 new_Engine) = Some (e', trace) \<and>
    ids_below e' \<and> (\<forall>r \<in> set (cs_results (collect trace)). reject_reason r \<noteq> ''duplicate order id'')"
proof (rule auto_ids_never_collide)
  show "books (register_instrument_id 1 new_Engine) (o_instrument_id (limit_order 0 6 Buy 100 20)) = Some (new_OrderBook 1)"
    by (simp add: register_instrument_id_def new_Engine_def Let_def)
qed (auto simp: register_instrument_id_def new_Engine_def Let_def ids_below_def engine_ok_def book_ok_new admitted_def
      valid_submission_def consult_gate_def RiskDecision_ok_def risk_accept_def in_i64_def Quantity_is_valid_def
      Price_is_valid_def kMaxQuantity_def kMaxPriceTicks_def kInvalidInstrumentId_def kInvalidOrderId_def
      simp del: resting_length)

section \<open>Reads of freed orders\<close>

lemma OrderBook_fill_any_env:
  assumes "OrderBook_fill env x q b = Some (still_resting, b')"
  shows "(still_resting \<longrightarrow> OrderBook_fill env' x q b = Some (True, b')) \<and>
    (\<not> still_resting \<longrightarrow> OrderBook_fill env' x q b = None \<or> (\<exists>b''. OrderBook_fill env' x q b = Some (False, b'')))"
  using assms by (auto simp: OrderBook_fill_def Let_def split: option.splits bind_splits Option.bind_splits if_splits prod.splits)

lemma settled_intact [simp]: "freed_price_intact (settled env)"
  by (simp add: settled_def freed_price_intact_def)

lemma make_trade_settled [simp]: "make_trade (settled env) = make_trade env"
  by (simp add: fun_eq_iff make_trade_def settled_def)

lemma match_step_any_env:
  assumes inv: "book_inv b" and r: "resting (\<not> is_buy taker) b = ro # os" and acc: "acceptable_to taker (o_price ro)"
    and rem: "0 < qty (o_remaining taker)" "in_i64 (qty (o_remaining taker))" and env: "\<not> freed_readable env"
  shows "match_step env taker b seq = (if qty (o_remaining taker) < qty (o_remaining ro) then match_step (settled env) taker b seq else None)"
proof -
  from resting_Cons [OF inv r] obtain p ptr m l x xs ord where
    m: "ladder (\<not> is_buy taker) b = (p, ptr) # m" "levels b ptr = Some l" "level_inv (id_index b) l (x # xs)" and
    x: "id_index b x = Some ord" "ro = strip ord" and at: "order_at (id_index b) (\<not> is_buy taker) p x" by metis
  from at x have ord: "order_ok ord" "o_id ord = x" "o_price ord = p" by (auto simp: order_at_def)
  have best: "best_opposite_price (o_side taker) b = p" "best_opposite_order (o_side taker) b = Some (Some ord)"
    using m level_inv_head_order [OF m(3) x(1)] by (simp_all add: best_opposite_ladder best_price_def best_order_def)
  have p: "Price_is_valid p" using ord by (simp add: order_ok_def)
  let ?q = "if qty (o_remaining taker) > qty (o_remaining ord) then o_remaining ord else o_remaining taker"
  show ?thesis
  proof (cases "qty (o_remaining taker) < qty (o_remaining ro)")
    case True
    with fill_front_partial [OF inv r, of "o_remaining taker" "settled env"] rem x ord obtain b' where
      "OrderBook_fill (settled env) x ?q b = Some (True, b')" by auto
    with OrderBook_fill_any_env [OF this, of env] True show ?thesis
      by (simp add: match_step_def best Let_def ord)
  next
    case False
    with x(2) have "qty (o_remaining ro) \<le> qty ?q" by auto
    from fill_front_full [OF inv settled_intact r this, of env] x ord obtain b' where
      "OrderBook_fill (settled env) x ?q b = Some (False, b')" by auto
    with OrderBook_fill_any_env [OF this, of env] False acc p env ord x show ?thesis
      by (auto simp: match_step_def best Let_def acceptable_to_def)
  qed
qed

lemma match_loop_any_env:
  assumes inv: "book_inv b" and rem: "0 < qty (o_remaining taker)" "in_i64 (qty (o_remaining taker))" and env: "\<not> freed_readable env"
  shows "match_loop env taker b seq = (if consumes_front taker b then None else match_loop (settled env) taker b seq)"
proof (cases "\<exists>ro os. resting (\<not> is_buy taker) b = ro # os \<and> acceptable_to taker (o_price ro)")
  case False
  then have "match_step en taker b seq = Some None" for en using inv by (intro match_step_stop) auto
  with False show ?thesis by (auto simp: match_loop_stop consumes_front_def)
next
  case True
  then obtain ro os where r: "resting (\<not> is_buy taker) b = ro # os" "acceptable_to taker (o_price ro)" by blast
  note step = match_step_any_env [OF inv r rem env, of seq]
  show ?thesis
  proof (cases "qty (o_remaining taker) < qty (o_remaining ro)")
    case True
    from match_step_fill [OF inv settled_intact [of env] r rem, of seq] True obtain t b' where
      s: "match_step (settled env) taker b seq = Some (Some (t, taker\<lparr>o_remaining := Quantity 0\<rparr>, b'))" by auto
    then have s': "match_step env taker b seq = Some (Some (t, taker\<lparr>o_remaining := Quantity 0\<rparr>, b'))" using step True by simp
    have ends: "match_loop en (taker\<lparr>o_remaining := Quantity 0\<rparr>) b' (seq + 1) = Some (taker\<lparr>o_remaining := Quantity 0\<rparr>, b', seq + 1, [])" for en
      by (simp add: match_loop_done)
    show ?thesis using match_loop_step [OF rem(1) s ends] match_loop_step [OF rem(1) s' ends] True r by (simp add: consumes_front_def)
  next
    case False
    then show ?thesis using step rem r by (subst match_loop.simps) (simp add: consumes_front_def)
  qed
qed

text \<open>
  C36. The reads of freed orders, taken as the language has them. \<^verbatim>\<open>OrderBook::fill\<close> and \<^verbatim>\<open>MatchingEngine::match_against\<close>
  read an order that the fill has just destroyed (\<^verbatim>\<open>order_book.cpp:266\<close>, \<^verbatim>\<open>matching_engine.cpp:290\<close>). Where such a read is undefined,
  an order that passes validation and the risk gate has an undefined submission exactly when it accepts the order at the front of the
  other side and is large enough to consume it; every other such submission is defined.
\<close>

theorem submit_undefined_iff:
  assumes "engine_ok e" "admitted nows ord e" "books e (o_instrument_id ord) = Some b" "\<not> freed_readable env"
  shows "submit env nows (Some ord) e = None \<longleftrightarrow>
    (\<exists>ro os. resting (\<not> is_buy ord) b = ro # os \<and> acceptable_to ord (o_price ro) \<and> qty (o_remaining ro) \<le> qty (o_remaining ord))"
proof -
  let ?tk = "taker_of ord e"
  obtain d e1 where gate: "consult_gate nows (with_id ord e) e = (d, e1)" by fastforce
  have v: "valid_submission ord e" "in_i64 (qty (o_remaining ord))" "RiskDecision_ok d" "0 < qty (o_remaining ord)"
    using assms(2) gate by (auto simp: admitted_def valid_submission_def)
  note frame = consult_gate_frame [OF gate]
  have tk: "sequenced (with_id ord e) e1 = ?tk" using frame by (simp add: taker_of_def sequenced_def)
  have inv: "book_inv b" using assms(1,3) by (auto simp: engine_ok_def book_ok_def)
  have front: "consumes_front ?tk b \<longleftrightarrow> (\<exists>ro os. resting (\<not> is_buy ord) b = ro # os \<and> acceptable_to ord (o_price ro) \<and>
      qty (o_remaining ro) \<le> qty (o_remaining ord))"
    by (simp add: consumes_front_def acceptable_to_def)
  have book: "book (o_instrument_id ?tk) (e1\<lparr>next_sequence := n\<rparr>) = Some b" for n
    using assms(3) frame by (simp add: book_def taker_of_def sequenced_def)
  have loop: "match_loop env ?tk b n = (if consumes_front ?tk b then None else match_loop (settled env) ?tk b n)" for n
    using v by (intro match_loop_any_env inv assms(4)) simp_all
  have sub: "submit en nows (Some ord) e = accept_submit en (SubmitResult_init\<lparr>sr_order_id := o_id (with_id ord e),
      sr_instrument_id := o_instrument_id (with_id ord e)\<rparr>) (with_id ord e) e1" for en
    using v gate by (simp add: submit_valid)
  show ?thesis
  proof (cases "consumes_front ?tk b")
    case True
    then show ?thesis using loop front book unfolding sub by (simp add: accept_submit_def tk match_against_def Let_def)
  next
    case False
    then have "submit env nows (Some ord) e = submit (settled env) nows (Some ord) e"
      using loop book unfolding sub by (simp add: accept_submit_def tk match_against_def Let_def)
    moreover have "submit (settled env) nows (Some ord) e \<noteq> None"
      using submit_spec [OF assms(1,2) settled_intact assms(3), of env] by (metis option.distinct(1))
    ultimately show ?thesis using False unfolding front by auto
  qed
qed

theorem submit_undefined_iff_witness:
  "submit (demo_env\<lparr>freed_readable := False\<rparr>) (\<lambda>_. 1) (Some (limit_order 30 6 Buy 100 20)) demo_engine = None \<and>
   submit (demo_env\<lparr>freed_readable := False\<rparr>) (\<lambda>_. 1) (Some (limit_order 30 6 Buy 100 2)) demo_engine \<noteq> None"
proof -
  have "case resting False demo_book of [] \<Rightarrow> False | ro # os \<Rightarrow> o_price ro = Price 100 \<and> o_remaining ro = Quantity 5" by code_simp
  then obtain ro os where r: "resting False demo_book = ro # os" "o_price ro = Price 100" "o_remaining ro = Quantity 5"
    by (auto split: list.splits)
  have fields: "is_buy (limit_order 30 6 Buy 100 n)" "acceptable_to (limit_order 30 6 Buy 100 n) (Price 100)"
    "qty (o_remaining (limit_order 30 6 Buy 100 n)) = n" for n
    by (simp_all add: limit_order_def is_buy_def acceptable_to_def crosses_def Order_init_def)
  have "submit (demo_env\<lparr>freed_readable := False\<rparr>) (\<lambda>_. 1) (Some (limit_order 30 6 Buy 100 n)) demo_engine = None \<longleftrightarrow> 5 \<le> n"
    if "0 < n" "n \<le> 100" for n
  proof -
    have adm: "admitted (\<lambda>_. 1) (limit_order 30 6 Buy 100 n) demo_engine" using that by (intro demo_limit_admitted) simp_all
    show ?thesis
      using submit_undefined_iff [OF demo_engine_ok adm, of demo_book "demo_env\<lparr>freed_readable := False\<rparr>"] r fields [of n]
      by (simp add: demo_book_at)
  qed
  from this [of 20] this [of 2] show ?thesis by simp
qed

section \<open>Modifying into the other side\<close>

text \<open>
  C28. The level store is keyed by price alone. Modifying an order to a price at which the other side of
  the book has a level makes the new level's object die while the ladder still points to it: the
  operation's next access is undefined. \<^verbatim>\<open>MatchingEngine::modify\<close> does not rule this out.
\<close>

theorem modify_into_other_side_undefined:
  assumes inv: "engine_ok e" and b: "books e i = Some b" and x: "id_index b x = Some ord"
    and n: "Quantity_is_valid n" and p: "Price_is_valid p"
    and met: "\<exists>ro \<in> set (resting (\<not> is_buy ord) b). o_price ro = p"
  shows "engine_modify i x n p e = None"
proof -
  have binv: "book_inv b" using inv b by (auto simp: engine_ok_def book_ok_def)
  then have rel: "book_rel b (queues b)" by (simp add: book_inv_def)
  note ok = book_rel_index_ok [OF rel x]
  let ?s = "is_buy ord"
  from met have "at_price p (resting (\<not> ?s) b) \<noteq> []" by (auto simp: filter_empty_conv)
  then have q: "queues b (\<not> ?s) p \<noteq> []" by (simp add: at_price_resting [OF binv] abs_book_def)
  then have own: "queues b ?s p = []" using rel unfolding book_rel_def by (cases ?s) auto
  have np: "p \<noteq> o_price ord" using book_rel_indexD [OF rel x] own by auto
  from remove_from_level_rel [OF rel x] obtain b1 where
    rm: "remove_from_level x (o_price ord) ?s b = Some b1" and
    rel1: "book_rel (without x b1) (set_queue ?s (o_price ord) (remove1 x (queues b ?s (o_price ord))) (queues b))" and
    x1: "id_index b1 x = Some (ord\<lparr>list_node := null_node\<rparr>)" by blast
  from book_rel_None [OF rel1, of ?s p] own np have "map_of (ladder ?s b1) p = None" by simp
  moreover from book_rel_queueD [OF rel1, of "\<not> ?s" p] q have "level_storage b1 p \<noteq> None" by auto
  moreover have "append_to_level x p ?s (b1\<lparr>id_index := h\<rparr>) = None"
    if "map_of (ladder ?s b1) p = None" "level_storage b1 p \<noteq> None" for h
    using that by (auto simp: append_to_level_def get_or_create_level_def Let_def)
  ultimately have "OrderBook_modify x n p b = None"
    using x n p np rm x1 order_ok_active [OF ok(1)] ok(1)
    by (auto simp: OrderBook_modify_def is_limit_is_market order_ok_def Let_def)
  then show ?thesis by (simp add: engine_modify_def on_book_def book_def b)
qed

theorem modify_into_other_side_undefined_witness:
  "engine_modify 1 20 (Quantity 6) (Price 100) demo_engine = None"
proof -
  have "map_option is_buy (id_index demo_book 20) = Some True" by code_simp
  then obtain ord where ord: "id_index demo_book 20 = Some ord" "is_buy ord" by (auto split: option.splits)
  have "Price 100 \<in> set (map o_price (resting False demo_book))" by code_simp
  then have "\<exists>ro \<in> set (resting (\<not> is_buy ord) demo_book). o_price ro = Price 100" using ord by auto
  from modify_into_other_side_undefined [OF demo_engine_ok demo_book_at ord(1) _ _ this] show ?thesis
    by (simp add: Quantity_is_valid_def Price_is_valid_def kMaxQuantity_def kMaxPriceTicks_def)
qed

end
