(* ===== verification/Book_Properties.thy ===== *)
theory Book_Properties
  imports Market_Example
begin

text \<open>
  The correctness properties of the order book and of its price levels.
\<close>

section \<open>Aggregates, by definition\<close>

text \<open>The prices of a side, best first, and what a level of depth should report about a price.\<close>

definition prices :: "bool \<Rightarrow> OrderBook \<Rightarrow> Price list" where
  "prices s b = remdups_adj (map o_price (resting s b))"

definition level_report :: "bool \<Rightarrow> OrderBook \<Rightarrow> Price \<Rightarrow> DepthLevel" where
  "level_report s b p =
     \<lparr>dl_price = p, dl_total_quantity = Quantity (i64 (\<Sum>ro \<leftarrow> at_price p (resting s b). qty (o_remaining ro))),
      dl_order_count = of_nat (length (at_price p (resting s b)))\<rparr>"

definition empty_abs :: AbsBook where
  "empty_abs = \<lparr>aqueue = (\<lambda>_ _. []), aorders = Map.empty\<rparr>"

definition demo_book_commands :: "BookCommand list" where
  "demo_book_commands =
     [InsertOrder (limit_order 1 7 Buy 100 5), InsertOrder (limit_order 2 7 Buy 100 3),
      ModifyOrder 1 (Quantity 9) (Price 100), ReduceOrder 2 (Quantity 1), FillOrder 2 (Quantity 1)]"

section \<open>Refinement\<close>

text \<open>
  C2. The book refines its specification. Let a book be driven from empty by any sequence of inserts, cancels, reductions,
  modifications and fills that respects the caller's obligations (\<^const>\<open>book_cmd_ok\<close>), and suppose that the price of an order that
  a fill has just freed still reads as it was (\<^const>\<open>freed_price_intact\<close>; \<^verbatim>\<open>order_book.cpp:266\<close> makes this read, which the language
  leaves undefined). Then every operation returns, the book stays well-formed, and it holds exactly the queues and orders that
  the specification computes.
\<close>

theorem book_refines_queues:
  assumes "freed_price_intact env" "admissible (book_step env) book_cmd_ok cs (new_OrderBook i)"
  shows "\<exists>b. run_steps (book_step env) cs (new_OrderBook i) = Some b \<and> book_inv b \<and>
    abs_book b = fold spec_step cs empty_abs"
proof -
  have "abs_book (new_OrderBook i) = empty_abs"
    by (simp add: abs_book_def empty_abs_def new_OrderBook_def queues_def level_at_def ladder_def fun_eq_iff)
  with book.run_refines [of "new_OrderBook i" env cs] assms book_inv_new show ?thesis by simp
qed

theorem book_refines_queues_witness:
  "\<exists>b. run_steps (book_step demo_env) demo_book_commands (new_OrderBook 1) = Some b \<and> book_inv b \<and>
    aqueue (abs_book b) True (Price 100) = [1]"
proof -
  have "admissible (book_step demo_env) book_cmd_ok demo_book_commands (new_OrderBook 1)" by code_simp
  moreover have "aqueue (fold spec_step demo_book_commands empty_abs) True (Price 100) = [1]" by code_simp
  ultimately show ?thesis using book_refines_queues [OF demo_env_intact, of demo_book_commands 1] by auto
qed

text \<open>
  A price level is a FIFO queue: appending live orders one by one and removing any of them leaves
  the others in their order of arrival.
\<close>

theorem level_append_remove_fifo:
  assumes "level_queue s []" "distinct ys" "\<forall>y \<in> set ys. level_live s y" "x \<in> set ys"
  shows "\<exists>s1 s2. run_steps Level_append ys s = Some s1 \<and> Level_remove x s1 = Some s2 \<and> level_queue s2 (remove1 x ys)"
  by (rule level_fifo.append_all_remove [OF assms])

theorem level_append_remove_fifo_witness:
  "\<exists>s1 s2. run_steps Level_append [3, 1, 2] ((\<lambda>_. Some (limit_order 1 7 Buy 100 5)), new_Level (Price 100)) = Some s1 \<and>
    Level_remove 1 s1 = Some s2 \<and> level_queue s2 [3, 2]"
proof -
  have "level_queue ((\<lambda>_. Some (limit_order 1 7 Buy 100 5)), new_Level (Price 100)) []"
    by (simp add: level_queue_def level_inv_def new_Level_def)
  from level_append_remove_fifo [OF this, of "[3, 1, 2]" 1] show ?thesis by (simp add: level_live_def)
qed

section \<open>Mutations\<close>

text \<open>
  Insert. A well-formed order with a new id, at a price where the other side has no level, is
  accepted and placed behind every order at least as good as it; anything else is refused and the
  book keeps its queues.
\<close>

theorem insert_places_order:
  assumes "book_inv b" "is_open ord" "\<forall>ro \<in> set (resting (\<not> is_buy ord) b). o_price ro \<noteq> o_price ord"
  shows "\<exists>b'. OrderBook_insert (Some ord) b = Some (order_ok ord \<and> id_index b (o_id ord) = None, b') \<and> book_inv b' \<and>
    (\<forall>s. resting s b' = (if order_ok ord \<and> id_index b (o_id ord) = None \<and> s = is_buy ord
       then place s (strip ord) (resting s b) else resting s b))"
proof -
  have "at_price (o_price ord) (resting (\<not> is_buy ord) b) = []" using assms(3) by (simp add: filter_empty_conv)
  then have "queues b (\<not> is_buy ord) (o_price ord) = []" by (simp add: at_price_resting [OF assms(1)] abs_book_def)
  from OrderBook_insert_total [OF assms(1,2) this] show ?thesis by metis
qed

theorem insert_places_order_witness:
  "\<exists>b'. OrderBook_insert (Some (limit_order 30 6 Sell 100 9)) demo_book = Some (True, b') \<and>
    map o_id (resting False b') = [10, 12, 30, 11]"
proof -
  have "list_all (\<lambda>ro. o_price ro \<noteq> Price 100) (resting True demo_book)" "Option.is_none (id_index demo_book 30)"
    "order_ok (limit_order 30 6 Sell 100 9)"
    "map o_id (place False (strip (limit_order 30 6 Sell 100 9)) (resting False demo_book)) = [10, 12, 30, 11]"
    by code_simp+
  with insert_places_order [OF demo_book_ok(1), of "limit_order 30 6 Sell 100 9"] show ?thesis
    by (auto simp: list_all_iff Option.is_none_def)
qed

lemma dequeue_enqueue:
  assumes "o_id ord \<notin> set (aqueue A (is_buy ord) (o_price ord))" "aorders A (o_id ord) = None"
  shows "dequeue (strip ord) (enqueue ord A) = A"
  using assms by (cases A) (auto simp: dequeue_def enqueue_def remove1_append fun_upd_idem remove1_idem)

text \<open>
  Cancelling right after inserting restores the book: the same queues, the same orders.
\<close>

theorem insert_cancel_roundtrip:
  assumes inv: "book_inv b" and ord: "order_ok ord" "id_index b (o_id ord) = None"
    and free: "queues b (\<not> is_buy ord) (o_price ord) = []"
  shows "\<exists>b1 b2. OrderBook_insert (Some ord) b = Some (True, b1) \<and>
    OrderBook_cancel (o_id ord) b1 = Some (True, b2) \<and> abs_book b2 = abs_book b"
proof -
  have "is_open ord" using ord(1) by (simp add: order_ok_def)
  from insert_simulation [OF inv this free, of undefined] ord obtain b1 where
    b1: "map_option snd (OrderBook_insert (Some ord) b) = Some b1" "book_inv b1" "abs_book b1 = enqueue ord (abs_book b)"
    by (auto simp: book_step_def spec_step_def abs_orders)
  have at: "aorders (abs_book b1) (o_id ord) = Some (strip ord)" by (simp add: b1(3) enqueue_def)
  from cancel_simulation [OF b1(2), of undefined "o_id ord"] at obtain b2 where
    b2: "map_option snd (OrderBook_cancel (o_id ord) b1) = Some b2" "abs_book b2 = dequeue (strip ord) (abs_book b1)"
    by (auto simp: book_step_def spec_step_def)
  have "o_id ord \<notin> set (queues b (is_buy ord) (o_price ord))"
    using book_inv_order_at [OF inv, of "o_id ord"] ord(2) by (auto simp: order_at_def)
  then have "abs_book b2 = abs_book b"
    unfolding b2(2) b1(3) by (intro dequeue_enqueue) (simp_all add: abs_book_def ord(2))
  moreover have "OrderBook_insert (Some ord) b = Some (True, b1)"
    using b1(1) ord by (auto simp: OrderBook_insert_def order_ok_def)
  moreover have "OrderBook_cancel (o_id ord) b1 = Some (True, b2)"
  proof -
    from at obtain o1 where o1: "id_index b1 (o_id ord) = Some o1" by (auto simp: abs_orders)
    then have "order_ok o1" using book_rel_index_ok(1) [of b1 "queues b1"] b1(2) by (simp add: book_inv_def)
    with o1 b2(1) order_ok_active show ?thesis
      by (auto simp: OrderBook_cancel_def split: bind_splits)
  qed
  ultimately show ?thesis by blast
qed

theorem insert_cancel_roundtrip_witness:
  "\<exists>b1 b2. OrderBook_insert (Some (limit_order 30 6 Sell 100 9)) demo_book = Some (True, b1) \<and>
    OrderBook_cancel 30 b1 = Some (True, b2) \<and> abs_book b2 = abs_book demo_book"
proof -
  have "Option.is_none (id_index demo_book 30)" "order_ok (limit_order 30 6 Sell 100 9)" "queues demo_book True (Price 100) = []"
    by code_simp+
  with insert_cancel_roundtrip [OF demo_book_ok(1), of "limit_order 30 6 Sell 100 9"] show ?thesis
    by (auto simp: Option.is_none_def)
qed


lemma price_sorted_map:
  "(\<And>ro. o_price (f ro) = o_price ro) \<Longrightarrow> price_sorted s (map f os) = price_sorted s os"
  by (induction os) auto

lemma resting_in_place:
  assumes inv: "book_inv b" "book_inv b'" and f: "\<And>ro. o_price (f ro) = o_price ro"
    and upd: "abs_book b' = (abs_book b)\<lparr>aorders := (aorders (abs_book b))(x := map_option f (aorders (abs_book b) x))\<rparr>"
  shows "resting s b' = map (\<lambda>ro. if o_id ro = x then f ro else ro) (resting s b)"
proof (rule price_sorted_unique [OF resting_price_sorted [OF inv(2)]])
  let ?g = "\<lambda>ro. if o_id ro = x then f ro else ro"
  have g: "o_price (?g ro) = o_price ro" for ro using f by simp
  show "price_sorted s (map ?g (resting s b))" using resting_price_sorted [OF inv(1)] by (simp add: price_sorted_map [OF g])
  fix p
  have "at_price p (map ?g (resting s b)) = map ?g (at_price p (resting s b))"
    using f by (auto simp: filter_map o_def intro!: arg_cong [of _ _ "map _"] filter_cong)
  also have "\<dots> = map (\<lambda>y. ?g (the (aorders (abs_book b) y))) (queues b s p)"
    by (simp add: at_price_resting [OF inv(1)] abs_book_def)
  also have "\<dots> = map (\<lambda>y. the (aorders (abs_book b') y)) (queues b s p)"
  proof (rule map_cong [OF refl])
    fix y assume "y \<in> set (queues b s p)"
    then have "order_at (id_index b) s p y" by (rule book_inv_order_at [OF inv(1)])
    then obtain ord where "aorders (abs_book b) y = Some ord" "o_id ord = y"
      by (auto simp: order_at_def abs_orders split: option.splits)
    then show "?g (the (aorders (abs_book b) y)) = the (aorders (abs_book b') y)" by (auto simp: upd)
  qed
  also have "\<dots> = at_price p (resting s b')"
    using arg_cong [OF upd, of aqueue] by (simp add: at_price_resting [OF inv(2)] abs_book_def)
  finally show "at_price p (resting s b') = at_price p (map ?g (resting s b))" ..
qed


lemma modify_reduces:
  assumes inv: "book_inv b" and x: "id_index b x = Some ord"
    and v: "Quantity_is_valid n" "qty n < qty (o_remaining ord)"
  shows "\<exists>b'. OrderBook_modify x n (o_price ord) b = Some (Modified, b') \<and> book_inv b' \<and>
    (\<forall>s. resting s b' = map (\<lambda>ro. if o_id ro = x
       then reduced n ro\<lparr>o_quantity := o_quantity ro - (o_remaining ro - n)\<rparr> else ro) (resting s b))"
proof -
  from inv have rel: "book_rel b (queues b)" by (simp add: book_inv_def)
  from OrderBook_modify_reduce_rel [OF rel x v] obtain b' where
    b': "OrderBook_modify x n (o_price ord) b = Some (Modified, b')" "book_rel b' (queues b)"
      "id_index b' = (id_index b)(x \<mapsto> reduced n ord\<lparr>o_quantity := o_quantity ord - (o_remaining ord - n)\<rparr>)" by blast
  have inv': "book_inv b'" using b'(2) by (auto simp: book_inv_iff)
  have "abs_book b' = (abs_book b)\<lparr>aorders := (aorders (abs_book b))(x := map_option
      (\<lambda>ro. reduced n ro\<lparr>o_quantity := o_quantity ro - (o_remaining ro - n)\<rparr>) (aorders (abs_book b) x))\<rparr>"
    using b'(3) x book_rel_queues [OF b'(2)] by (auto simp: abs_book_def)
  from resting_in_place [OF inv inv' _ this] b'(1) inv' show ?thesis by simp
qed

lemma modify_replaces:
  assumes inv: "book_inv b" and x: "id_index b x = Some ord"
    and v: "Quantity_is_valid n" "Price_is_valid p" and change: "p \<noteq> o_price ord \<or> qty (o_remaining ord) < qty n"
    and free: "queues b (\<not> is_buy ord) p = []"
  shows "\<exists>b'. OrderBook_modify x n p b = Some (Replaced, b') \<and> book_inv b' \<and>
    (\<forall>s. resting s b' = (let others = filter (\<lambda>ro. o_id ro \<noteq> x) (resting s b)
       in if s = is_buy ord then place s (replaced n p (strip ord)) others else others))"
proof -
  from inv have rel: "book_rel b (queues b)" by (simp add: book_inv_def)
  note id = book_rel_index_ok(2) [OF rel x]
  from modify_simulation [OF inv, of x p undefined n] free x obtain b' where
    b': "map_option snd (OrderBook_modify x n p b) = Some b'" "book_inv b'"
      "abs_book b' = spec_step (ModifyOrder x n p) (abs_book b)" by (auto simp: book_step_def)
  from OrderBook_modify_replace_rel [OF rel x v change free] b'(1)
  have mod: "OrderBook_modify x n p b = Some (Replaced, b')" by auto
  from cancel_simulation [OF inv, of undefined x] x obtain b1 where
    b1: "book_inv b1" "abs_book b1 = dequeue (strip ord) (abs_book b)"
    by (auto simp: spec_step_def abs_orders)
  have "\<not> (p = o_price ord \<and> (n = o_remaining ord \<or> qty n < qty (o_remaining ord)))" using change by auto
  then have enq: "abs_book b' = enqueue (replaced n p (strip ord)) (abs_book b1)"
    using b'(3) x v by (auto simp: b1(2) spec_step_def abs_orders)
  have "aorders (abs_book b1) x = None" using id by (simp add: b1(2) dequeue_def)
  then have "id_index b1 (o_id (replaced n p (strip ord))) = None" using id by (simp add: abs_orders replaced_def)
  from resting_enqueue [OF b1(1) b'(2) enq this] resting_dequeue [OF inv b1(1,2) x]
  have "resting s b' = (let others = filter (\<lambda>ro. o_id ro \<noteq> x) (resting s b)
       in if s = is_buy ord then place s (replaced n p (strip ord)) others else others)" for s
    by simp (simp add: replaced_def is_buy_def strip_def)
  with mod b'(2) show ?thesis by blast
qed

text \<open>
  C10. Modify keeps or gives up priority as documented. Reducing the quantity at the same price changes
  the order in place; a new price or a larger quantity sends it to the back of the (new) price.
\<close>

theorem modify_priority:
  assumes inv: "book_inv b" and x: "id_index b x = Some ord" and v: "Quantity_is_valid n" "Price_is_valid p"
    and free: "\<forall>ro \<in> set (resting (\<not> is_buy ord) b). o_price ro \<noteq> p"
  shows "\<exists>result b'. OrderBook_modify x n p b = Some (result, b') \<and> book_inv b' \<and>
    (if p = o_price ord \<and> n = o_remaining ord then result = Modified \<and> b' = b
     else if p = o_price ord \<and> qty n < qty (o_remaining ord)
     then result = Modified \<and>
       (\<forall>s. resting s b' = map (\<lambda>ro. if o_id ro = x
          then reduced n ro\<lparr>o_quantity := o_quantity ro - (o_remaining ro - n)\<rparr> else ro) (resting s b))
     else result = Replaced \<and>
       (\<forall>s. resting s b' = (let others = filter (\<lambda>ro. o_id ro \<noteq> x) (resting s b)
          in if s = is_buy ord then place s (replaced n p (strip ord)) others else others)))"
proof -
  have "at_price p (resting (\<not> is_buy ord) b) = []" using free by (simp add: filter_empty_conv)
  then have q: "queues b (\<not> is_buy ord) p = []" by (simp add: at_price_resting [OF inv] abs_book_def)
  have ok: "order_ok ord" using book_rel_index_ok(1) [of b "queues b", OF _ x] inv by (simp add: book_inv_def)
  consider "p = o_price ord" "n = o_remaining ord" | "p = o_price ord" "qty n < qty (o_remaining ord)"
    | "p \<noteq> o_price ord \<or> qty (o_remaining ord) < qty n" by (metis Quantity.expand linorder_neqE)
  then show ?thesis
  proof cases
    case 1
    then have "OrderBook_modify x n p b = Some (Modified, b)"
      using x v ok order_ok_active [OF ok] by (simp add: OrderBook_modify_def is_limit_is_market order_ok_def)
    with 1 inv show ?thesis by simp
  next
    case 2
    with modify_reduces [OF inv x v(1) 2(2)] show ?thesis by auto
  next
    case 3
    from modify_replaces [OF inv x v 3 q] obtain b' where
      "OrderBook_modify x n p b = Some (Replaced, b')" "book_inv b'"
      "\<forall>s. resting s b' = (let others = filter (\<lambda>ro. o_id ro \<noteq> x) (resting s b)
          in if s = is_buy ord then place s (replaced n p (strip ord)) others else others)" by blast
    with 3 show ?thesis by (intro exI [of _ Replaced] exI [of _ b']) auto
  qed
qed

theorem modify_priority_witness:
  "\<exists>b'. OrderBook_modify 10 (Quantity 8) (Price 100) demo_book = Some (Replaced, b') \<and>
    map o_id (resting False b') = [12, 10, 11]"
proof -
  have "map_option (\<lambda>ord. (is_buy ord, o_price ord, o_remaining ord)) (id_index demo_book 10) = Some (False, Price 100, Quantity 5)"
    by code_simp
  then obtain ord where ord: "id_index demo_book 10 = Some ord" "\<not> is_buy ord" "o_price ord = Price 100" "o_remaining ord = Quantity 5"
    by auto
  have free: "list_all (\<lambda>ro. o_price ro \<noteq> Price 100) (resting True demo_book)"
    and ids: "map o_id (place False (replaced (Quantity 8) (Price 100) (strip (the (id_index demo_book 10))))
        (filter (\<lambda>ro. o_id ro \<noteq> 10) (resting False demo_book))) = [12, 10, 11]" by code_simp+
  from modify_priority [OF demo_book_ok(1) ord(1), of "Quantity 8" "Price 100"] free ids ord show ?thesis
    by (auto simp: list_all_iff Quantity_is_valid_def Price_is_valid_def kMaxQuantity_def kMaxPriceTicks_def)
qed


section \<open>Quotes and depth\<close>

lemma remdups_adj_blocks:
  assumes "distinct ks" "\<And>k. k \<in> set ks \<Longrightarrow> 0 < len k"
  shows "remdups_adj (concat (map (\<lambda>k. replicate (len k) k) ks)) = ks"
  using assms
proof (induction ks)
  case (Cons k ks)
  let ?rest = "concat (map (\<lambda>k. replicate (len k) k) ks)"
  obtain m where m: "len k = Suc m" using Cons.prems(2) [of k] by (cases "len k") auto
  have "k \<notin> set ?rest" using Cons.prems(1) by auto
  then have "?rest = [] \<or> last (replicate (len k) k) \<noteq> hd ?rest" using m by (metis hd_in_set last_replicate nat.distinct(1))
  then have "remdups_adj (replicate (len k) k @ ?rest) = k # remdups_adj ?rest"
    using m by (subst remdups_adj_append') (auto simp: remdups_adj_replicate simp del: replicate_Suc)
  with Cons show ?case by simp
qed simp

lemma ladder_prices:
  assumes inv: "book_inv b" shows "map fst (ladder s b) = prices s b"
proof -
  have blk: "map (\<lambda>x. o_price (strip (the (id_index b x)))) (queues b s p) = replicate (length (queues b s p)) p" for p
  proof -
    have "o_price (the (id_index b x)) = p" if "x \<in> set (queues b s p)" for x
      using queue_price [OF inv, of "strip (the (id_index b x))" s p] that by simp
    then show ?thesis by (simp add: map_replicate_const [symmetric])
  qed
  have "map o_price (resting s b) = concat (map (\<lambda>p. replicate (length (queues b s p)) p) (map fst (ladder s b)))"
    unfolding resting_def priority_ids_def
    by (simp add: map_concat o_def split_def blk [simplified])
  moreover have "0 < length (queues b s p)" if "p \<in> set (map fst (ladder s b))" for p
    using that book_inv_ladder [OF inv, of p _ s] by fastforce
  ultimately show ?thesis using book_inv_keys(1) [OF inv, of s] unfolding prices_def
    by (simp only: remdups_adj_blocks)
qed

lemma ladder_level:
  assumes inv: "book_inv b" and "(p, ptr) \<in> set (ladder s b)"
  shows "\<exists>l. levels b ptr = Some l \<and> \<lparr>dl_price = p, dl_total_quantity = total_quantity l, dl_order_count = order_count l\<rparr> = level_report s b p"
proof -
  from book_inv_ladder [OF assms] obtain l where
    l: "levels b ptr = Some l" "level_inv (id_index b) l (queues b s p)" by blast
  have at: "at_price p (resting s b) = map (\<lambda>x. strip (the (id_index b x))) (queues b s p)"
  proof -
    have "the (aorders (abs_book b) x) = strip (the (id_index b x))" if "x \<in> set (queues b s p)" for x
      using book_inv_order_at [OF inv that] by (auto simp: abs_orders order_at_def split: option.splits)
    then show ?thesis by (simp add: at_price_resting [OF inv] abs_book_def)
  qed
  have "map (rem_of (id_index b)) (queues b s p) = map (\<lambda>ro. qty (o_remaining ro)) (at_price p (resting s b))"
    unfolding at using book_inv_order_at [OF inv, of _ s p] by (force simp: rem_of_def order_at_def split: option.splits)
  with l at show ?thesis by (simp add: level_report_def level_inv_def)
qed

lemma depth_side_spec:
  assumes inv: "book_inv b" and "set m \<subseteq> set (ladder s b)"
  shows "depth_side k n b m = Some (map (level_report s b) (take (k - n) (map fst m)))"
  using assms(2)
proof (induction m arbitrary: n)
  case (Cons e m)
  obtain p ptr where e: "e = (p, ptr)" by fastforce
  with Cons.prems ladder_level [OF inv, of p ptr s] Cons.IH [of "Suc n"] show ?case
    by (cases "k \<le> n") (auto simp: take_Cons' diff_Suc split: nat.splits)
qed simp

text \<open>
  C21. Depth. A depth query returns, for each side, the first levels in price order with the price, the
  sum of the remaining quantities (modulo \<open>2 ^ 64\<close>) and the number of the orders at that price.
\<close>

theorem depth_reports_levels:
  assumes "book_inv b"
  shows "depth n b = Some (map (level_report True b) (take n (prices True b)), map (level_report False b) (take n (prices False b)))"
proof -
  have "bids b = ladder True b" "asks b = ladder False b" by (simp_all add: ladder_def)
  then show ?thesis
    using depth_side_spec [OF assms, of "bids b" True n 0] depth_side_spec [OF assms, of "asks b" False n 0]
      ladder_prices [OF assms, of True] ladder_prices [OF assms, of False] by (simp add: depth_def)
qed

theorem depth_reports_levels_witness:
  "depth 5 demo_book = Some
    ([\<lparr>dl_price = Price 98, dl_total_quantity = Quantity 6, dl_order_count = 1\<rparr>,
      \<lparr>dl_price = Price 97, dl_total_quantity = Quantity 3, dl_order_count = 1\<rparr>],
     [\<lparr>dl_price = Price 100, dl_total_quantity = Quantity 9, dl_order_count = 2\<rparr>,
      \<lparr>dl_price = Price 101, dl_total_quantity = Quantity 5, dl_order_count = 1\<rparr>])"
  unfolding depth_reports_levels [OF demo_book_ok(1)] by code_simp

text \<open>
  Quotes. The best price of a side is the price of the first order in priority (the invalid price on
  an empty side), the best order is that first order, and the top of book reports the level at that
  price; an empty side reports an invalid top.
\<close>

theorem quotes_report_best:
  assumes inv: "book_inv b"
  shows "case resting s b of
      [] \<Rightarrow> best_price (ladder s b) = Price kInvalidPrice \<and> best_order (ladder s b) b = Some None \<and>
        top_of (ladder s b) b = Some TopOfBook_init
    | ro # _ \<Rightarrow> best_price (ladder s b) = o_price ro \<and>
        map_option (map_option strip) (best_order (ladder s b) b) = Some (Some ro) \<and>
        (let r = level_report s b (o_price ro)
         in top_of (ladder s b) b = Some \<lparr>tob_valid = True, tob_price = o_price ro,
              tob_quantity = dl_total_quantity r, tob_order_count = dl_order_count r\<rparr>)"
proof (cases "resting s b")
  case Nil
  with resting_Nil [OF inv, of s] show ?thesis by (simp add: best_price_def best_order_def top_of_def)
next
  case (Cons ro os)
  from resting_Cons [OF inv Cons] obtain p ptr m l x xs ord where
    m: "ladder s b = (p, ptr) # m" "levels b ptr = Some l" "level_inv (id_index b) l (x # xs)" and
    x: "id_index b x = Some ord" "ro = strip ord" and at: "order_at (id_index b) s p x" by metis
  have p: "o_price ro = p" using at x by (simp add: order_at_def)
  from ladder_level [OF inv, of p ptr s] m have "\<lparr>dl_price = p, dl_total_quantity = total_quantity l, dl_order_count = order_count l\<rparr> = level_report s b p"
    by simp
  then have "dl_total_quantity (level_report s b p) = total_quantity l" "dl_order_count (level_report s b p) = order_count l"
    by (metis DepthLevel.select_convs)+
  with Cons m p x level_inv_head_order [OF m(3) x(1)] show ?thesis
    by (simp add: best_price_def best_order_def top_of_def Let_def)
qed

theorem quotes_report_best_witness:
  "best_ask demo_book = Price 100 \<and> top_ask demo_book = Some \<lparr>tob_valid = True, tob_price = Price 100, tob_quantity = Quantity 9, tob_order_count = 2\<rparr>"
proof -
  have r: "map o_price (resting False demo_book) = [Price 100, Price 100, Price 101]"
    "level_report False demo_book (Price 100) = \<lparr>dl_price = Price 100, dl_total_quantity = Quantity 9, dl_order_count = 2\<rparr>"
    by code_simp+
  then obtain ro os where "resting False demo_book = ro # os" "o_price ro = Price 100" by (cases "resting False demo_book") auto
  with quotes_report_best [OF demo_book_ok(1), of False] r(2) show ?thesis
    by (simp add: best_ask_def top_ask_def ladder_def)
qed

end
