(* ===== verification/Market_Data.thy ===== *)
theory Market_Data
  imports Market_Example
begin

text \<open>
  Market data: \<^verbatim>\<open>include/tt/market_data/events.hpp\<close>,
  \<^verbatim>\<open>include/tt/market_data/publisher.hpp\<close>,
  \<^verbatim>\<open>include/tt/market_data/recorder.hpp\<close> and
  \<^verbatim>\<open>src/market_data/publisher.cpp\<close>.

  The publisher is a sink of the engine. It keeps a ring of the latest events and the latest
  quote of every instrument, and calls its listeners; the calls it makes are returned as a
  sequence. It reads the engine from inside a sink call, so its operations take the engine as it
  is at that moment. The mutexes protect the ring and the listener list against other threads;
  the operations modelled here run to completion on the matching thread.
\<close>

section \<open>Events\<close>

datatype EventKind =
  OrderAccepted | OrderRested | OrderRejected | OrderCancelled | OrderFilled | OrderPartiallyFilled
  | OrderModified | TradeEvent | TopOfBookChanged

record OrderPayload =
  op_order_id :: OrderId
  op_trader_id :: TraderId
  op_instrument :: InstrumentId
  op_side :: Side
  op_type :: OrderType
  op_price :: Price
  op_qty :: Quantity

definition OrderPayload_init :: OrderPayload where
  "OrderPayload_init =
     \<lparr>op_order_id = kInvalidOrderId, op_trader_id = 0, op_instrument = kInvalidInstrumentId,
      op_side = Buy, op_type = Limit, op_price = Price 0, op_qty = Quantity 0\<rparr>"

record TobPayload =
  tp_instrument :: InstrumentId
  tp_bid_price :: Price
  tp_bid_qty :: Quantity
  tp_ask_price :: Price
  tp_ask_qty :: Quantity

record Event =
  e_kind :: EventKind
  e_sequence :: Sequence
  e_timestamp :: Timestamp
  e_order :: OrderPayload
  e_trade :: Trade
  e_tob :: TobPayload
  e_reject_reason :: string

definition Event_init :: Event where
  "Event_init =
     \<lparr>e_kind = OrderAccepted, e_sequence = 0, e_timestamp = 0, e_order = OrderPayload_init,
      e_trade = Trade_init,
      e_tob = \<lparr>tp_instrument = kInvalidInstrumentId, tp_bid_price = Price 0, tp_bid_qty = Quantity 0,
               tp_ask_price = Price 0, tp_ask_qty = Quantity 0\<rparr>,
      e_reject_reason = ''''\<rparr>"

definition make_trade_event :: "Trade \<Rightarrow> Event" where
  "make_trade_event t =
     Event_init\<lparr>e_kind := TradeEvent, e_sequence := t_sequence t, e_timestamp := t_timestamp t, e_trade := t\<rparr>"

definition make_reject_event :: "OrderId \<Rightarrow> Sequence \<Rightarrow> Timestamp \<Rightarrow> string \<Rightarrow> Event" where
  "make_reject_event x seq ts reason =
     Event_init\<lparr>e_kind := OrderRejected, e_sequence := seq, e_timestamp := ts,
       e_order := OrderPayload_init\<lparr>op_order_id := x\<rparr>, e_reject_reason := reason\<rparr>"

record TopOfBookSnapshot =
  s_instrument :: InstrumentId
  has_bid :: bool
  s_bid_price :: Price
  s_bid_qty :: Quantity
  has_ask :: bool
  s_ask_price :: Price
  s_ask_qty :: Quantity

definition TopOfBookSnapshot_init :: TopOfBookSnapshot where
  "TopOfBookSnapshot_init =
     \<lparr>s_instrument = kInvalidInstrumentId, has_bid = False, s_bid_price = Price 0, s_bid_qty = Quantity 0,
      has_ask = False, s_ask_price = Price 0, s_ask_qty = Quantity 0\<rparr>"

section \<open>The publisher\<close>

text \<open>A listener is identified by its address.\<close>

type_synonym ListenerId = nat

datatype ListenerCall = ListenerEvent Event | ListenerTob TopOfBookSnapshot

record Publisher =
  snapshots :: "InstrumentId \<rightharpoonup> TopOfBookSnapshot"
  ring :: "nat \<Rightarrow> Event"
  ring_head :: nat
  ring_count :: nat
  listeners :: "ListenerId list"

definition kEventRingCapacity :: nat where "kEventRingCapacity = 4096"

definition new_Publisher :: Publisher where
  "new_Publisher =
     \<lparr>snapshots = Map.empty, ring = (\<lambda>_. Event_init), ring_head = 0, ring_count = 0, listeners = []\<rparr>"

type_synonym ListenerCalls = "(ListenerId \<times> ListenerCall) list"

definition snapshot_of :: "OrderBook option \<Rightarrow> TopOfBookSnapshot option" where
  "snapshot_of ob =
     (case ob of
        None \<Rightarrow> Some TopOfBookSnapshot_init
      | Some b \<Rightarrow>
          do { bid \<leftarrow> top_bid b;
               ask \<leftarrow> top_ask b;
               let s = TopOfBookSnapshot_init\<lparr>s_instrument := instrument b\<rparr>;
               let s1 = (if tob_valid bid
                         then s\<lparr>has_bid := True, s_bid_price := tob_price bid, s_bid_qty := tob_quantity bid\<rparr> else s);
               Some (if tob_valid ask
                     then s1\<lparr>has_ask := True, s_ask_price := tob_price ask, s_ask_qty := tob_quantity ask\<rparr>
                     else s1) })"

definition notify_event :: "Event \<Rightarrow> Publisher \<Rightarrow> Publisher \<times> ListenerCalls" where
  "notify_event ev p =
     (p\<lparr>ring := (ring p)(ring_head p := ev),
        ring_head := (ring_head p + 1) mod kEventRingCapacity,
        ring_count := if ring_count p < kEventRingCapacity then ring_count p + 1 else ring_count p\<rparr>,
      map (\<lambda>l. (l, ListenerEvent ev)) (listeners p))"

definition notify_tob :: "Engine \<Rightarrow> InstrumentId \<Rightarrow> Publisher \<Rightarrow> (Publisher \<times> ListenerCalls) option" where
  "notify_tob eng i p =
     (case book i eng of
        None \<Rightarrow> Some (p, [])
      | Some ob \<Rightarrow>
          do { s \<leftarrow> snapshot_of (Some ob);
               Some (p\<lparr>snapshots := (snapshots p)(i \<mapsto> s)\<rparr>, map (\<lambda>l. (l, ListenerTob s)) (listeners p)) })"

definition publisher_on_trade :: "Engine \<Rightarrow> Trade \<Rightarrow> Publisher \<Rightarrow> (Publisher \<times> ListenerCalls) option" where
  "publisher_on_trade eng t p =
     (let (p1, calls1) = notify_event (make_trade_event t) p
      in do { (p2, calls2) \<leftarrow> notify_tob eng (t_instrument_id t) p1;
              Some (p2, calls1 @ calls2) })"

definition result_event :: "SubmitResult \<Rightarrow> Event" where
  "result_event r =
     (let ev = Event_init\<lparr>e_sequence := sr_sequence r, e_timestamp := 0,
                 e_order := OrderPayload_init\<lparr>op_order_id := sr_order_id r, op_qty := resting_quantity r\<rparr>\<rparr>
      in case sr_status r of
           Accepted \<Rightarrow> ev\<lparr>e_kind := OrderRested\<rparr>
         | FullyFilled \<Rightarrow> ev\<lparr>e_kind := OrderFilled\<rparr>
         | PartiallyFilled \<Rightarrow> ev\<lparr>e_kind := OrderPartiallyFilled\<rparr>
         | Cancelled \<Rightarrow> ev\<lparr>e_kind := OrderCancelled\<rparr>
         | Rejected \<Rightarrow> ev\<lparr>e_kind := OrderRejected, e_reject_reason := reject_reason r\<rparr>)"

definition publisher_on_submit_result ::
    "Engine \<Rightarrow> SubmitResult \<Rightarrow> Publisher \<Rightarrow> (Publisher \<times> ListenerCalls) option" where
  "publisher_on_submit_result eng r p =
     (let (p1, calls1) = notify_event (result_event r) p
      in if sr_status r = Accepted \<or> sr_status r = PartiallyFilled \<or> sr_status r = FullyFilled
         then do { (p2, calls2) \<leftarrow> notify_tob eng (sr_instrument_id r) p1;
                   Some (p2, calls1 @ calls2) }
         else Some (p1, calls1))"

definition top_of_book :: "Engine \<Rightarrow> InstrumentId \<Rightarrow> Publisher \<Rightarrow> TopOfBookSnapshot option" where
  "top_of_book eng i p =
     (case snapshots p i of Some s \<Rightarrow> Some s | None \<Rightarrow> snapshot_of (book i eng))"

definition bid_depth :: "Engine \<Rightarrow> InstrumentId \<Rightarrow> nat \<Rightarrow> DepthLevel list option" where
  "bid_depth eng i n =
     (case book i eng of None \<Rightarrow> Some [] | Some ob \<Rightarrow> map_option fst (depth n ob))"

definition ask_depth :: "Engine \<Rightarrow> InstrumentId \<Rightarrow> nat \<Rightarrow> DepthLevel list option" where
  "ask_depth eng i n =
     (case book i eng of None \<Rightarrow> Some [] | Some ob \<Rightarrow> map_option snd (depth n ob))"

definition subscribe :: "ListenerId \<Rightarrow> Publisher \<Rightarrow> Publisher" where
  "subscribe l p = (if l \<in> set (listeners p) then p else p\<lparr>listeners := listeners p @ [l]\<rparr>)"

definition unsubscribe :: "ListenerId \<Rightarrow> Publisher \<Rightarrow> Publisher" where
  "unsubscribe l p = p\<lparr>listeners := remove1 l (listeners p)\<rparr>"

definition recent_events :: "nat \<Rightarrow> Publisher \<Rightarrow> Event list" where
  "recent_events max_n p =
     (let n = min max_n (ring_count p)
      in map (\<lambda>i. ring p ((ring_head p + kEventRingCapacity - 1 - i) mod kEventRingCapacity)) [0..<n])"

text \<open>The listener that records what it is told.\<close>

record RecordingListener =
  rl_events :: "Event list"
  rl_snapshots :: "TopOfBookSnapshot list"

fun RecordingListener_on :: "ListenerCall \<Rightarrow> RecordingListener \<Rightarrow> RecordingListener" where
  "RecordingListener_on (ListenerEvent ev) r = r\<lparr>rl_events := rl_events r @ [ev]\<rparr>"
| "RecordingListener_on (ListenerTob s) r = r\<lparr>rl_snapshots := rl_snapshots r @ [s]\<rparr>"

section \<open>The publisher as a sink\<close>

fun publisher_on :: "SinkEvent \<times> Engine \<Rightarrow> Publisher \<Rightarrow> (Publisher \<times> ListenerCalls) option" where
  "publisher_on (OnTrade t, eng) p = publisher_on_trade eng t p"
| "publisher_on (OnSubmitResult r, eng) p = publisher_on_submit_result eng r p"

fun publish :: "SinkTrace \<Rightarrow> Publisher \<Rightarrow> (Publisher \<times> ListenerCalls) option" where
  "publish [] p = Some (p, [])"
| "publish (ev # evs) p =
     do { (p1, calls1) \<leftarrow> publisher_on ev p;
          (p2, calls2) \<leftarrow> publish evs p1;
          Some (p2, calls1 @ calls2) }"

fun event_of :: "SinkEvent \<Rightarrow> Event" where
  "event_of (OnTrade t) = make_trade_event t"
| "event_of (OnSubmitResult r) = result_event r"

text \<open>The ring holds the latest events \<open>es\<close> (oldest first) the publisher was told of.\<close>

definition ring_holds :: "Publisher \<Rightarrow> Event list \<Rightarrow> bool" where
  "ring_holds p es \<longleftrightarrow>
     ring_head p = length es mod kEventRingCapacity \<and>
     ring_count p = min (length es) kEventRingCapacity \<and>
     (\<forall>k < length es. length es \<le> k + kEventRingCapacity \<longrightarrow> ring p (k mod kEventRingCapacity) = es ! k)"

text \<open>The cached quotes are those of the books.\<close>

definition in_sync :: "Publisher \<Rightarrow> Engine \<Rightarrow> bool" where
  "in_sync p eng \<longleftrightarrow>
     (\<forall>i s. snapshots p i = Some s \<longrightarrow>
        (\<exists>b. books eng i = Some b \<and> snapshot_of (Some b) = Some s))"


text \<open>A published order cancelled through the engine: the published quote and the actual one.\<close>

definition quote_after_cancel :: "(TopOfBookSnapshot \<times> TopOfBookSnapshot) option" where
  "quote_after_cancel =
     do { (e1, trace) \<leftarrow> submit demo_env (\<lambda>_. 1) (Some (limit_order 30 6 Buy 99 20)) demo_engine;
          (p, _) \<leftarrow> publish trace new_Publisher;
          (_, e2) \<leftarrow> engine_cancel 1 30 e1;
          published \<leftarrow> top_of_book e2 1 p;
          actual \<leftarrow> snapshot_of (book 1 e2);
          Some (published, actual) }"

section \<open>The event ring\<close>

lemma capacity_pos [simp]: "0 < kEventRingCapacity"
  by (simp add: kEventRingCapacity_def)

lemma ring_holds_new: "ring_holds new_Publisher []"
  by (simp add: ring_holds_def new_Publisher_def)

lemma mod_eq_close:
  assumes "(k::nat) < n" "n < k + c" shows "k mod c \<noteq> n mod c"
proof
  assume "k mod c = n mod c"
  then have "c dvd n - k" using assms(1) by (metis less_imp_le_nat mod_eq_dvd_iff_nat)
  then have "c \<le> n - k" using assms(1) by (intro dvd_imp_le) auto
  with assms show False by linarith
qed

lemma notify_event_ring:
  assumes "ring_holds p es" shows "ring_holds (fst (notify_event ev p)) (es @ [ev])"
proof -
  let ?c = kEventRingCapacity
  have head: "ring_head p = length es mod ?c" and count: "ring_count p = min (length es) ?c" and
    at: "\<And>k. k < length es \<Longrightarrow> length es \<le> k + ?c \<Longrightarrow> ring p (k mod ?c) = es ! k"
    using assms by (auto simp: ring_holds_def)
  have "((ring p)(ring_head p := ev)) (k mod ?c) = (es @ [ev]) ! k"
    if k: "k < Suc (length es)" "Suc (length es) \<le> k + ?c" for k
  proof (cases "k = length es")
    case True
    then show ?thesis by (simp add: head)
  next
    case False
    with k have "k < length es" "length es < k + ?c" by auto
    with mod_eq_close [OF this] at [of k] show ?thesis by (simp add: head nth_append)
  qed
  then show ?thesis using head count by (auto simp: ring_holds_def notify_event_def mod_Suc_eq)
qed

lemma recent_events_spec:
  assumes "ring_holds p es" shows "recent_events n p = take (min n kEventRingCapacity) (rev es)"
proof -
  let ?c = kEventRingCapacity
  let ?n = "min n (min (length es) ?c)"
  have "ring p ((ring_head p + ?c - 1 - i) mod ?c) = rev es ! i" if i: "i < ?n" for i
  proof -
    let ?k = "length es - 1 - i"
    have k: "?k < length es" "length es \<le> ?k + ?c" using i by auto
    have "(length es mod ?c + (?c - 1 - i)) mod ?c = (length es + (?c - 1 - i)) mod ?c" by (simp add: mod_add_left_eq)
    also have "length es + (?c - 1 - i) = ?k + ?c" using i by auto
    also have "(?k + ?c) mod ?c = ?k mod ?c" by simp
    finally have "(ring_head p + ?c - 1 - i) mod ?c = ?k mod ?c"
      using assms i by (simp add: ring_holds_def Suc_diff_Suc)
    with assms k i show ?thesis by (simp add: ring_holds_def rev_nth)
  qed
  then show ?thesis using assms
    by (intro nth_equalityI) (auto simp: recent_events_def Let_def ring_holds_def)
qed

lemma notify_tob_ring: "notify_tob eng i p = Some (p', calls) \<Longrightarrow> ring_holds p es \<Longrightarrow> ring_holds p' es"
  by (auto simp: notify_tob_def ring_holds_def split: option.splits bind_splits)

lemma publisher_on_cases:
  assumes "publisher_on (a, eng) p = Some (p', calls)"
  obtains p1 c1 where "notify_event (event_of a) p = (p1, c1)" "p' = p1"
  | p1 c1 i c2 where "notify_event (event_of a) p = (p1, c1)" "notify_tob eng i p1 = Some (p', c2)"
  using assms
  by (cases a) (auto simp: publisher_on_trade_def publisher_on_submit_result_def Let_def
      split: prod.splits bind_splits if_splits)

lemma publisher_on_ring:
  assumes "publisher_on (a, eng) p = Some (p', calls)" "ring_holds p es"
  shows "ring_holds p' (es @ [event_of a])"
  by (rule publisher_on_cases [OF assms(1)])
    (use notify_event_ring [OF assms(2), of "event_of a"] in \<open>auto dest: notify_tob_ring\<close>)

lemma publish_ring:
  assumes "publish evs p = Some (p', calls)" "ring_holds p es"
  shows "ring_holds p' (es @ map (event_of \<circ> fst) evs)"
  using assms
proof (induction evs arbitrary: p es calls)
  case (Cons ev evs)
  obtain a eng where ev: "ev = (a, eng)" by fastforce
  from Cons.prems(1) obtain p1 c1 c2 where "publisher_on (a, eng) p = Some (p1, c1)" "publish evs p1 = Some (p', c2)"
    by (auto simp: ev split: bind_splits)
  with Cons.IH [of p1 c2 "es @ [event_of a]"] publisher_on_ring Cons.prems(2) show ?case by (simp add: ev)
qed simp


section \<open>Quotes in step with the books\<close>

lemma snapshot_total: "book_inv b \<Longrightarrow> \<exists>s. snapshot_of (Some b) = Some s"
proof -
  assume inv: "book_inv b"
  have "\<exists>t. top_of (ladder s b) b = Some t" for s
  proof (cases "ladder s b")
    case (Cons e m)
    with book_inv_ladder [OF inv, of "fst e" "snd e" s] show ?thesis by (auto simp: top_of_def split_def)
  qed (simp add: top_of_def)
  from this [of True] this [of False] show ?thesis
    by (auto simp: snapshot_of_def top_bid_def top_ask_def ladder_def Let_def)
qed

lemma notify_event_snapshots [simp]:
  "snapshots (fst (notify_event ev p)) = snapshots p" "listeners (fst (notify_event ev p)) = listeners p"
  by (simp_all add: notify_event_def)

lemma notify_tob_sync:
  assumes "books eng i = Some b" "book_inv b" "\<And>j. j \<noteq> i \<Longrightarrow> books eng j = books eng0 j" "in_sync p eng0"
  shows "\<exists>p' calls. notify_tob eng i p = Some (p', calls) \<and> in_sync p' eng"
proof -
  from snapshot_total [OF assms(2)] obtain s where s: "snapshot_of (Some b) = Some s" by blast
  with assms show ?thesis by (auto simp: notify_tob_def book_def in_sync_def)
qed

lemma in_sync_event [simp]: "in_sync (fst (notify_event ev p)) eng = in_sync p eng"
  by (simp add: in_sync_def)

lemma publisher_on_trade_sync:
  assumes "books en = (books e)(i \<mapsto> bi)" "book_inv bi" "t_instrument_id t = i" "in_sync p (e\<lparr>books := (books e)(i \<mapsto> b)\<rparr>)"
  shows "\<exists>p' calls. publisher_on (OnTrade t, en) p = Some (p', calls) \<and> in_sync p' (e\<lparr>books := (books e)(i \<mapsto> bi)\<rparr>)"
proof -
  obtain p1 c1 where p1: "notify_event (make_trade_event t) p = (p1, c1)" by fastforce
  then have "in_sync p1 (e\<lparr>books := (books e)(i \<mapsto> b)\<rparr>)" using assms(4) in_sync_event [of "make_trade_event t" p] by simp
  from notify_tob_sync [OF _ assms(2) _ this, of en i] assms(1,3) obtain p' c2 where
    "notify_tob en i p1 = Some (p', c2)" "in_sync p' en" by auto
  then show ?thesis using p1 assms(1,3) by (auto simp: publisher_on_trade_def in_sync_def)
qed

lemma publish_trades_sync:
  assumes "in_sync p (e\<lparr>books := (books e)(i \<mapsto> b)\<rparr>)" "callbacks_ok i b b' e trades"
  shows "\<exists>p' calls. publish trades p = Some (p', calls) \<and> in_sync p' (e\<lparr>books := (books e)(i \<mapsto> b')\<rparr>)"
  using assms
proof (induction trades arbitrary: p b)
  case Nil
  then show ?case by (simp add: callbacks_ok_def)
next
  case (Cons ev trades)
  from Cons.prems(2) obtain t en bi where ev: "ev = (OnTrade t, en)" "t_instrument_id t = i" "books en = (books e)(i \<mapsto> bi)" "book_inv bi"
    by (cases ev) (auto simp: callbacks_ok_def)
  from publisher_on_trade_sync [OF ev(3,4,2) Cons.prems(1)] obtain p1 c1 where
    p1: "publisher_on ev p = Some (p1, c1)" "in_sync p1 (e\<lparr>books := (books e)(i \<mapsto> bi)\<rparr>)" by (auto simp: ev(1))
  have "callbacks_ok i bi b' e trades"
    using Cons.prems(2) ev by (auto simp: callbacks_ok_def dest: map_upd_eqD1)
  from Cons.IH [OF p1(2) this] p1(1) show ?case by auto
qed

lemma publish_append:
  "publish (evs @ evs') p = Option.bind (publish evs p) (\<lambda>(p1, c1).
     Option.bind (publish evs' p1) (\<lambda>(p2, c2). Some (p2, c1 @ c2)))"
  by (induction evs arbitrary: p) (auto split: bind_splits Option.bind_splits prod.splits option.splits)

text \<open>The sink calls of a submission.\<close>

lemma submit_shape:
  assumes ok: "engine_ok e" and cmd: "engine_cmd_ok (SubmitCmd env nows order) e"
  obtains (rejected) e' r where "submit env nows order e = Some (e', [(OnSubmitResult r, e')])" "sr_status r = Rejected"
      "books e' = books e"
    | (accepted) i b b1 b' e' trades r where "submit env nows order e = Some (e', trades @ [(OnSubmitResult r, e')])"
      "books e i = Some b" "callbacks_ok i b b1 e trades" "books e' = (books e)(i \<mapsto> b')" "book_inv b'"
      "sr_instrument_id r = i" "sr_status r \<in> {Rejected, Cancelled} \<longrightarrow> b' = b1"
proof (cases "\<exists>ord. order = Some ord \<and> admitted nows ord e")
  case True
  then obtain ord where ord: "order = Some ord" "admitted nows ord e" by blast
  obtain d e1 where gate: "consult_gate nows (with_id ord e) e = (d, e1)" by fastforce
  note frame = consult_gate_frame [OF gate]
  have v: "valid_submission ord e" "is_open ord" "in_i64 (qty (o_remaining ord))" "RiskDecision_ok d"
    using ord(2) gate by (auto simp: admitted_def)
  from v(1) obtain b where b: "books e (o_instrument_id ord) = Some b" by (auto simp: valid_submission_def)
  then have binv: "book_inv b" using ok by (auto simp: engine_ok_def book_ok_def)
  let ?r = "SubmitResult_init\<lparr>sr_order_id := o_id (with_id ord e), sr_instrument_id := o_instrument_id (with_id ord e)\<rparr>"
  have b1: "books e1 (o_instrument_id (with_id ord e)) = Some b" and env: "freed_price_intact env"
    and ord': "is_open (with_id ord e)" "in_i64 (qty (o_remaining (with_id ord e)))"
    using b frame cmd v by (simp_all add: ord(1))
  from accept_submit_spec [OF binv b1 env ord', of ?r] obtain e' trace b' where
    acc: "accept_submit env ?r (with_id ord e) e1 = Some (e', trace)" and
    shape: "\<exists>trades r b1. trace = trades @ [(OnSubmitResult r, e')] \<and> sr_instrument_id r = sr_instrument_id ?r \<and>
       callbacks_ok (o_instrument_id (with_id ord e)) b b1 e1 trades \<and> (sr_status r \<in> {Rejected, Cancelled} \<longrightarrow> b' = b1)" and
    e': "e' = e1\<lparr>books := (books e1)(o_instrument_id (with_id ord e) \<mapsto> b'),
           next_sequence := next_sequence e1 + 1 + of_nat (length (taker_fills (sequenced (with_id ord e) e1) b))\<rparr>"
      "book_inv b'" by blast
  from shape obtain trades r b1 where "trace = trades @ [(OnSubmitResult r, e')]" "sr_instrument_id r = o_instrument_id ord"
    "callbacks_ok (o_instrument_id ord) b b1 e1 trades" "sr_status r \<in> {Rejected, Cancelled} \<longrightarrow> b' = b1" by auto
  with acc e' v gate b frame show thesis
    by (intro accepted [of e' trades r "o_instrument_id ord" b b1 b'])
      (auto simp: ord(1) submit_valid callbacks_ok_def)
next
  case False
  show thesis
  proof (cases order)
    case None
    then show thesis by (intro rejected [of e]) (auto simp: submit_def reject_def)
  next
    case (Some ord)
    obtain d e1 where gate: "consult_gate nows (with_id ord e) e = (d, e1)" by fastforce
    show thesis
    proof (cases "valid_submission ord e")
      case True
      then have "\<not> RiskDecision_ok d" using False Some cmd gate by (auto simp: admitted_def)
      then show thesis using True Some gate consult_gate_frame [OF gate]
        by (intro rejected [of e1]) (auto simp: submit_valid reject_def)
    next
      case invalid: False
      then show thesis using submit_invalid [OF invalid, of env nows] Some rejected by blast
    qed
  qed
qed

lemma publish_submit_sync:
  assumes ok: "engine_ok e" and cmd: "engine_cmd_ok (SubmitCmd env nows order) e" and sync: "in_sync p e"
  shows "\<exists>e' trace p' calls. submit env nows order e = Some (e', trace) \<and> publish trace p = Some (p', calls) \<and> in_sync p' e'"
  using ok cmd
proof (cases rule: submit_shape)
  case (rejected e' r)
  then have "in_sync (fst (notify_event (result_event r) p)) e'" using sync by (simp add: in_sync_def)
  with rejected show ?thesis
    by (cases "notify_event (result_event r) p") (auto simp: publisher_on_submit_result_def)
next
  case (accepted i b b1 b' e' trades r)
  have "e\<lparr>books := (books e)(i \<mapsto> b)\<rparr> = e" using accepted(2) by (simp add: fun_upd_idem)
  with publish_trades_sync [of p e i b b1 trades] sync accepted(3) obtain p1 c1 where
    p1: "publish trades p = Some (p1, c1)" "in_sync p1 (e\<lparr>books := (books e)(i \<mapsto> b1)\<rparr>)" by auto
  obtain p2 c2 where p2: "notify_event (result_event r) p1 = (p2, c2)" by fastforce
  then have sync2: "in_sync p2 (e\<lparr>books := (books e)(i \<mapsto> b1)\<rparr>)" using p1(2) in_sync_event [of "result_event r" p1] by simp
  have "\<exists>p' calls. publisher_on (OnSubmitResult r, e') p1 = Some (p', calls) \<and> in_sync p' e'"
  proof (cases "sr_status r \<in> {Rejected, Cancelled}")
    case True
    with accepted(7) have "b' = b1" by blast
    with accepted(4) have "books e' = books (e\<lparr>books := (books e)(i \<mapsto> b1)\<rparr>)" by simp
    with sync2 have "in_sync p2 e'" by (simp only: in_sync_def)
    with True show ?thesis by (auto simp: publisher_on_submit_result_def p2)
  next
    case False
    then have st: "sr_status r = Accepted \<or> sr_status r = PartiallyFilled \<or> sr_status r = FullyFilled"
      by (cases "sr_status r") auto
    from notify_tob_sync [OF _ accepted(5) _ sync2, of e' i] accepted(4) obtain p' c3 where
      "notify_tob e' i p2 = Some (p', c3)" "in_sync p' e'" by auto
    with st accepted(6) show ?thesis by (auto simp: publisher_on_submit_result_def p2)
  qed
  then show ?thesis using p1(1) accepted(1) by (auto simp: publish_append)
qed

section \<open>Properties\<close>

text \<open>
  C13. The ring of recent events. Whatever sink calls a new publisher has handled, a query for the last
  \<open>n\<close> events returns the latest events in reverse order of their arrival, as many as were
  asked for, exist and fit into the ring.
\<close>

theorem recent_events_are_latest:
  assumes "publish trace new_Publisher = Some (p, calls)"
  shows "recent_events n p = take (min n kEventRingCapacity) (rev (map (event_of \<circ> fst) trace))"
  using recent_events_spec [OF publish_ring [OF assms ring_holds_new]] by simp

theorem recent_events_are_latest_witness:
  "map e_kind (recent_events 2 (fst (the (publish
     [(OnSubmitResult SubmitResult_init, new_Engine), (OnTrade Trade_init, new_Engine),
      (OnSubmitResult (SubmitResult_init\<lparr>sr_status := FullyFilled\<rparr>), new_Engine)] new_Publisher)))) = [OrderFilled, TradeEvent]"
proof -
  let ?tr = "[(OnSubmitResult SubmitResult_init, new_Engine), (OnTrade Trade_init, new_Engine),
      (OnSubmitResult (SubmitResult_init\<lparr>sr_status := FullyFilled\<rparr>), new_Engine)]"
  have "\<not> Option.is_none (publish ?tr new_Publisher)" by code_simp
  then obtain p calls where "publish ?tr new_Publisher = Some (p, calls)" by (auto simp: Option.is_none_def)
  from recent_events_are_latest [OF this, of 2] this show ?thesis
    by (simp add: kEventRingCapacity_def result_event_def make_trade_event_def SubmitResult_init_def)
qed

text \<open>
  C12. The published quotes follow the books through a submission: publishing the sink calls of a
  submission does not fail, and if every cached quote was that of its book before, it is so
  afterwards, whatever the submission did.
\<close>

theorem submit_keeps_quotes_in_sync:
  assumes "engine_ok e" "engine_cmd_ok (SubmitCmd env nows order) e" "in_sync p e"
  shows "\<exists>e' trace p' calls. submit env nows order e = Some (e', trace) \<and> publish trace p = Some (p', calls) \<and> in_sync p' e'"
  by (rule publish_submit_sync [OF assms])

theorem submit_keeps_quotes_in_sync_witness:
  "\<exists>e' trace p' calls. submit demo_env (\<lambda>_. 1) (Some (limit_order 30 6 Buy 100 20)) demo_engine = Some (e', trace) \<and>
    publish trace new_Publisher = Some (p', calls) \<and> in_sync p' e'"
  by (rule submit_keeps_quotes_in_sync [OF demo_engine_ok]) (simp_all add: in_i64_def in_sync_def new_Publisher_def)

text \<open>
  Cancelling bypasses the publisher: after an order has been published and then cancelled through the
  engine, the publisher still answers with the quote of the cancelled order.
\<close>

theorem cancel_leaves_stale_quote:
  "map_option (\<lambda>(published, actual). (s_bid_price published, s_bid_price actual)) quote_after_cancel =
     Some (Price 99, Price 98)"
  by code_simp

end
