(* ===== verification/Event_Log.thy ===== *)
theory Event_Log
  imports Market_Data
begin

text \<open>
  The append-only event log, the sink that writes it and the replayer:
  \<^verbatim>\<open>include/tt/persistence/event_log.hpp\<close> and
  \<^verbatim>\<open>src/persistence/event_log.cpp\<close>.

  A file is its list of bytes; integers are stored little-endian, as the memory image that
  \<^verbatim>\<open>fwrite\<close> copies is on the supported platforms. A reader is what is left of the file
  and the end-of-file indicator. \<^verbatim>\<open>fread\<close> that meets the end of the file delivers the
  bytes it found; the variable it fills was zero before.
\<close>

section \<open>Bytes\<close>

type_synonym byte = "8 word"

primrec le_bytes :: "nat \<Rightarrow> nat \<Rightarrow> byte list" where
  "le_bytes 0 v = []"
| "le_bytes (Suc n) v = of_nat (v mod 256) # le_bytes n (v div 256)"

primrec le_value :: "byte list \<Rightarrow> nat" where
  "le_value [] = 0"
| "le_value (b # bs) = unat b + 256 * le_value bs"

definition char_byte :: "char \<Rightarrow> byte" where "char_byte c = of_nat (of_char c)"
definition byte_char :: "byte \<Rightarrow> char" where "byte_char b = char_of (unat b)"

section \<open>Writing\<close>

definition write_u64 :: "64 word \<Rightarrow> byte list" where "write_u64 v = le_bytes 8 (unat v)"
definition write_u8 :: "byte \<Rightarrow> byte list" where "write_u8 v = [v]"
definition write_i64 :: "int \<Rightarrow> byte list" where "write_i64 v = le_bytes 8 (nat (v mod 2 ^ 64))"

definition write_str :: "string \<Rightarrow> byte list" where
  "write_str s =
     (let len = length s mod 2 ^ 32
      in le_bytes 4 len @ (if len \<noteq> 0 then map char_byte (take len s) else []))"

fun kind_byte :: "EventKind \<Rightarrow> byte" where
  "kind_byte OrderAccepted = 0"
| "kind_byte OrderRested = 1"
| "kind_byte OrderRejected = 2"
| "kind_byte OrderCancelled = 3"
| "kind_byte OrderFilled = 4"
| "kind_byte OrderPartiallyFilled = 5"
| "kind_byte OrderModified = 6"
| "kind_byte TradeEvent = 7"
| "kind_byte TopOfBookChanged = 8"

definition side_byte :: "Side \<Rightarrow> byte" where "side_byte s = (case s of Buy \<Rightarrow> 0 | Sell \<Rightarrow> 1)"
definition type_byte :: "OrderType \<Rightarrow> byte" where "type_byte t = (case t of Market \<Rightarrow> 0 | Limit \<Rightarrow> 1)"

record PersistedEvent =
  pe_sequence :: Sequence
  pe_timestamp :: Timestamp
  pe_kind :: EventKind
  pe_order :: OrderPayload
  pe_trade :: Trade
  pe_reject_reason :: string

definition PersistedEvent_init :: PersistedEvent where
  "PersistedEvent_init =
     \<lparr>pe_sequence = 0, pe_timestamp = 0, pe_kind = OrderAccepted, pe_order = OrderPayload_init,
      pe_trade = Trade_init, pe_reject_reason = ''''\<rparr>"

definition write_payload :: "PersistedEvent \<Rightarrow> byte list" where
  "write_payload ev =
     write_u8 (kind_byte (pe_kind ev)) @ write_u64 (pe_sequence ev) @ write_u64 (pe_timestamp ev) @
     (if pe_kind ev = TradeEvent
      then let t = pe_trade ev
           in write_u64 (t_id t) @ write_u64 (t_instrument_id t) @ write_u64 (buy_order_id t) @
              write_u64 (sell_order_id t) @ write_u64 (buy_trader_id t) @ write_u64 (sell_trader_id t) @
              write_i64 (ticks (t_price t)) @ write_i64 (qty (t_quantity t))
      else let ord = pe_order ev
           in write_u64 (op_order_id ord) @ write_u64 (op_instrument ord) @ write_u8 (side_byte (op_side ord)) @
              write_u8 (type_byte (op_type ord)) @ write_i64 (ticks (op_price ord)) @
              write_i64 (qty (op_qty ord)) @ write_str (pe_reject_reason ev))"

section \<open>Reading\<close>

record Reader =
  unread :: "byte list"
  at_eof :: bool

definition fread :: "nat \<Rightarrow> Reader \<Rightarrow> byte list \<times> Reader" where
  "fread n r =
     (take n (unread r), \<lparr>unread = drop n (unread r), at_eof = at_eof r \<or> length (unread r) < n\<rparr>)"

definition read_u64 :: "Reader \<Rightarrow> 64 word \<times> Reader" where
  "read_u64 r = (let (bs, r') = fread 8 r in (of_nat (le_value bs), r'))"

definition read_u8 :: "Reader \<Rightarrow> byte \<times> Reader" where
  "read_u8 r = (let (bs, r') = fread 1 r in (of_nat (le_value bs), r'))"

definition read_i64 :: "Reader \<Rightarrow> int \<times> Reader" where
  "read_i64 r = (let (bs, r') = fread 8 r in (i64 (int (le_value bs)), r'))"

definition read_str :: "Reader \<Rightarrow> string \<times> Reader" where
  "read_str r =
     (let (bs, r1) = fread 4 r; len = le_value bs
      in if len \<noteq> 0
         then let (cs, r2) = fread len r1
              in (map byte_char cs @ replicate (len - length cs) (char_of (0::nat)), r2)
         else ('''', r1))"

text \<open>
  The casts from a byte to an enumeration. A byte without an enumerator gives a C++ value outside
  the named ones, which the model does not represent: \<^const>\<open>None\<close>.
\<close>

definition kind_of_byte :: "byte \<Rightarrow> EventKind option" where
  "kind_of_byte b =
     (if unat b < 9
      then Some ([OrderAccepted, OrderRested, OrderRejected, OrderCancelled, OrderFilled,
                  OrderPartiallyFilled, OrderModified, TradeEvent, TopOfBookChanged] ! unat b)
      else None)"

definition side_of_byte :: "byte \<Rightarrow> Side option" where
  "side_of_byte b = (if b = 0 then Some Buy else if b = 1 then Some Sell else None)"

definition type_of_byte :: "byte \<Rightarrow> OrderType option" where
  "type_of_byte b = (if b = 0 then Some Market else if b = 1 then Some Limit else None)"

definition read_trade :: "Reader \<Rightarrow> Trade \<times> Reader" where
  "read_trade r0 =
     (let (a, r1) = read_u64 r0; (b, r2) = read_u64 r1; (c, r3) = read_u64 r2; (d, r4) = read_u64 r3;
          (f, r5) = read_u64 r4; (g, r6) = read_u64 r5; (p, r7) = read_i64 r6; (q, r8) = read_i64 r7
      in (Trade_init\<lparr>t_id := a, t_instrument_id := b, buy_order_id := c, sell_order_id := d,
            buy_trader_id := f, sell_trader_id := g, t_price := Price p, t_quantity := Quantity q\<rparr>, r8))"

definition read_order :: "Reader \<Rightarrow> (OrderPayload \<times> string) option \<times> Reader" where
  "read_order r0 =
     (let (a, r1) = read_u64 r0; (b, r2) = read_u64 r1; (s, r3) = read_u8 r2; (t, r4) = read_u8 r3;
          (p, r5) = read_i64 r4; (q, r6) = read_i64 r5; (reason, r7) = read_str r6
      in (do { side \<leftarrow> side_of_byte s;
               type \<leftarrow> type_of_byte t;
               Some (OrderPayload_init\<lparr>op_order_id := a, op_instrument := b, op_side := side,
                       op_type := type, op_price := Price p, op_qty := Quantity q\<rparr>, reason) }, r7))"

definition read_payload :: "Reader \<Rightarrow> PersistedEvent option \<times> Reader" where
  "read_payload r0 =
     (let (k, r1) = read_u8 r0; (sq, r2) = read_u64 r1; (ts, r3) = read_u64 r2;
          ev = PersistedEvent_init\<lparr>pe_sequence := sq, pe_timestamp := ts\<rparr>
      in if kind_of_byte k = Some TradeEvent
         then let (t, r4) = read_trade r3 in (Some (ev\<lparr>pe_kind := TradeEvent, pe_trade := t\<rparr>), r4)
         else let (ord, r4) = read_order r3
              in (do { kind \<leftarrow> kind_of_byte k;
                       (payload, reason) \<leftarrow> ord;
                       Some (ev\<lparr>pe_kind := kind, pe_order := payload, pe_reject_reason := reason\<rparr>) }, r4))"

section \<open>The log\<close>

record EventLog =
  el_open :: bool
  el_file :: "byte list option"
  el_bytes_written :: "64 word"

definition kMagic :: "64 word" where "kMagic = 0x54545631"
definition kVersion :: "64 word" where "kVersion = 1"

definition log_header :: "byte list" where
  "log_header = write_u64 kMagic @ write_u64 kVersion"

text \<open>
  Opening a log on a path whose present contents are \<open>file\<close>. Whether \<^verbatim>\<open>fopen\<close>
  succeeds is up to the system. In append mode the stream is opened for writing only; reads from
  it fail and leave the zero the variable was initialised with.
\<close>

definition EventLog_open :: "bool \<Rightarrow> bool \<Rightarrow> byte list option \<Rightarrow> EventLog" where
  "EventLog_open fopen_ok append_mode file =
     (if \<not> fopen_ok then \<lparr>el_open = False, el_file = file, el_bytes_written = 0\<rparr>
      else if \<not> append_mode then \<lparr>el_open = True, el_file = Some log_header, el_bytes_written = 16\<rparr>
      else let contents = (case file of None \<Rightarrow> [] | Some bs \<Rightarrow> bs);
               magic = (0 :: 64 word); version = (0 :: 64 word)
           in if magic \<noteq> kMagic \<or> version \<noteq> kVersion
              then \<lparr>el_open = False, el_file = Some contents, el_bytes_written = 0\<rparr>
              else \<lparr>el_open = True, el_file = Some contents,
                    el_bytes_written = of_nat (length contents)\<rparr>)"

definition EventLog_append :: "PersistedEvent \<Rightarrow> EventLog \<Rightarrow> EventLog" where
  "EventLog_append ev l =
     (if \<not> el_open l then l
      else let contents = (case el_file l of None \<Rightarrow> [] | Some bs \<Rightarrow> bs) @ write_payload ev
           in l\<lparr>el_file := Some contents, el_bytes_written := of_nat (length contents)\<rparr>)"

definition EventLog_close :: "EventLog \<Rightarrow> EventLog" where
  "EventLog_close l = l\<lparr>el_open := False\<rparr>"


text \<open>
  The reading loop: \<open>ftell\<close> moved exactly when something was consumed. The lemmas on
  \<open>fread\<close> show that it ends.
\<close>

lemma fread_unread: "fread n r = (bs, r') \<Longrightarrow> length (unread r') \<le> length (unread r)"
  by (auto simp: fread_def)

lemmas read_defs = read_u64_def read_u8_def read_i64_def

lemma reads_unread:
  "read_u64 r = (v, r') \<Longrightarrow> length (unread r') \<le> length (unread r)"
  "read_u8 r = (w, r') \<Longrightarrow> length (unread r') \<le> length (unread r)"
  "read_i64 r = (x, r') \<Longrightarrow> length (unread r') \<le> length (unread r)"
  "read_str r = (s, r') \<Longrightarrow> length (unread r') \<le> length (unread r)"
  by (auto simp: read_defs read_str_def Let_def fread_def split: if_splits)

lemma read_payload_unread:
  assumes "read_payload r = (ev, r')" shows "length (unread r') \<le> length (unread r)"
  using assms
  by (auto simp: read_payload_def read_trade_def read_order_def Let_def split: prod.splits if_splits dest!: reads_unread)

function read_records :: "Reader \<Rightarrow> PersistedEvent list option" where
  "read_records r =
     (if at_eof r then Some []
      else let (ev, r') = read_payload r
           in if length (unread r') = length (unread r) then Some []
              else if at_eof r' then map_option (\<lambda>x. [x]) ev
              else do { x \<leftarrow> ev; xs \<leftarrow> read_records r'; Some (x # xs) })"
  by pat_completeness auto
termination
proof (relation "measure (\<lambda>r. length (unread r))")
  fix r x ev r'
  assume "x = read_payload r" "(ev, r') = x" "length (unread r') \<noteq> length (unread r)"
  with read_payload_unread [of r ev r'] show "(r', r) \<in> measure (\<lambda>r. length (unread r))" by simp
qed simp

declare read_records.simps [simp del]

definition read_file :: "byte list \<Rightarrow> PersistedEvent list option" where
  "read_file bs =
     (let (magic, r1) = read_u64 \<lparr>unread = bs, at_eof = False\<rparr>; (version, r2) = read_u64 r1
      in if magic \<noteq> kMagic \<or> version \<noteq> kVersion then Some [] else read_records r2)"

definition EventLog_read_all :: "EventLog \<Rightarrow> PersistedEvent list option \<times> EventLog" where
  "EventLog_read_all l =
     (case el_file l of None \<Rightarrow> Some [] | Some bs \<Rightarrow> read_file bs, EventLog_close l)"

section \<open>The persisting sink and the replayer\<close>

definition trade_record :: "Trade \<Rightarrow> PersistedEvent" where
  "trade_record t =
     PersistedEvent_init\<lparr>pe_sequence := t_sequence t, pe_timestamp := t_timestamp t,
       pe_kind := TradeEvent, pe_trade := t\<rparr>"

definition result_record :: "SubmitResult \<Rightarrow> PersistedEvent" where
  "result_record r =
     PersistedEvent_init\<lparr>pe_sequence := sr_sequence r, pe_timestamp := 0,
       pe_order := OrderPayload_init\<lparr>op_order_id := sr_order_id r, op_instrument := sr_instrument_id r,
         op_side := sr_side r, op_type := sr_type r, op_price := sr_price r,
         op_qty := filled_quantity r + resting_quantity r\<rparr>,
       pe_reject_reason := reject_reason r,
       pe_kind := (case sr_status r of
           Accepted \<Rightarrow> OrderRested
         | FullyFilled \<Rightarrow> OrderFilled
         | PartiallyFilled \<Rightarrow> OrderPartiallyFilled
         | Cancelled \<Rightarrow> OrderCancelled
         | Rejected \<Rightarrow> OrderRejected)\<rparr>"

fun PersistingSink_on :: "SinkEvent \<Rightarrow> EventLog \<Rightarrow> EventLog" where
  "PersistingSink_on (OnTrade t) l = EventLog_append (trade_record t) l"
| "PersistingSink_on (OnSubmitResult r) l = EventLog_append (result_record r) l"

definition replay_order :: "PersistedEvent \<Rightarrow> Order" where
  "replay_order ev =
     (let p = pe_order ev
      in Order_init\<lparr>o_id := op_order_id p, o_trader_id := 0, o_instrument_id := op_instrument p,
           o_side := op_side p, o_type := if qty (op_qty p) > 0 then Limit else Market, o_tif := GTC,
           o_price := op_price p, o_quantity := op_qty p, o_remaining := op_qty p, o_status := StatusNew\<rparr>)"

text \<open>The number of records applied and the engine; each submission has its own environment.\<close>

fun replay :: "(nat \<Rightarrow> Env) \<Rightarrow> (nat \<Rightarrow> nat \<Rightarrow> int) \<Rightarrow> PersistedEvent list \<Rightarrow> nat \<Rightarrow> Engine \<Rightarrow> (nat \<times> Engine) option" where
  "replay env nows [] applied e = Some (applied, e)"
| "replay env nows (ev # evs) applied e =
     (if pe_kind ev = TradeEvent then replay env nows evs (Suc applied) e
      else if pe_kind ev = OrderRejected then replay env nows evs (Suc applied) e
      else if pe_kind ev \<in> {OrderRested, OrderFilled, OrderPartiallyFilled}
      then do { (e', _) \<leftarrow> submit (env applied) (nows applied) (Some (replay_order ev)) e;
                replay env nows evs (Suc applied) e' }
      else Some (applied, e))"

section \<open>What survives\<close>

text \<open>
  The log does not keep everything: of a trade its sequence and timestamp (the record has its own),
  of an order event the trader. A record is storable when its prices and quantities are 64-bit
  values and its reason is shorter than four gigabytes.
\<close>

definition persisted :: "PersistedEvent \<Rightarrow> PersistedEvent" where
  "persisted ev =
     (let e0 = PersistedEvent_init\<lparr>pe_sequence := pe_sequence ev, pe_timestamp := pe_timestamp ev, pe_kind := pe_kind ev\<rparr>
      in if pe_kind ev = TradeEvent
         then e0\<lparr>pe_trade := (pe_trade ev)\<lparr>t_sequence := 0, t_timestamp := 0\<rparr>\<rparr>
         else e0\<lparr>pe_order := (pe_order ev)\<lparr>op_trader_id := 0\<rparr>, pe_reject_reason := pe_reject_reason ev\<rparr>)"

definition storable :: "PersistedEvent \<Rightarrow> bool" where
  "storable ev \<longleftrightarrow> in_i64 (ticks (t_price (pe_trade ev))) \<and> in_i64 (qty (t_quantity (pe_trade ev))) \<and>
     in_i64 (ticks (op_price (pe_order ev))) \<and> in_i64 (qty (op_qty (pe_order ev))) \<and>
     length (pe_reject_reason ev) < 2 ^ 32"

text \<open>The kinds of records replay can apply.\<close>

definition replayable :: "PersistedEvent \<Rightarrow> bool" where
  "replayable ev \<longleftrightarrow> pe_kind ev \<in> {TradeEvent, OrderRejected, OrderRested, OrderFilled, OrderPartiallyFilled}"

text \<open>The submissions that records stand for, the record at position \<open>n\<close> with the environment of its own.\<close>

fun replay_commands :: "(nat \<Rightarrow> Env) \<Rightarrow> (nat \<Rightarrow> nat \<Rightarrow> int) \<Rightarrow> nat \<Rightarrow> PersistedEvent list \<Rightarrow> EngineCommand list" where
  "replay_commands env nows n [] = []"
| "replay_commands env nows n (ev # evs) =
     (if pe_kind ev \<in> {OrderRested, OrderFilled, OrderPartiallyFilled} then [SubmitCmd (env n) (nows n) (Some (replay_order ev))] else []) @
     replay_commands env nows (Suc n) evs"

definition append_all :: "PersistedEvent list \<Rightarrow> EventLog \<Rightarrow> EventLog" where
  "append_all evs l = fold EventLog_append evs l"

section \<open>Bytes: lemmas\<close>

lemma length_le_bytes [simp]: "length (le_bytes n v) = n"
  by (induction n arbitrary: v) auto

lemma unat_byte_mod: "unat (of_nat (v mod 256) :: byte) = v mod 256"
  by (simp add: unat_of_nat)

lemma le_value_bytes: "le_value (le_bytes n v) = v mod 256 ^ n"
proof (induction n arbitrary: v)
  case (Suc n)
  have "v mod 256 + 256 * (v div 256 mod 256 ^ n) = v mod (256 * 256 ^ n)" by (simp add: mod_mult2_eq)
  with Suc show ?case by (simp add: unat_byte_mod)
qed simp

lemma fread_append:
  assumes "length bs = n" "rest = unread r'" "\<not> at_eof r" "unread r = bs @ rest" "at_eof r' = at_eof r"
  shows "fread n r = (bs, r')"
  using assms by (cases r') (auto simp: fread_def)

text \<open>A reader that has not met the end of the file.\<close>

abbreviation rd :: "byte list \<Rightarrow> Reader" where "rd bs \<equiv> \<lparr>unread = bs, at_eof = False\<rparr>"

lemma fread_rd: "length bs = n \<Longrightarrow> fread n (rd (bs @ rest)) = (bs, rd rest)"
  by (auto simp: fread_def)

lemma read_u64_write [simp]: "read_u64 (rd (write_u64 v @ rest)) = (v, rd rest)"
  using unsigned_less [where ?'a = nat, of v] by (simp add: read_u64_def write_u64_def fread_rd le_value_bytes)

lemma read_u8_write [simp]: "read_u8 (rd (write_u8 v @ rest)) = (v, rd rest)"
  by (simp add: read_u8_def write_u8_def fread_def)

lemma read_i64_write [simp]: "in_i64 v \<Longrightarrow> read_i64 (rd (write_i64 v @ rest)) = (v, rd rest)"
proof -
  assume "in_i64 v"
  have "int (nat (v mod 2 ^ 64) mod 256 ^ 8) = v mod 2 ^ 64" by (simp add: zmod_int)
  then have "i64 (int (nat (v mod 2 ^ 64) mod 256 ^ 8)) = i64 v" by (simp add: i64_cong_mod)
  then show ?thesis using \<open>in_i64 v\<close> by (simp add: read_i64_def write_i64_def fread_rd le_value_bytes i64_id)
qed

lemma byte_char_byte [simp]: "byte_char (char_byte c) = c"
proof -
  have "unat (of_nat (of_char c) :: byte) = of_char c" by (simp add: unat_of_nat)
  then show ?thesis by (simp add: byte_char_def char_byte_def)
qed

lemma read_str_write [simp]:
  assumes "length s < 2 ^ 32" shows "read_str (rd (write_str s @ rest)) = (s, rd rest)"
proof (cases "s = []")
  case True
  then show ?thesis using fread_rd [of "le_bytes 4 0" 4 rest] by (simp add: read_str_def write_str_def le_value_bytes)
next
  case False
  have "fread 4 (rd (le_bytes 4 (length s) @ map char_byte s @ rest)) = (le_bytes 4 (length s), rd (map char_byte s @ rest))"
    by (rule fread_rd) simp
  moreover have "fread (length s) (rd (map char_byte s @ rest)) = (map char_byte s, rd rest)" by (rule fread_rd) simp
  ultimately show ?thesis using assms False by (simp add: read_str_def write_str_def le_value_bytes o_def)
qed

lemma kind_of_byte_kind [simp]: "kind_of_byte (kind_byte k) = Some k"
  by (cases k) (simp_all add: kind_of_byte_def)

lemma side_of_byte_side [simp]: "side_of_byte (side_byte s) = Some s"
  by (cases s) (simp_all add: side_of_byte_def side_byte_def)

lemma type_of_byte_type [simp]: "type_of_byte (type_byte t) = Some t"
  by (cases t) (simp_all add: type_of_byte_def type_byte_def)


section \<open>Reading back\<close>

lemma read_payload_write:
  assumes "storable ev"
  shows "read_payload (rd (write_payload ev @ rest)) = (Some (persisted ev), rd rest)"
proof (cases "pe_kind ev = TradeEvent")
  case True
  have "Trade_init\<lparr>t_id := t_id t, t_instrument_id := t_instrument_id t, buy_order_id := buy_order_id t,
      sell_order_id := sell_order_id t, buy_trader_id := buy_trader_id t, sell_trader_id := sell_trader_id t,
      t_price := t_price t, t_quantity := t_quantity t\<rparr> = t\<lparr>t_sequence := 0, t_timestamp := 0\<rparr>" for t
    by (cases t) (simp add: Trade_init_def)
  then show ?thesis using True assms kind_of_byte_kind [of TradeEvent]
    by (simp add: read_payload_def write_payload_def read_trade_def storable_def persisted_def Let_def)
next
  case False
  have "OrderPayload_init\<lparr>op_order_id := op_order_id p, op_instrument := op_instrument p, op_side := op_side p,
      op_type := op_type p, op_price := op_price p, op_qty := op_qty p\<rparr> = p\<lparr>op_trader_id := 0\<rparr>" for p
    by (cases p) (simp add: OrderPayload_init_def)
  then show ?thesis using False assms
    by (simp add: read_payload_def write_payload_def read_order_def storable_def persisted_def Let_def)
qed

lemma write_payload_nonempty: "write_payload ev \<noteq> []"
  by (simp add: write_payload_def write_u8_def)

lemma read_payload_end: "\<exists>ev r'. read_payload (rd []) = (ev, r') \<and> unread r' = []"
proof -
  obtain ev r' where r: "read_payload (rd []) = (ev, r')" by fastforce
  with read_payload_unread [OF r] show ?thesis by simp
qed

lemma read_records_write:
  assumes "\<forall>ev \<in> set evs. storable ev"
  shows "read_records (rd (concat (map write_payload evs))) = Some (map persisted evs)"
  using assms
proof (induction evs)
  case Nil
  from read_payload_end obtain ev r' where "read_payload (rd []) = (ev, r')" "unread r' = []" by blast
  then show ?case by (simp add: read_records.simps)
next
  case (Cons ev evs)
  then show ?case
    using read_payload_write [of ev "concat (map write_payload evs)"] write_payload_nonempty [of ev]
    by (simp add: read_records.simps [of "rd (write_payload ev @ _)"])
qed

lemma append_all_file:
  assumes "el_open l" "el_file l = Some bs"
  shows "el_file (append_all evs l) = Some (bs @ concat (map write_payload evs))" "el_open (append_all evs l)"
  using assms unfolding append_all_def
  by (induction evs arbitrary: l bs) (simp_all add: EventLog_append_def)

lemma read_file_header: "read_file (log_header @ bs) = read_records (rd bs)"
  by (simp add: read_file_def log_header_def)

section \<open>Properties\<close>

text \<open>
  C9. What is written is read back, less what the format does not hold: a log opened for writing, with any storable records
  appended in any number, reads back as the \<open>persisted\<close> part of those records, in order, and nothing else; the file
  is closed afterwards. The \<open>persisted\<close> part of a record is all of it but the trader id of an order and, inside a trade,
  the trade's own sequence number and timestamp (those of the record itself are kept).
\<close>

theorem event_log_roundtrip:
  assumes "\<forall>ev \<in> set evs. storable ev"
  shows "EventLog_read_all (append_all evs (EventLog_open True False file)) =
    (Some (map persisted evs), EventLog_close (append_all evs (EventLog_open True False file)))"
  using append_all_file [of "EventLog_open True False file" log_header evs] read_records_write [OF assms]
  by (simp add: EventLog_read_all_def EventLog_open_def read_file_header)

theorem event_log_roundtrip_witness:
  "fst (EventLog_read_all (append_all
      [trade_record (Trade_init\<lparr>t_id := 7, t_price := Price 100, t_quantity := Quantity 5, t_sequence := 3\<rparr>),
       result_record (SubmitResult_init\<lparr>sr_order_id := 9, reject_reason := ''no''\<rparr>)] (EventLog_open True False None))) =
   Some (map persisted
      [trade_record (Trade_init\<lparr>t_id := 7, t_price := Price 100, t_quantity := Quantity 5, t_sequence := 3\<rparr>),
       result_record (SubmitResult_init\<lparr>sr_order_id := 9, reject_reason := ''no''\<rparr>)])"
  by (subst event_log_roundtrip)
    (simp_all add: storable_def trade_record_def result_record_def PersistedEvent_init_def OrderPayload_init_def
      Trade_init_def SubmitResult_init_def in_i64_def)

text \<open>
  Opening a log to append never succeeds: the header is validated by reading from a stream that is
  open for writing only, the check fails, the log is left closed, and every record appended to it
  is dropped. The file itself is not harmed.
\<close>

theorem append_mode_drops_records:
  "el_file (append_all evs (EventLog_open fopen_ok True (Some bs))) = Some bs \<and>
   \<not> el_open (append_all evs (EventLog_open fopen_ok True (Some bs)))"
proof -
  have "\<not> el_open l \<Longrightarrow> append_all evs l = l" for l
    unfolding append_all_def by (induction evs) (simp_all add: EventLog_append_def)
  then show ?thesis by (simp add: EventLog_open_def kMagic_def Let_def)
qed

lemma replay_total:
  assumes "engine_ok e" "\<forall>n. freed_price_intact (env n)" "\<forall>ev \<in> set evs. in_i64 (qty (op_qty (pe_order ev)))"
  shows "\<exists>e'. replay env nows evs applied e = Some (applied + length (takeWhile replayable evs), e') \<and> engine_ok e' \<and>
    run_steps engine_step (replay_commands env nows applied (takeWhile replayable evs)) e = Some e'"
  using assms
proof (induction evs arbitrary: applied e)
  case (Cons ev evs)
  note IH = Cons.IH [of _ "Suc applied", OF _ Cons.prems(2)]
  have "engine_cmd_ok (SubmitCmd (env applied) (nows applied) (Some (replay_order ev))) e"
    using Cons.prems by (simp add: replay_order_def Let_def Order_init_def is_open_def)
  from submit_engine_ok [OF Cons.prems(1) this] obtain e1 tr where
    s: "submit (env applied) (nows applied) (Some (replay_order ev)) e = Some (e1, tr)" "engine_ok e1" by blast
  from IH [of e] IH [OF s(2)] Cons.prems s(1) show ?case by (auto simp: replayable_def)
qed simp

text \<open>
  C14. Replay finishes and does what the records say. From a sound engine, as long as a freed order can still be read as
  it was, it goes through the records up to the first one of an unsupported kind (a cancellation, a modification,
  a quote) and returns their number. The engine is then in the state in which the orders rebuilt from the
  records of rested and filled orders among them, submitted one after the other, leave it: trades and rejections submit nothing. Every book is sound.
\<close>

theorem replay_stops_at_unsupported:
  assumes "engine_ok e" "\<forall>n. freed_price_intact (env n)" "\<forall>ev \<in> set evs. in_i64 (qty (op_qty (pe_order ev)))"
  shows "\<exists>e'. replay env nows evs 0 e = Some (length (takeWhile replayable evs), e') \<and> engine_ok e' \<and>
    run_steps engine_step (replay_commands env nows 0 (takeWhile replayable evs)) e = Some e'"
  using replay_total [OF assms, of nows 0] by simp

theorem replay_stops_at_unsupported_witness:
  "\<exists>e'. replay (\<lambda>_. demo_env) (\<lambda>_ _. 1)
     [trade_record Trade_init, result_record (SubmitResult_init\<lparr>sr_order_id := 5, sr_instrument_id := 1, sr_price := Price 99, resting_quantity := Quantity 4\<rparr>),
      result_record (SubmitResult_init\<lparr>sr_status := Cancelled\<rparr>), trade_record Trade_init] 0 demo_engine = Some (2, e') \<and> engine_ok e' \<and>
     run_steps engine_step [SubmitCmd demo_env (\<lambda>_. 1) (Some (replay_order
       (result_record (SubmitResult_init\<lparr>sr_order_id := 5, sr_instrument_id := 1, sr_price := Price 99, resting_quantity := Quantity 4\<rparr>))))] demo_engine = Some e'"
  using replay_stops_at_unsupported [OF demo_engine_ok, of "\<lambda>_. demo_env"
      "[trade_record Trade_init, result_record (SubmitResult_init\<lparr>sr_order_id := 5, sr_instrument_id := 1, sr_price := Price 99, resting_quantity := Quantity 4\<rparr>),
        result_record (SubmitResult_init\<lparr>sr_status := Cancelled\<rparr>), trade_record Trade_init]" "\<lambda>_ _. 1"]
  by (simp add: trade_record_def result_record_def replayable_def PersistedEvent_init_def OrderPayload_init_def
      SubmitResult_init_def in_i64_def numeral_2_eq_2)

end
