(* ===== verification/Protocol.thy ===== *)
theory Protocol
  imports Domain
begin

text \<open>
  The line protocol of the TCP gateway (\<^verbatim>\<open>networking/protocol.hpp\<close>,
  \<^verbatim>\<open>networking/protocol.cpp\<close>): tokenising, parsing of requests, formatting of replies.
  \<open>parse_request\<close> writes its result through an out parameter, here passed in and
  returned. Unsigned arithmetic wraps; the signed accumulation in \<open>parse_i64\<close> is undefined behaviour when
  it leaves the 64-bit range, which makes the result of \<open>parse_request\<close> \<^const>\<open>None\<close>.
\<close>

section \<open>Characters\<close>

text \<open>\<^verbatim>\<open>std::isspace\<close> and \<^verbatim>\<open>std::tolower\<close> of the C locale.\<close>

definition isspace :: "char \<Rightarrow> bool" where
  "isspace c \<longleftrightarrow> c = CHR '' '' \<or> (9 \<le> (of_char c :: nat) \<and> (of_char c :: nat) \<le> 13)"

definition tolower :: "char \<Rightarrow> char" where
  "tolower c = (let n = of_char c :: nat in if 65 \<le> n \<and> n \<le> 90 then char_of (n + 32) else c)"

definition ieq :: "string \<Rightarrow> string \<Rightarrow> bool" where
  "ieq a b \<longleftrightarrow> length a = length b \<and> list_all2 (\<lambda>ca cb. tolower ca = tolower cb) a b"

section \<open>Requests\<close>

datatype InboundCommand = Unknown | New | Cancel | Modify | Quote | Ping

record ParsedRequest =
  rq_command :: InboundCommand
  rq_instrument :: InstrumentId
  rq_order_id :: OrderId
  rq_trader_id :: TraderId
  rq_side :: Side
  rq_type :: OrderType
  rq_tif :: TimeInForce
  rq_price :: Price
  rq_qty :: Quantity

definition ParsedRequest_init :: ParsedRequest where
  "ParsedRequest_init = \<lparr>rq_command = Unknown, rq_instrument = kInvalidInstrumentId, rq_order_id = kInvalidOrderId,
     rq_trader_id = 0, rq_side = Buy, rq_type = Limit, rq_tif = GTC, rq_price = Price 0, rq_qty = Quantity 0\<rparr>"

record ParseError =
  parse_ok :: bool
  parse_message :: string

definition ParseError_init :: ParseError where
  "ParseError_init = \<lparr>parse_ok = True, parse_message = ''''\<rparr>"

text \<open>The tokeniser; its position is the rest of the line.\<close>

function tokenise :: "string \<Rightarrow> string list" where
  "tokenise line =
     (if line = [] then []
      else let rest = dropWhile isspace line;
               token = takeWhile (\<lambda>c. \<not> isspace c) rest
           in (if token \<noteq> [] then [token] else []) @ tokenise (dropWhile (\<lambda>c. \<not> isspace c) rest))"
  by pat_completeness auto
termination
proof (relation "measure length")
  fix line rest token :: string
  assume "line \<noteq> []" "rest = dropWhile isspace line"
  then show "(dropWhile (\<lambda>c. \<not> isspace c) rest, line) \<in> measure length"
    using length_dropWhile_le [of "\<lambda>c. \<not> isspace c" "dropWhile isspace (tl line)"]
      length_dropWhile_le [of isspace "tl line"] length_dropWhile_le [of "\<lambda>c. \<not> isspace c" "tl line"]
    by (cases line) (auto simp: less_Suc_eq_le)
qed simp

declare tokenise.simps [simp del]

definition digit_value :: "char \<Rightarrow> nat option" where
  "digit_value c = (if (of_char c :: nat) < 48 \<or> 57 < (of_char c :: nat) then None else Some (of_char c - 48))"

fun parse_u64_from :: "64 word \<Rightarrow> string \<Rightarrow> 64 word option" where
  "parse_u64_from x [] = Some x"
| "parse_u64_from x (c # s) =
     (case digit_value c of None \<Rightarrow> None | Some d \<Rightarrow> parse_u64_from (x * 10 + of_nat d) s)"

definition parse_u64 :: "string \<Rightarrow> 64 word option" where
  "parse_u64 s = (if s = [] then None else parse_u64_from 0 s)"

text \<open>The signed numerals: \<open>None\<close> is an overflow, \<open>Some None\<close> the answer that the text is not a number.\<close>

fun parse_i64_from :: "int \<Rightarrow> string \<Rightarrow> int option option" where
  "parse_i64_from x [] = Some (Some x)"
| "parse_i64_from x (c # s) =
     (case digit_value c of
        None \<Rightarrow> Some None
      | Some d \<Rightarrow> if in_i64 (x * 10 + int d) then parse_i64_from (x * 10 + int d) s else None)"

definition parse_i64 :: "string \<Rightarrow> int option option" where
  "parse_i64 s =
     (if s = [] then Some None
      else let neg = hd s = CHR ''-''; digits = (if neg then tl s else s)
           in if digits = [] then Some None
              else map_option (map_option (\<lambda>x. if neg then - x else x)) (parse_i64_from 0 digits))"

definition parse_fail :: "string \<Rightarrow> ParsedRequest \<Rightarrow> ParseError \<times> ParsedRequest" where
  "parse_fail msg out = (\<lparr>parse_ok = False, parse_message = msg\<rparr>, out)"

text \<open>\<^verbatim>\<open>static_cast<int64_t>\<close> of an unsigned 64-bit value.\<close>

definition to_i64 :: "64 word \<Rightarrow> int" where "to_i64 w = i64 (uint w)"

definition parse_tif :: "string \<Rightarrow> TimeInForce option" where
  "parse_tif t =
     (if ieq t ''IOC'' then Some IOC else if ieq t ''FOK'' then Some FOK
      else if ieq t ''GTC'' then Some GTC else None)"

definition parse_quote :: "string list \<Rightarrow> ParsedRequest \<Rightarrow> ParseError \<times> ParsedRequest" where
  "parse_quote tok out =
     (if length tok < 2 then parse_fail ''missing arguments'' out
      else case parse_u64 (tok ! 1) of
        None \<Rightarrow> parse_fail ''bad instrument'' out
      | Some instr \<Rightarrow> (ParseError_init, out\<lparr>rq_instrument := instr, rq_command := Quote\<rparr>))"

definition parse_new :: "string list \<Rightarrow> ParsedRequest \<Rightarrow> ParseError \<times> ParsedRequest" where
  "parse_new tok out =
     (if length tok < 6 then parse_fail ''missing arguments'' out
      else case parse_u64 (tok ! 1) of None \<Rightarrow> parse_fail ''bad instrument'' out
      | Some instr \<Rightarrow> case parse_u64 (tok ! 2) of None \<Rightarrow> parse_fail ''bad trader'' out
      | Some trader \<Rightarrow> case parse_u64 (tok ! 3) of None \<Rightarrow> parse_fail ''bad side'' out
      | Some side_u \<Rightarrow> case parse_u64 (tok ! 4) of None \<Rightarrow> parse_fail ''bad price'' out
      | Some price \<Rightarrow> case parse_u64 (tok ! 5) of None \<Rightarrow> parse_fail ''bad qty'' out
      | Some q \<Rightarrow>
          let out = out\<lparr>rq_instrument := instr, rq_trader_id := trader,
                rq_side := (if side_u = 0 then Buy else Sell), rq_type := Limit,
                rq_price := Price (to_i64 price), rq_qty := Quantity (to_i64 q), rq_tif := GTC\<rparr>
          in if length tok < 7 then (ParseError_init, out\<lparr>rq_command := New\<rparr>)
             else case parse_tif (tok ! 6) of
               None \<Rightarrow> parse_fail ''bad tif'' out
             | Some tif \<Rightarrow> (ParseError_init, out\<lparr>rq_tif := tif, rq_command := New\<rparr>))"

definition parse_cancel :: "string list \<Rightarrow> ParsedRequest \<Rightarrow> ParseError \<times> ParsedRequest" where
  "parse_cancel tok out =
     (if length tok < 3 then parse_fail ''missing arguments'' out
      else case parse_u64 (tok ! 1) of None \<Rightarrow> parse_fail ''bad instrument'' out
      | Some instr \<Rightarrow> case parse_u64 (tok ! 2) of None \<Rightarrow> parse_fail ''bad order_id'' out
      | Some oid \<Rightarrow> (ParseError_init, out\<lparr>rq_instrument := instr, rq_order_id := oid, rq_command := Cancel\<rparr>))"

definition parse_modify :: "string list \<Rightarrow> ParsedRequest \<Rightarrow> (ParseError \<times> ParsedRequest) option" where
  "parse_modify tok out =
     (if length tok < 5 then Some (parse_fail ''missing arguments'' out)
      else case parse_u64 (tok ! 1) of None \<Rightarrow> Some (parse_fail ''bad instrument'' out)
      | Some instr \<Rightarrow> case parse_u64 (tok ! 2) of None \<Rightarrow> Some (parse_fail ''bad order_id'' out)
      | Some oid \<Rightarrow> case parse_u64 (tok ! 3) of None \<Rightarrow> Some (parse_fail ''bad qty'' out)
      | Some qty_u \<Rightarrow> case parse_i64 (tok ! 4) of
          None \<Rightarrow> None
        | Some None \<Rightarrow> Some (parse_fail ''bad price'' out)
        | Some (Some price) \<Rightarrow> Some (ParseError_init, out\<lparr>rq_instrument := instr, rq_order_id := oid,
            rq_qty := Quantity (to_i64 qty_u), rq_price := Price price, rq_command := Modify\<rparr>))"

definition parse_request :: "string \<Rightarrow> ParsedRequest \<Rightarrow> (ParseError \<times> ParsedRequest) option" where
  "parse_request line out =
     (if line = [] then Some (parse_fail ''empty line'' out)
      else let tok = tokenise line
           in if tok = [] then Some (parse_fail ''no tokens'' out)
              else if ieq (tok ! 0) ''PING'' then Some (ParseError_init, out\<lparr>rq_command := Ping\<rparr>)
              else if ieq (tok ! 0) ''QUOTE'' then Some (parse_quote tok out)
              else if ieq (tok ! 0) ''NEW'' then Some (parse_new tok out)
              else if ieq (tok ! 0) ''CANCEL'' then Some (parse_cancel tok out)
              else if ieq (tok ! 0) ''MODIFY'' then parse_modify tok out
              else Some (parse_fail ''unknown command'' out))"

text \<open>The line is read without an overflow; only the price of a modification can have one.\<close>

definition numerals_fit :: "string \<Rightarrow> bool" where
  "numerals_fit line \<longleftrightarrow> parse_request line ParsedRequest_init \<noteq> None"

section \<open>Replies\<close>

text \<open>
  \<^verbatim>\<open>%lu\<close> and \<^verbatim>\<open>%lld\<close>, \<^verbatim>\<open>std::string::c_str\<close> as a C string, and
  \<^verbatim>\<open>snprintf\<close> into a buffer of \<open>n\<close> bytes.
\<close>

definition int_string :: "int \<Rightarrow> string" where
  "int_string x = (if x < 0 then CHR ''-'' # nat_string (nat (- x)) else nat_string (nat x))"

definition word_string :: "64 word \<Rightarrow> string" where "word_string w = nat_string (unat w)"

definition c_str :: "string \<Rightarrow> string" where "c_str = takeWhile (\<lambda>c. c \<noteq> CHR 0x00)"

definition snprintf :: "nat \<Rightarrow> string \<Rightarrow> string" where "snprintf n s = take (n - 1) s"

definition newline :: string where "newline = [CHR 0x0A]"

definition format_submit_reply :: "OrderId \<Rightarrow> Sequence \<Rightarrow> string \<Rightarrow> string" where
  "format_submit_reply i s status =
     snprintf 128 (''OK '' @ c_str status @ '' '' @ word_string i @ '' '' @ word_string s @ newline)"

definition format_trade :: "Trade \<Rightarrow> string" where
  "format_trade t =
     snprintf 160 (''TRADE '' @ word_string (buy_order_id t) @ '' '' @ word_string (sell_order_id t) @ '' '' @
       int_string (ticks (t_price t)) @ '' '' @ int_string (qty (t_quantity t)) @ newline)"

definition format_quote :: "InstrumentId \<Rightarrow> Price \<Rightarrow> Quantity \<Rightarrow> Price \<Rightarrow> Quantity \<Rightarrow> string" where
  "format_quote i bid bid_qty ask ask_qty =
     snprintf 160 (''QUOTE '' @ word_string i @ '' '' @ int_string (ticks bid) @ '' '' @ int_string (qty bid_qty) @ '' '' @
       int_string (ticks ask) @ '' '' @ int_string (qty ask_qty) @ newline)"

definition format_error :: "string \<Rightarrow> string" where
  "format_error msg = ''ERR '' @ msg @ newline"

section \<open>The client's side\<close>

text \<open>
  The request lines of the documentation, as a client writes them: the words of a request and
  the line that has them separated by single spaces.
\<close>

definition tif_word :: "TimeInForce \<Rightarrow> string" where
  "tif_word t = (case t of GTC \<Rightarrow> ''GTC'' | IOC \<Rightarrow> ''IOC'' | FOK \<Rightarrow> ''FOK'')"

definition request_words :: "ParsedRequest \<Rightarrow> string list" where
  "request_words r = (case rq_command r of
       Unknown \<Rightarrow> []
     | Ping \<Rightarrow> [''PING'']
     | Quote \<Rightarrow> [''QUOTE'', word_string (rq_instrument r)]
     | New \<Rightarrow> [''NEW'', word_string (rq_instrument r), word_string (rq_trader_id r),
         (case rq_side r of Buy \<Rightarrow> ''0'' | Sell \<Rightarrow> ''1''), int_string (ticks (rq_price r)), int_string (qty (rq_qty r)),
         tif_word (rq_tif r)]
     | Cancel \<Rightarrow> [''CANCEL'', word_string (rq_instrument r), word_string (rq_order_id r)]
     | Modify \<Rightarrow> [''MODIFY'', word_string (rq_instrument r), word_string (rq_order_id r),
         int_string (qty (rq_qty r)), int_string (ticks (rq_price r))])"

fun join_words :: "string list \<Rightarrow> string" where
  "join_words [] = []"
| "join_words [w] = w"
| "join_words (w # ws) = w @ '' '' @ join_words ws"

definition print_request :: "ParsedRequest \<Rightarrow> string" where
  "print_request r = join_words (request_words r)"

text \<open>
  A request a client can express: a known command, the fields the command does not carry at
  their defaults, the quantity a non-negative 64-bit number, the price of a new order likewise
  and that of a modification any 64-bit number.
\<close>

definition expressible :: "ParsedRequest \<Rightarrow> bool" where
  "expressible r \<longleftrightarrow> rq_type r = Limit \<and> in_i64 (qty (rq_qty r)) \<and> 0 \<le> qty (rq_qty r) \<and> in_i64 (ticks (rq_price r)) \<and>
     (case rq_command r of
        Unknown \<Rightarrow> False
      | Ping \<Rightarrow> r = ParsedRequest_init\<lparr>rq_command := Ping\<rparr>
      | Quote \<Rightarrow> r = ParsedRequest_init\<lparr>rq_instrument := rq_instrument r, rq_command := Quote\<rparr>
      | New \<Rightarrow> rq_order_id r = kInvalidOrderId \<and> 0 \<le> ticks (rq_price r)
      | Cancel \<Rightarrow> r = ParsedRequest_init\<lparr>rq_instrument := rq_instrument r, rq_order_id := rq_order_id r, rq_command := Cancel\<rparr>
      | Modify \<Rightarrow> r = ParsedRequest_init\<lparr>rq_instrument := rq_instrument r,
          rq_order_id := rq_order_id r, rq_qty := rq_qty r, rq_price := rq_price r, rq_command := Modify\<rparr> \<and>
          - (2 ^ 63) < ticks (rq_price r))"

definition word_ok :: "string \<Rightarrow> bool" where
  "word_ok w \<longleftrightarrow> w \<noteq> [] \<and> (\<forall>c \<in> set w. \<not> isspace c)"

text \<open>Sample values for the examples.\<close>

definition sample_request :: ParsedRequest where
  "sample_request = ParsedRequest_init\<lparr>rq_instrument := 7, rq_order_id := 42, rq_qty := Quantity 15, rq_price := Price (- 3), rq_command := Modify\<rparr>"

definition sample_trade :: Trade where
  "sample_trade = Trade_init\<lparr>buy_order_id := 1, sell_order_id := 2, t_price := Price 100, t_quantity := Quantity 5\<rparr>"

section \<open>Tokens\<close>

lemma tokenise_Nil [simp]: "tokenise [] = []"
  by (simp add: tokenise.simps)

lemma tokenise_word:
  assumes "word_ok w" "rest = [] \<or> isspace (hd rest)"
  shows "tokenise (w @ rest) = w # tokenise rest"
proof -
  have ne: "w \<noteq> []" and ns: "\<forall>c \<in> set w. \<not> isspace c" using assms(1) by (simp_all add: word_ok_def)
  then have d: "dropWhile isspace (w @ rest) = w @ rest" by (cases w) simp_all
  have t: "takeWhile (\<lambda>c. \<not> isspace c) (w @ rest) = w" "dropWhile (\<lambda>c. \<not> isspace c) (w @ rest) = rest"
    using ns assms(2) by (cases rest; simp add: takeWhile_append dropWhile_append)+
  show ?thesis using ne by (subst tokenise.simps) (simp add: Let_def d t)
qed

lemma tokenise_space: "isspace c \<Longrightarrow> tokenise (c # s) = tokenise s"
  by (subst (1 2) tokenise.simps) (auto simp: Let_def)

lemma tokenise_join: "\<forall>w \<in> set ws. word_ok w \<Longrightarrow> tokenise (join_words ws) = ws"
proof (induction ws rule: join_words.induct)
  case (2 w)
  then show ?case using tokenise_word [of w "[]"] by simp
next
  case (3 w v ws)
  then show ?case using tokenise_word [of w "'' '' @ join_words (v # ws)"]
    by (simp add: isspace_def tokenise_space)
qed simp

section \<open>Numbers\<close>

lemma digit_value_digit_char [simp]: "d < 10 \<Longrightarrow> digit_value (digit_char d) = Some d"
  by (simp add: digit_value_def digit_char_def)

lemma nat_string_not_Nil [simp]: "nat_string n \<noteq> []"
  by (subst nat_string.simps) simp

lemma nat_string_digits: "c \<in> set (nat_string n) \<Longrightarrow> 48 \<le> (of_char c :: nat) \<and> (of_char c :: nat) \<le> 57"
proof (induction n rule: nat_string.induct)
  case (1 n)
  then show ?case by (subst (asm) (2) nat_string.simps) (auto simp: digit_char_def split: if_splits)
qed

lemma word_ok_nat_string: "word_ok (nat_string n)"
  unfolding word_ok_def using nat_string_digits [of _ n] by (force simp: isspace_def)

lemma word_ok_numbers [simp]: "word_ok (word_string w)" "word_ok (int_string x)"
  using word_ok_nat_string unfolding word_string_def int_string_def by (auto simp: word_ok_def isspace_def)

lemma parse_u64_from_append:
  "parse_u64_from x (s @ t) = Option.bind (parse_u64_from x s) (\<lambda>y. parse_u64_from y t)"
  by (induction x s rule: parse_u64_from.induct) (auto split: option.splits)

lemma parse_i64_from_snoc:
  "digit_value c = Some d \<Longrightarrow> parse_i64_from x (s @ [c]) = Option.bind (parse_i64_from x s) (\<lambda>r. case r of
     None \<Rightarrow> Some None | Some y \<Rightarrow> if in_i64 (y * 10 + int d) then Some (Some (y * 10 + int d)) else None)"
  by (induction x s rule: parse_i64_from.induct) (auto split: option.splits)

lemma parse_u64_from_nat_string: "parse_u64_from 0 (nat_string n) = Some (of_nat n)"
proof (induction n rule: nat_string.induct)
  case (1 n)
  have "(of_nat (n div 10) * 10 + of_nat (n mod 10) :: 64 word) = of_nat (n div 10 * 10 + n mod 10)"
    by (simp only: of_nat_add of_nat_mult of_nat_numeral)
  also have "\<dots> = of_nat n" by (simp only: div_mult_mod_eq)
  finally have step: "(of_nat (n div 10) * 10 + of_nat (n mod 10) :: 64 word) = of_nat n" .
  show ?case using 1 by (subst nat_string.simps) (simp add: parse_u64_from_append step)
qed

lemma i64_mult_left [simp]: "i64 (i64 x * y) = i64 (x * y)"
  unfolding i64_cong_mod by (rule mod_mult_cong) (simp_all only: i64_mod)

lemma i64_minus [simp]: "i64 (- i64 x) = i64 (- x)"
  using i64_diff_right [of 0 x] by simp

lemma i64_mult_add: "i64 (i64 x * y + z) = i64 (x * y + z)"
  by (metis i64_add_left i64_mult_left)

lemma parse_i64_from_nat_string:
  "parse_i64_from 0 (nat_string n) = (if in_i64 (int n) then Some (Some (int n)) else None)"
proof (induction n rule: nat_string.induct)
  case (1 n)
  have digit: "digit_value (digit_char d) = Some d" if "d < 10" for d
    using that by (simp add: digit_value_def digit_char_def)
  show ?case
  proof (cases "n < 10")
    case True
    then show ?thesis by (subst nat_string.simps) (simp add: digit)
  next
    case False
    have step: "int (n div 10) * 10 + int (n mod 10) = int n"
      by (metis div_mult_mod_eq of_nat_add of_nat_mult of_nat_numeral)
    have "in_i64 (int n) \<Longrightarrow> in_i64 (int (n div 10))" by (auto simp: in_i64_def)
    with False 1 show ?thesis
      by (subst nat_string.simps) (simp add: parse_i64_from_snoc [OF digit] step)
  qed
qed

lemma parse_u64_nat_string: "parse_u64 (nat_string n) = Some (of_nat n)"
  by (simp add: parse_u64_def parse_u64_from_nat_string)

lemma parse_u64_word_string [simp]: "parse_u64 (word_string w) = Some w"
  by (simp add: word_string_def parse_u64_nat_string)

lemma hd_nat_string: "hd (nat_string n) \<noteq> CHR ''-''"
  using nat_string_digits [of "hd (nat_string n)" n] by auto

lemma parse_i64_int_string:
  "parse_i64 (int_string x) = (if - (2 ^ 63) < x \<and> x < 2 ^ 63 then Some (Some x) else None)"
  using hd_nat_string by (auto simp: parse_i64_def int_string_def parse_i64_from_nat_string in_i64_def Let_def)

lemma parse_request_undefined:
  "parse_request line out = None \<longleftrightarrow> (\<exists>tok. tok = tokenise line \<and> line \<noteq> [] \<and> 5 \<le> length tok \<and> ieq (tok ! 0) ''MODIFY'' \<and>
     \<not> ieq (tok ! 0) ''PING'' \<and> \<not> ieq (tok ! 0) ''QUOTE'' \<and> \<not> ieq (tok ! 0) ''NEW'' \<and> \<not> ieq (tok ! 0) ''CANCEL'' \<and>
     parse_u64 (tok ! 1) \<noteq> None \<and> parse_u64 (tok ! 2) \<noteq> None \<and> parse_u64 (tok ! 3) \<noteq> None \<and> parse_i64 (tok ! 4) = None)"
  by (auto simp: parse_request_def parse_modify_def Let_def split: option.splits)

lemma to_i64_of_int: "to_i64 (word_of_int x) = i64 x"
  unfolding to_i64_def i64_cong_mod by (simp add: unsigned_of_int take_bit_eq_mod)

lemma parse_u64_int_string: "0 \<le> x \<Longrightarrow> parse_u64 (int_string x) = Some (word_of_int x)"
  by (simp add: int_string_def parse_u64_nat_string)

lemma length_nat_string: "n < 10 ^ k \<Longrightarrow> 0 < k \<Longrightarrow> length (nat_string n) \<le> k"
proof (induction n arbitrary: k rule: nat_string.induct)
  case (1 n)
  show ?case
  proof (cases "n < 10")
    case True
    with 1 show ?thesis by (subst nat_string.simps) simp
  next
    case False
    then obtain k' where "k = Suc k'" "0 < k'" using 1 by (cases k; cases "k - 1") auto
    with 1 False show ?thesis by (subst nat_string.simps) (simp add: div_less_iff_less_mult mult.commute)
  qed
qed

lemma length_word_string: "length (word_string w) \<le> 20"
proof -
  have "unat w < 2 ^ LENGTH(64)" by (rule unsigned_less)
  then have "unat w < 10 ^ 20" by simp
  then show ?thesis unfolding word_string_def by (rule length_nat_string) simp
qed

lemma length_int_string: "in_i64 x \<Longrightarrow> length (int_string x) \<le> 20"
proof -
  assume "in_i64 x"
  then have "nat x < 10 ^ 19" "nat (- x) < 10 ^ 19" by (auto simp: in_i64_def nat_less_iff)
  then show ?thesis using length_nat_string [of _ 19] by (fastforce simp: int_string_def)
qed

lemma parse_u64_from_None: "parse_u64_from x s = None \<longleftrightarrow> (\<exists>c \<in> set s. digit_value c = None)"
  by (induction x s rule: parse_u64_from.induct) (auto split: option.splits)

lemma digit_cases: "digit_value c \<noteq> None \<longleftrightarrow> c \<in> set ''0123456789''"
proof
  assume "digit_value c \<noteq> None"
  then have "of_char c \<in> {48..57 :: nat}" by (auto simp: digit_value_def split: if_splits)
  then have "char_of (of_char c :: nat) \<in> char_of ` {48..57 :: nat}" by (rule imageI)
  moreover have "char_of ` {48..57 :: nat} = set ''0123456789''" by code_simp
  ultimately show "c \<in> set ''0123456789''" by (simp only: char_of_char)
qed (auto simp: digit_value_def)

lemma snprintf_fits: "length s < n \<Longrightarrow> snprintf n s = s"
  by (simp add: snprintf_def)

section \<open>Properties\<close>

lemma ieq_refl [simp]: "ieq w w"
  by (simp add: ieq_def list_all2_refl)

lemma keyword_distinct:
  "\<not> ieq ''QUOTE'' ''PING''" "\<not> ieq ''NEW'' ''PING''" "\<not> ieq ''NEW'' ''QUOTE''"
  "\<not> ieq ''CANCEL'' ''PING''" "\<not> ieq ''CANCEL'' ''QUOTE''" "\<not> ieq ''CANCEL'' ''NEW''"
  "\<not> ieq ''MODIFY'' ''PING''" "\<not> ieq ''MODIFY'' ''QUOTE''" "\<not> ieq ''MODIFY'' ''NEW''" "\<not> ieq ''MODIFY'' ''CANCEL''"
  by (simp_all add: ieq_def tolower_def)

lemma parse_u64_digit: "parse_u64 ''0'' = Some 0" "parse_u64 ''1'' = Some 1"
  by (simp_all add: parse_u64_def digit_value_def)

lemma parse_tif_word [simp]: "parse_tif (tif_word t) = Some t"
  by (cases t) (simp_all add: parse_tif_def tif_word_def ieq_def tolower_def)

lemma word_ok_request_words: "\<forall>w \<in> set (request_words r). word_ok w"
  unfolding request_words_def
  by (auto simp: tif_word_def split: InboundCommand.splits Side.splits TimeInForce.splits)
     (auto simp: word_ok_def isspace_def)

text \<open>
  C26. A request is read as it was written: every request that the protocol can express, printed
  as a line, parses without error to that request. (The one price a modification cannot express is the least 64-bit
  integer, whose digits overflow before the sign is applied.)
\<close>

theorem request_roundtrip:
  assumes "expressible r"
  shows "parse_request (print_request r) ParsedRequest_init = Some (ParseError_init, r)"
proof -
  have toks: "tokenise (print_request r) = request_words r"
    unfolding print_request_def by (rule tokenise_join [OF word_ok_request_words])
  have ne: "print_request r \<noteq> []" using assms toks
    by (auto simp: expressible_def request_words_def split: InboundCommand.splits)
  have m: "parse_i64 (int_string (ticks (rq_price r))) = Some (Some (ticks (rq_price r)))" if "rq_command r = Modify"
    using assms that by (simp add: parse_i64_int_string expressible_def in_i64_def)
  have q: "parse_u64 (int_string (qty (rq_qty r))) = Some (word_of_int (qty (rq_qty r)))"
    "to_i64 (word_of_int (qty (rq_qty r))) = qty (rq_qty r)" "to_i64 (word_of_int (ticks (rq_price r))) = ticks (rq_price r)"
    using assms by (simp_all add: parse_u64_int_string to_i64_of_int expressible_def i64_id)
  show ?thesis
  proof (cases "rq_command r")
    case New
    with assms have "parse_u64 (int_string (ticks (rq_price r))) = Some (word_of_int (ticks (rq_price r)))"
      by (simp add: parse_u64_int_string expressible_def)
    with New assms ne q show ?thesis
      by (cases "rq_side r") (simp_all add: parse_request_def toks request_words_def keyword_distinct parse_new_def
        expressible_def ParsedRequest_init_def parse_u64_digit)
  next
    case Ping
    then have "parse_request (print_request r) ParsedRequest_init = Some (ParseError_init, ParsedRequest_init\<lparr>rq_command := Ping\<rparr>)"
      using ne by (simp add: parse_request_def toks request_words_def)
    moreover have "r = ParsedRequest_init\<lparr>rq_command := Ping\<rparr>" using assms Ping by (simp add: expressible_def)
    ultimately show ?thesis by metis
  next
    case Modify
    with assms ne q m show ?thesis
      by (simp add: parse_request_def toks request_words_def keyword_distinct parse_modify_def expressible_def)
  qed (use assms ne in \<open>simp_all add: parse_request_def toks request_words_def keyword_distinct
    parse_quote_def parse_cancel_def expressible_def\<close>)
qed

theorem request_roundtrip_witness:
  "expressible sample_request \<and> print_request sample_request = ''MODIFY 7 42 15 -3'' \<and>
   parse_request ''MODIFY 7 42 15 -3'' ParsedRequest_init = Some (ParseError_init, sample_request)"
proof -
  have e: "expressible sample_request"
    by (simp add: expressible_def sample_request_def ParsedRequest_init_def in_i64_def)
  have p: "print_request sample_request = ''MODIFY 7 42 15 -3''" by code_simp
  show ?thesis using request_roundtrip [OF e] e p by simp
qed

text \<open>
  What long numerals do: an unsigned field accepts a decimal numeral of any size and takes its value modulo
  \<open>2 ^ 64\<close>; the price field of a modification takes its exact value when that is in range, and otherwise the
  accumulation overflows, which is undefined. Nothing but digits is a number.
\<close>

theorem numerals_wrap:
  "parse_u64 (nat_string n) = Some (of_nat n) \<and>
   parse_i64 (int_string x) = (if - (2 ^ 63) < x \<and> x < 2 ^ 63 then Some (Some x) else None) \<and>
   (parse_u64 s = None \<longleftrightarrow> s = [] \<or> (\<exists>c \<in> set s. c \<notin> set ''0123456789''))"
proof -
  have "digit_value c = None \<longleftrightarrow> c \<notin> set ''0123456789''" for c
    using digit_cases [of c] by auto
  then show ?thesis
    using parse_u64_from_None [of 0 s] by (simp add: parse_u64_from_nat_string parse_i64_int_string parse_u64_def)
qed

text \<open>
  No reply is cut short: whatever the values, a trade or quote reply fits its buffer with the
  terminating newline, and so does a submit reply with a status word of at most 81 characters.
\<close>

theorem replies_fit:
  assumes "in_i64 (ticks (t_price t))" "in_i64 (qty (t_quantity t))" "in_i64 (ticks bid)" "in_i64 (qty bid_qty)"
    "in_i64 (ticks ask)" "in_i64 (qty ask_qty)" "length (c_str status) \<le> 81"
  shows "format_trade t = join_words [''TRADE'', word_string (buy_order_id t), word_string (sell_order_id t),
      int_string (ticks (t_price t)), int_string (qty (t_quantity t))] @ newline \<and>
    format_quote i bid bid_qty ask ask_qty = join_words [''QUOTE'', word_string i, int_string (ticks bid),
      int_string (qty bid_qty), int_string (ticks ask), int_string (qty ask_qty)] @ newline \<and>
    format_submit_reply x s status = join_words [''OK'', c_str status, word_string x, word_string s] @ newline"
  using length_word_string [of "buy_order_id t"] length_word_string [of "sell_order_id t"] length_word_string [of i]
    length_word_string [of x] length_word_string [of s] assms(1-6) [THEN length_int_string] assms(7)
  unfolding format_trade_def format_quote_def format_submit_reply_def
  by (simp add: snprintf_fits newline_def)

theorem replies_fit_witness:
  "format_trade sample_trade = ''TRADE 1 2 100 5'' @ newline \<and>
   format_quote 1 (Price 99) (Quantity 5) (Price (- 1)) (Quantity 0) = ''QUOTE 1 99 5 -1 0'' @ newline \<and>
   format_submit_reply 3 4 ''ACCEPTED'' = ''OK ACCEPTED 3 4'' @ newline"
proof -
  have words: "word_string 1 = ''1''" "word_string 2 = ''2''" "word_string 3 = ''3''" "word_string 4 = ''4''"
    "int_string 100 = ''100''" "int_string 5 = ''5''" "int_string 99 = ''99''" "int_string (- 1) = ''-1''" "int_string 0 = ''0''"
    "c_str ''ACCEPTED'' = ''ACCEPTED''" by code_simp+
  show ?thesis
    using replies_fit [of sample_trade "Price 99" "Quantity 5" "Price (- 1)" "Quantity 0" "''ACCEPTED''" 1 3 4]
    by (simp add: words sample_trade_def in_i64_def)
qed

end
