(* ===== verification/Gateway.thy ===== *)
theory Gateway
  imports Market_Data Protocol "HOL-Library.Sublist"
begin

text \<open>
  The TCP gateway (\<^verbatim>\<open>networking/gateway.hpp\<close>, \<^verbatim>\<open>networking/gateway.cpp\<close>): the sink
  that logs replies and forwards to the publisher, the handling of one request line, the in-memory
  \<open>process_buffer\<close>, the per-connection \<open>client_loop\<close>, and the two socket
  loops \<open>read_line\<close> and \<open>write_all\<close>. The sockets are represented by what the
  calls on them return: the chunks \<^verbatim>\<open>recv\<close> delivers until it reports the end (or the
  server stops), the counts \<^verbatim>\<open>send\<close> accepts.

  The engine and the publisher a gateway refers to are part of its state. \<open>env\<close> and
  \<open>nows\<close> give each handled line the environment of its engine call.
\<close>

section \<open>Sockets\<close>

datatype Recv = RecvByte char | RecvEof | RecvError

text \<open>\<open>read_line\<close>: its return value, the line, and the answers of \<^verbatim>\<open>recv\<close> not used.\<close>

fun read_line :: "Recv list \<Rightarrow> string \<Rightarrow> int \<times> string \<times> Recv list" where
  "read_line [] out = (0, out, [])"
| "read_line (RecvEof # rs) out = (0, out, rs)"
| "read_line (RecvError # rs) out = (- 1, out, rs)"
| "read_line (RecvByte c # rs) out =
     (if c = CHR 0x0A then (1, out, rs)
      else if c = CHR 0x0D then read_line rs out
      else if length (out @ [c]) > 4096 then (- 1, out @ [c], rs)
      else read_line rs (out @ [c]))"

text \<open>
  \<open>write_all\<close>: the \<open>k\<close>-th call of \<^verbatim>\<open>send\<close> answers \<open>send k n\<close>
  when \<open>n\<close> bytes are offered. The result is the return value and the bytes handed over.
\<close>

function write_all_from :: "(nat \<Rightarrow> nat \<Rightarrow> int) \<Rightarrow> nat \<Rightarrow> string \<Rightarrow> nat \<Rightarrow> int \<times> string" where
  "write_all_from send k s sent =
     (if sent < length s
      then let n = send k (length s - sent)
           in if n < 0 then (n, take sent s)
              else if n = 0 then (int sent, take sent s)
              else write_all_from send (Suc k) s (sent + nat n)
      else (int sent, take sent s))"
  by pat_completeness auto
termination
  by (relation "measure (\<lambda>(send, k, s, sent). length s - sent)") auto

declare write_all_from.simps [simp del]

definition write_all :: "(nat \<Rightarrow> nat \<Rightarrow> int) \<Rightarrow> string \<Rightarrow> int \<times> string" where
  "write_all send s = write_all_from send 0 s 0"

section \<open>Requests\<close>

record GatewayState =
  gw_engine :: Engine
  gw_publisher :: Publisher
  gw_told :: ListenerCalls
  gw_log :: "string list"
  gw_out :: "string list"
  gw_served :: nat

definition gateway_session :: "Engine \<Rightarrow> Publisher \<Rightarrow> GatewayState" where
  "gateway_session e p =
     \<lparr>gw_engine = e, gw_publisher = p, gw_told = [], gw_log = [], gw_out = [], gw_served = 0\<rparr>"

definition status_word :: "SubmitStatus \<Rightarrow> string" where
  "status_word s = (case s of
       Accepted \<Rightarrow> ''ACCEPTED'' | FullyFilled \<Rightarrow> ''FILLED'' | PartiallyFilled \<Rightarrow> ''PARTIAL''
     | Cancelled \<Rightarrow> ''CANCELLED'' | Rejected \<Rightarrow> ''REJECTED'')"

fun sink_line :: "SinkEvent \<Rightarrow> string" where
  "sink_line (OnTrade t) = format_trade t"
| "sink_line (OnSubmitResult r) = format_submit_reply (sr_order_id r) (sr_sequence r) (status_word (sr_status r))"

definition GatewaySink_on :: "SinkEvent \<times> Engine \<Rightarrow> GatewayState \<Rightarrow> GatewayState option" where
  "GatewaySink_on ev g =
     do { (p, calls) \<leftarrow> publisher_on ev (gw_publisher g);
          Some (g\<lparr>gw_log := gw_log g @ [sink_line (fst ev)], gw_publisher := p, gw_told := gw_told g @ calls\<rparr>) }"

definition say :: "string \<Rightarrow> GatewayState \<Rightarrow> GatewayState" where
  "say s g = g\<lparr>gw_out := gw_out g @ [s]\<rparr>"

definition quote_reply :: "InstrumentId \<Rightarrow> Engine \<Rightarrow> string option" where
  "quote_reply i eng =
     (case book i eng of
        None \<Rightarrow> Some (format_error ''instrument not registered'')
      | Some ob \<Rightarrow>
          do { b \<leftarrow> top_bid ob;
               a \<leftarrow> top_ask ob;
               Some (format_quote i
                 (if tob_valid b then tob_price b else Price (- 1)) (if tob_valid b then tob_quantity b else Quantity 0)
                 (if tob_valid a then tob_price a else Price (- 1)) (if tob_valid a then tob_quantity a else Quantity 0)) })"

definition request_order :: "ParsedRequest \<Rightarrow> Order" where
  "request_order req =
     Order_init\<lparr>o_trader_id := rq_trader_id req, o_instrument_id := rq_instrument req, o_side := rq_side req,
       o_type := rq_type req, o_tif := rq_tif req, o_price := rq_price req, o_quantity := rq_qty req,
       o_remaining := rq_qty req\<rparr>"

text \<open>The dispatch of a parsed request, the same in both loops.\<close>

definition dispatch ::
    "(nat \<Rightarrow> Env) \<Rightarrow> (nat \<Rightarrow> nat \<Rightarrow> int) \<Rightarrow> ParsedRequest \<Rightarrow> GatewayState \<Rightarrow> GatewayState option" where
  "dispatch env nows req g =
     (let k = gw_served g
      in case rq_command req of
        Ping \<Rightarrow> Some (say (''PONG'' @ newline) g)
      | Quote \<Rightarrow> map_option (\<lambda>s. say s g) (quote_reply (rq_instrument req) (gw_engine g))
      | New \<Rightarrow>
          do { (e', trace) \<leftarrow> submit (env k) (nows k) (Some (request_order req)) (gw_engine g);
               run_steps GatewaySink_on trace (g\<lparr>gw_engine := e'\<rparr>) }
      | Cancel \<Rightarrow>
          do { (_, e') \<leftarrow> engine_cancel (rq_instrument req) (rq_order_id req) (gw_engine g);
               Some (g\<lparr>gw_engine := e'\<rparr>) }
      | Modify \<Rightarrow>
          do { (_, e') \<leftarrow> engine_modify (rq_instrument req) (rq_order_id req) (rq_qty req) (rq_price req) (gw_engine g);
               Some (g\<lparr>gw_engine := e'\<rparr>) }
      | Unknown \<Rightarrow> Some (say (format_error ''unknown command'') g))"

definition handle_line ::
    "(nat \<Rightarrow> Env) \<Rightarrow> (nat \<Rightarrow> nat \<Rightarrow> int) \<Rightarrow> string \<Rightarrow> GatewayState \<Rightarrow> GatewayState option" where
  "handle_line env nows line g =
     do { (err, req) \<leftarrow> parse_request line ParsedRequest_init;
          map_option (\<lambda>g'. g'\<lparr>gw_served := gw_served g + 1\<rparr>)
            (if \<not> parse_ok err then Some (say (format_error (parse_message err)) g) else dispatch env nows req g) }"

section \<open>Whole buffers\<close>

definition first_line :: "string \<Rightarrow> string" where "first_line s = takeWhile (\<lambda>c. c \<noteq> CHR 0x0A) s"
definition after_line :: "string \<Rightarrow> string" where "after_line s = tl (dropWhile (\<lambda>c. c \<noteq> CHR 0x0A) s)"

lemma length_after_line: "CHR 0x0A \<in> set s \<Longrightarrow> length (after_line s) < length s"
  unfolding after_line_def using length_dropWhile_le [of "\<lambda>c. c \<noteq> CHR 0x0A" s]
  by (cases s) (auto simp: less_Suc_eq_le intro: le_trans [OF diff_le_self])

function process_lines ::
    "(nat \<Rightarrow> Env) \<Rightarrow> (nat \<Rightarrow> nat \<Rightarrow> int) \<Rightarrow> string \<Rightarrow> GatewayState \<Rightarrow> GatewayState option" where
  "process_lines env nows s g =
     (if CHR 0x0A \<in> set s
      then do { g' \<leftarrow> handle_line env nows (first_line s) g;
                process_lines env nows (after_line s) g' }
      else Some g)"
  by pat_completeness auto
termination
  by (relation "measure (\<lambda>(env, nows, s, g). length s)") (auto simp: length_after_line)

declare process_lines.simps [simp del]

definition process_buffer ::
    "(nat \<Rightarrow> Env) \<Rightarrow> (nat \<Rightarrow> nat \<Rightarrow> int) \<Rightarrow> string \<Rightarrow> Engine \<Rightarrow> Publisher \<Rightarrow> (string \<times> GatewayState) option" where
  "process_buffer env nows input e p =
     do { g \<leftarrow> process_lines env nows input (gateway_session e p);
          Some (concat (gw_out g) @ concat (gw_log g), g) }"

text \<open>One chunk of a connection; the unfinished line is carried along.\<close>

function client_chunk ::
    "(nat \<Rightarrow> Env) \<Rightarrow> (nat \<Rightarrow> nat \<Rightarrow> int) \<Rightarrow> string \<Rightarrow> string \<times> GatewayState \<Rightarrow> (string \<times> GatewayState) option" where
  "client_chunk env nows chunk (line, g) =
     (if CHR 0x0A \<in> set chunk
      then do { g' \<leftarrow> handle_line env nows (line @ first_line chunk) g;
                client_chunk env nows (after_line chunk) ('''', g') }
      else Some (line @ chunk, g))"
  by pat_completeness auto
termination
  by (relation "measure (\<lambda>(env, nows, chunk, s). length chunk)") (auto simp: length_after_line)

declare client_chunk.simps [simp del]

text \<open>
  The loop over the received chunks, and the log written out when the connection ends. The chunks are those received before the connection ends,
  by its client, an error or a cleared \<open>running_\<close> (the threads and the flag are in Server_Lifecycle); the results of
  \<open>write_all\<close> are ignored by the code, so that the output is what is handed to it, whether or not the client takes it.
\<close>

definition client_loop ::
    "(nat \<Rightarrow> Env) \<Rightarrow> (nat \<Rightarrow> nat \<Rightarrow> int) \<Rightarrow> string list \<Rightarrow> Engine \<Rightarrow> Publisher \<Rightarrow> (string list \<times> GatewayState) option" where
  "client_loop env nows chunks e p =
     do { (_, g) \<leftarrow> run_steps (client_chunk env nows) chunks ('''', gateway_session e p);
          Some (gw_out g @ gw_log g, g) }"

section \<open>The commands a buffer holds\<close>

function lines_of :: "string \<Rightarrow> string list" where
  "lines_of s = (if CHR 0x0A \<in> set s then first_line s # lines_of (after_line s) else [])"
  by pat_completeness auto
termination
  by (relation "measure length") (auto simp: length_after_line)

declare lines_of.simps [simp del]

definition command_of :: "Env \<Rightarrow> (nat \<Rightarrow> int) \<Rightarrow> string \<Rightarrow> EngineCommand option" where
  "command_of env nows line =
     do { (err, req) \<leftarrow> parse_request line ParsedRequest_init;
          if \<not> parse_ok err then None
          else case rq_command req of
            New \<Rightarrow> Some (SubmitCmd env nows (Some (request_order req)))
          | Cancel \<Rightarrow> Some (CancelCmd (rq_instrument req) (rq_order_id req))
          | Modify \<Rightarrow> Some (ModifyCmd (rq_instrument req) (rq_order_id req) (rq_qty req) (rq_price req))
          | _ \<Rightarrow> None }"

fun commands_of :: "(nat \<Rightarrow> Env) \<Rightarrow> (nat \<Rightarrow> nat \<Rightarrow> int) \<Rightarrow> nat \<Rightarrow> string list \<Rightarrow> EngineCommand list" where
  "commands_of env nows k [] = []"
| "commands_of env nows k (line # lines) =
     (case command_of (env k) (nows k) line of None \<Rightarrow> [] | Some c \<Rightarrow> [c]) @ commands_of env nows (Suc k) lines"

text \<open>The one obligation left to clients: the guard of modifications.\<close>

fun gateway_guard :: "EngineCommand \<Rightarrow> Engine \<Rightarrow> bool" where
  "gateway_guard (ModifyCmd i x n p) e \<longleftrightarrow> engine_cmd_ok (ModifyCmd i x n p) e"
| "gateway_guard _ e \<longleftrightarrow> True"

definition sample_input :: string where
  "sample_input = ''new 1 7 0 100 20 ioc'' @ newline @ ''QUOTE 1'' @ newline @ ''BOGUS'' @ newline @
     ''CANCEL 1 3'' @ newline @ ''unfinished''"

section \<open>Chunks do not matter\<close>

lemma first_line_append: "CHR 0x0A \<in> set s \<Longrightarrow> first_line (s @ t) = first_line s"
  by (simp add: first_line_def)

lemma after_line_append: "CHR 0x0A \<in> set s \<Longrightarrow> after_line (s @ t) = after_line s @ t"
  by (induction s) (auto simp: after_line_def)

lemma client_chunk_line:
  assumes "CHR 0x0A \<in> set b" "CHR 0x0A \<notin> set a"
  shows "client_chunk env nows (a @ b) (line, g) = client_chunk env nows b (line @ a, g)"
  using assms by (subst (1 2) client_chunk.simps) (simp add: first_line_def after_line_def dropWhile_append)

lemma client_chunk_append:
  "client_chunk env nows (a @ b) s = Option.bind (client_chunk env nows a s) (client_chunk env nows b)"
proof (induction env nows a s rule: client_chunk.induct)
  case (1 env nows a line g)
  show ?case
  proof (cases "CHR 0x0A \<in> set a")
    case True
    with 1 show ?thesis
      by (subst (1 2) client_chunk.simps) (auto simp: first_line_append after_line_append split: bind_splits Option.bind_splits)
  next
    case False
    then have "client_chunk env nows a (line, g) = Some (line @ a, g)" by (simp add: client_chunk.simps)
    with False client_chunk_line [of b a env nows line g] show ?thesis
      by (cases "CHR 0x0A \<in> set b") (simp_all add: client_chunk.simps)
  qed
qed

lemma client_chunks_concat:
  "run_steps (client_chunk env nows) chunks (line, g) = client_chunk env nows (concat chunks) (line, g)"
proof (induction chunks arbitrary: line g)
  case Nil
  then show ?case by (simp add: client_chunk.simps)
next
  case (Cons a chunks)
  then show ?case
    by (cases "client_chunk env nows a (line, g)") (auto simp: client_chunk_append)
qed

lemma client_chunk_process_lines:
  "map_option snd (client_chunk env nows s ('''', g)) = process_lines env nows s g"
proof (induction env nows s g rule: process_lines.induct)
  case (1 env nows s g)
  show ?case
  proof (cases "CHR 0x0A \<in> set s")
    case True
    with 1 show ?thesis
      by (subst client_chunk.simps, subst process_lines.simps) (auto split: bind_splits Option.bind_splits)
  next
    case False
    then show ?thesis by (simp add: client_chunk.simps process_lines.simps)
  qed
qed

section \<open>The gateway drives the engine\<close>

lemma publisher_on_success: "publisher_on ev p = None \<longleftrightarrow> publisher_on ev q = None"
proof -
  obtain a en where ev: "ev = (a, en)" by (cases ev)
  have tob: "notify_tob en i p = None \<longleftrightarrow> notify_tob en i q = None" for i p q
    by (auto simp: notify_tob_def split: option.splits bind_splits Option.bind_splits)
  show ?thesis
  proof (cases a)
    case (OnTrade t)
    obtain p1 c1 q1 d1 where "notify_event (make_trade_event t) p = (p1, c1)" "notify_event (make_trade_event t) q = (q1, d1)"
      by fastforce
    with tob [of "t_instrument_id t" p1 q1] OnTrade show ?thesis
      by (auto simp: ev publisher_on_trade_def split: bind_splits Option.bind_splits)
  next
    case (OnSubmitResult r)
    obtain p1 c1 q1 d1 where "notify_event (result_event r) p = (p1, c1)" "notify_event (result_event r) q = (q1, d1)"
      by fastforce
    with tob [of "sr_instrument_id r" p1 q1] OnSubmitResult show ?thesis
      by (auto simp: ev publisher_on_submit_result_def split: bind_splits Option.bind_splits)
  qed
qed

lemma publish_success: "publish trace p = None \<longleftrightarrow> publish trace q = None"
proof (induction trace arbitrary: p q)
  case (Cons ev trace)
  show ?case
  proof (cases "publisher_on ev p")
    case None
    with publisher_on_success [of ev p q] show ?thesis by simp
  next
    case (Some x)
    with publisher_on_success [of ev p q] obtain y where "publisher_on ev q = Some y" by auto
    with Some Cons [of "fst x" "fst y"] show ?thesis
      by (auto split: prod.splits bind_splits Option.bind_splits)
  qed
qed simp

lemma sink_total:
  assumes "publish trace (gw_publisher g) = Some (p, calls)"
  shows "\<exists>g'. run_steps GatewaySink_on trace g = Some g' \<and> gw_engine g' = gw_engine g \<and> gw_out g' = gw_out g \<and>
    gw_publisher g' = p \<and> gw_log g' = gw_log g @ map (sink_line \<circ> fst) trace"
  using assms
proof (induction trace arbitrary: g calls)
  case (Cons ev trace)
  then obtain p1 c1 c2 where p1: "publisher_on ev (gw_publisher g) = Some (p1, c1)" "publish trace p1 = Some (p, c2)"
    by (auto split: bind_splits Option.bind_splits prod.splits)
  let ?g = "g\<lparr>gw_log := gw_log g @ [sink_line (fst ev)], gw_publisher := p1, gw_told := gw_told g @ c1\<rparr>"
  from Cons.IH [of ?g c2] p1 show ?case by (auto simp: GatewaySink_on_def)
qed simp

lemma quote_reply_total: "engine_ok e \<Longrightarrow> \<exists>s. quote_reply i e = Some s"
proof -
  assume ok: "engine_ok e"
  show ?thesis
  proof (cases "books e i")
    case (Some b)
    with ok have "book_inv b" by (auto simp: engine_ok_def book_ok_def)
    from snapshot_total [OF this] Some show ?thesis
      by (auto simp: quote_reply_def book_def snapshot_of_def split: bind_splits Option.bind_splits)
  qed (simp add: quote_reply_def book_def)
qed

lemma dispatch_new:
  assumes "engine_ok (gw_engine g)" "rq_command req = New"
    and "engine_cmd_ok (SubmitCmd (env (gw_served g)) (nows (gw_served g)) (Some (request_order req))) (gw_engine g)"
  shows "\<exists>g' e' trace. dispatch env nows req g = Some g' \<and>
    submit (env (gw_served g)) (nows (gw_served g)) (Some (request_order req)) (gw_engine g) = Some (e', trace) \<and>
    gw_engine g' = e' \<and> gw_out g' = gw_out g \<and> gw_log g' = gw_log g @ map (sink_line \<circ> fst) trace"
proof -
  have "in_sync new_Publisher (gw_engine g)" by (simp add: in_sync_def new_Publisher_def)
  from publish_submit_sync [OF assms(1,3) this] obtain e' trace where
    s: "submit (env (gw_served g)) (nows (gw_served g)) (Some (request_order req)) (gw_engine g) = Some (e', trace)"
      "publish trace new_Publisher \<noteq> None" by auto
  with publish_success [of trace "gw_publisher g" new_Publisher] obtain p calls where
    "publish trace (gw_publisher g) = Some (p, calls)" by auto
  with sink_total [of trace "g\<lparr>gw_engine := e'\<rparr>" p calls] s(1) assms(2) show ?thesis
    by (auto simp: dispatch_def Let_def)
qed

lemma handle_line_engine:
  assumes ok: "engine_ok (gw_engine g)" and fit: "numerals_fit line"
    and guard: "\<And>c. command_of (env (gw_served g)) (nows (gw_served g)) line = Some c \<Longrightarrow> engine_cmd_ok c (gw_engine g)"
  shows "\<exists>g'. handle_line env nows line g = Some g' \<and> gw_served g' = Suc (gw_served g) \<and>
    (case command_of (env (gw_served g)) (nows (gw_served g)) line of
       None \<Rightarrow> gw_engine g' = gw_engine g
     | Some c \<Rightarrow> engine_step c (gw_engine g) = Some (gw_engine g'))"
proof -
  obtain err req where pr: "parse_request line ParsedRequest_init = Some (err, req)" using fit by (auto simp: numerals_fit_def)
  show ?thesis
  proof (cases "parse_ok err \<and> rq_command req = New")
    case True
    then have c: "command_of (env (gw_served g)) (nows (gw_served g)) line =
        Some (SubmitCmd (env (gw_served g)) (nows (gw_served g)) (Some (request_order req)))"
      by (simp add: command_of_def pr)
    from dispatch_new [of g req env nows, OF ok _ guard [OF c]] True c pr show ?thesis by (auto simp: handle_line_def)
  next
    case False
    show ?thesis
    proof (cases "command_of (env (gw_served g)) (nows (gw_served g)) line")
      case None
      with False pr quote_reply_total [OF ok, of "rq_instrument req"] show ?thesis
        by (auto simp: command_of_def handle_line_def dispatch_def Let_def say_def split: if_splits InboundCommand.splits)
    next
      case (Some c)
      from engine.step_ok [OF ok guard [OF Some]] obtain e' where "engine_step c (gw_engine g) = Some e'" by blast
      with Some False pr show ?thesis
        by (auto simp: command_of_def handle_line_def dispatch_def Let_def split: if_splits InboundCommand.splits)
    qed
  qed
qed

lemma process_lines_engine:
  assumes "engine_ok (gw_engine g)" "\<forall>line \<in> set (lines_of s). numerals_fit line"
    and "admissible engine_step engine_cmd_ok (commands_of env nows (gw_served g) (lines_of s)) (gw_engine g)"
  shows "\<exists>g'. process_lines env nows s g = Some g' \<and> engine_ok (gw_engine g') \<and>
    run_steps engine_step (commands_of env nows (gw_served g) (lines_of s)) (gw_engine g) = Some (gw_engine g')"
  using assms
proof (induction env nows s g rule: process_lines.induct)
  case (1 env nows s g)
  show ?case
  proof (cases "CHR 0x0A \<in> set s")
    case True
    let ?c = "command_of (env (gw_served g)) (nows (gw_served g)) (first_line s)"
    let ?cs = "commands_of env nows (Suc (gw_served g)) (lines_of (after_line s))"
    have cmds: "commands_of env nows (gw_served g) (lines_of s) = (case ?c of None \<Rightarrow> [] | Some c \<Rightarrow> [c]) @ ?cs"
      using True by (subst lines_of.simps) simp
    have "lines_of s = first_line s # lines_of (after_line s)" using True by (subst lines_of.simps) simp
    then have fit: "numerals_fit (first_line s)" "\<forall>line \<in> set (lines_of (after_line s)). numerals_fit line"
      using "1.prems"(2) by simp_all
    have guard: "\<And>c. ?c = Some c \<Longrightarrow> engine_cmd_ok c (gw_engine g)" using "1.prems"(3) unfolding cmds by simp
    from handle_line_engine [OF "1.prems"(1) fit(1) guard] obtain g1 where
      g1: "handle_line env nows (first_line s) g = Some g1" "gw_served g1 = Suc (gw_served g)"
        "case ?c of None \<Rightarrow> gw_engine g1 = gw_engine g | Some c \<Rightarrow> engine_step c (gw_engine g) = Some (gw_engine g1)"
      by blast
    have ok1: "engine_ok (gw_engine g1)"
      using g1(3) "1.prems"(1) engine.step_ok [OF "1.prems"(1) guard] by (auto split: option.splits)
    have adm: "admissible engine_step engine_cmd_ok ?cs (gw_engine g1)"
      using "1.prems"(3) g1(3) unfolding cmds by (auto split: option.splits)
    from "1.IH" [OF True g1(1) ok1 fit(2)] adm g1(2) obtain g' where
      "process_lines env nows (after_line s) g1 = Some g'" "engine_ok (gw_engine g')"
      "run_steps engine_step ?cs (gw_engine g1) = Some (gw_engine g')" by auto
    with True g1(1,3) cmds show ?thesis
      by (subst process_lines.simps) (auto split: option.splits)
  next
    case False
    then have "lines_of s = []" by (subst lines_of.simps) simp
    with False "1.prems"(1) show ?thesis by (simp add: process_lines.simps)
  qed
qed

lemma request_qty_in_i64: "parse_request line ParsedRequest_init = Some r \<Longrightarrow> in_i64 (qty (rq_qty (snd r)))"
proof -
  assume r: "parse_request line ParsedRequest_init = Some r"
  let ?ok = "\<lambda>r. in_i64 (qty (rq_qty (snd r)))"
  have init: "in_i64 (qty (rq_qty ParsedRequest_init))" by (simp add: ParsedRequest_init_def in_i64_def)
  then have "?ok (parse_fail m ParsedRequest_init)" "?ok (parse_quote tok ParsedRequest_init)"
    "?ok (parse_cancel tok ParsedRequest_init)" for m tok
    by (simp_all add: parse_fail_def parse_quote_def parse_cancel_def split: option.splits)
  moreover have "?ok (parse_new tok ParsedRequest_init)" for tok
    using init by (simp add: parse_new_def parse_fail_def to_i64_def Let_def split: option.splits)
  moreover have "?ok r" if "parse_modify tok ParsedRequest_init = Some r" for tok r
    using init that by (auto simp: parse_modify_def parse_fail_def to_i64_def split: option.splits if_splits)
  ultimately show ?thesis using init r by (auto simp: parse_request_def Let_def split: if_splits)
qed

lemma gateway_command_ok:
  assumes "freed_price_intact env" "command_of env nows line = Some c" "gateway_guard c e"
  shows "engine_cmd_ok c e"
  using assms request_qty_in_i64 [of line]
  by (cases "parse_request line ParsedRequest_init")
    (auto simp: command_of_def request_order_def Order_init_def is_open_def Let_def split: if_splits InboundCommand.splits prod.splits)

lemma commands_of_member:
  "c \<in> set (commands_of env nows k ls) \<Longrightarrow> \<exists>n. \<exists>line \<in> set ls. command_of (env n) (nows n) line = Some c"
  by (induction env nows k ls rule: commands_of.induct) (auto split: option.splits)

lemma no_modify_admissible:
  assumes "list_all (\<lambda>line. case parse_request line ParsedRequest_init of None \<Rightarrow> False | Some (_, r) \<Rightarrow> rq_command r \<noteq> Modify) ls"
  shows "(\<forall>line \<in> set ls. numerals_fit line) \<and> admissible engine_step gateway_guard (commands_of env nows k ls) e"
proof (intro conjI admissible_always)
  show "\<forall>line \<in> set ls. numerals_fit line" using assms by (auto simp: list_all_iff numerals_fit_def split: option.splits)
  fix c e' assume "c \<in> set (commands_of env nows k ls)"
  then obtain n line where c: "line \<in> set ls" "command_of (env n) (nows n) line = Some c"
    by (blast dest: commands_of_member)
  with assms obtain err req where "parse_request line ParsedRequest_init = Some (err, req)" "rq_command req \<noteq> Modify"
    by (auto simp: list_all_iff split: option.splits)
  with c(2) show "gateway_guard c e'" by (auto simp: command_of_def split: if_splits InboundCommand.splits)
qed

lemma write_all_from_spec:
  assumes "\<forall>k n. send k n \<le> int n" "sent \<le> length s" "write_all_from send k s sent = (r, t)"
  shows "prefix t s \<and> (0 \<le> r \<longrightarrow> r = int (length t)) \<and> ((\<forall>k n. 0 < n \<longrightarrow> 0 < send k n) \<longrightarrow> t = s \<and> r = int (length s))"
  using assms
proof (induction send k s sent rule: write_all_from.induct)
  case (1 send k s sent)
  let ?n = "send k (length s - sent)"
  have le: "?n \<le> int (length s - sent)" using "1.prems"(1) by blast
  show ?case
  proof (cases "sent < length s \<and> 0 < ?n")
    case True
    with le have "sent + nat ?n \<le> length s" by linarith
    moreover have "write_all_from send (Suc k) s (sent + nat ?n) = (r, t)"
      using "1.prems"(3) True by (subst (asm) write_all_from.simps) (simp add: Let_def)
    ultimately show ?thesis using "1.IH" [of ?n] "1.prems"(1) True by simp
  next
    case False
    have "t = take sent s \<and> (r = int sent \<or> r < 0) \<and> (r = int sent \<or> sent < length s)"
      using "1.prems"(3) False by (subst (asm) write_all_from.simps) (auto simp: Let_def split: if_splits)
    moreover have "sent = length s" if "\<forall>k n. 0 < n \<longrightarrow> 0 < send k n"
      using that False "1.prems"(2) by (metis le_neq_implies_less zero_less_diff)
    ultimately show ?thesis using "1.prems"(2) by (auto simp: take_is_prefix)
  qed
qed

section \<open>Properties\<close>

text \<open>
  C23. How the network cuts a byte stream into pieces does not matter: a connection whose bytes
  arrive in any chunks does to the engine and the publisher what \<open>process_buffer\<close> does with
  the whole stream, and writes the same bytes.
\<close>

theorem client_loop_chunking:
  "map_option (\<lambda>(writes, g). (concat writes, g)) (client_loop env nows chunks e p) =
     process_buffer env nows (concat chunks) e p"
  using client_chunk_process_lines [of env nows "concat chunks" "gateway_session e p"]
  by (cases "client_chunk env nows (concat chunks) ('''', gateway_session e p)")
     (auto simp: client_loop_def process_buffer_def client_chunks_concat dest: sym)

text \<open>
  C22. The gateway does to the engine what the lines say. For any bytes in which no price of a modification overflows 64 bits and
  no modification moves an order into the other side of its book, and as long as a freed order can still be
  read as it was, the gateway handles the bytes to their end and leaves the engine as the commands of the complete lines
  leave it. Outside these conditions the behaviour of the program is undefined.
\<close>

theorem gateway_drives_engine:
  assumes "engine_ok e" "\<forall>n. freed_price_intact (env n)" "\<forall>line \<in> set (lines_of input). numerals_fit line"
    and "admissible engine_step gateway_guard (commands_of env nows 0 (lines_of input)) e"
  shows "\<exists>out g. process_buffer env nows input e p = Some (out, g) \<and> engine_ok (gw_engine g) \<and>
    run_steps engine_step (commands_of env nows 0 (lines_of input)) e = Some (gw_engine g)"
proof -
  have "admissible engine_step engine_cmd_ok (commands_of env nows 0 (lines_of input)) e"
    by (rule admissible_mono [OF assms(4)]) (use assms(2) commands_of_member gateway_command_ok in blast)
  with process_lines_engine [of "gateway_session e p" input env nows] assms(1,3) show ?thesis
    by (auto simp: process_buffer_def gateway_session_def)
qed

theorem gateway_drives_engine_witness:
  "\<exists>out g. process_buffer (\<lambda>_. demo_env) (\<lambda>_ _. 1) sample_input demo_engine new_Publisher = Some (out, g) \<and>
     engine_ok (gw_engine g) \<and>
     run_steps engine_step (commands_of (\<lambda>_. demo_env) (\<lambda>_ _. 1) 0 (lines_of sample_input)) demo_engine = Some (gw_engine g)"
proof (rule gateway_drives_engine [OF demo_engine_ok])
  show "\<forall>n. freed_price_intact demo_env" by simp
  have "list_all (\<lambda>line. case parse_request line ParsedRequest_init of None \<Rightarrow> False | Some (_, r) \<Rightarrow> rq_command r \<noteq> Modify) (lines_of sample_input)"
    by code_simp
  note lines = no_modify_admissible [OF this]
  show "\<forall>line \<in> set (lines_of sample_input). numerals_fit line"
    "admissible engine_step gateway_guard (commands_of (\<lambda>_. demo_env) (\<lambda>_ _. 1) 0 (lines_of sample_input)) demo_engine"
    using lines by blast+
qed

text \<open>
  A write is complete or reported: what is handed to the socket is a prefix of the text, its
  length is the return value unless \<^verbatim>\<open>send\<close> failed, and if every call accepts
  between one and the offered number of bytes, it is the whole text.
\<close>

theorem write_all_complete:
  assumes "\<forall>k n. send k n \<le> int n"
  shows "prefix (snd (write_all send s)) s \<and>
    (0 \<le> fst (write_all send s) \<longrightarrow> fst (write_all send s) = int (length (snd (write_all send s)))) \<and>
    ((\<forall>k n. 0 < n \<longrightarrow> 0 < send k n) \<longrightarrow> write_all send s = (int (length s), s))"
proof -
  obtain r t where w: "write_all send s = (r, t)" by fastforce
  with write_all_from_spec [OF assms, of 0 s 0 r t] show ?thesis by (simp add: write_all_def)
qed

theorem write_all_complete_witness:
  "write_all (\<lambda>k n. int (min 3 n)) ''TRADE 1 2 100 5'' = (15, ''TRADE 1 2 100 5'')"
  using write_all_complete [of "\<lambda>k n. int (min 3 n)" "''TRADE 1 2 100 5''"] by simp

end
