(* ===== verification/Queues.thy ===== *)
theory Queues
  imports Prelude
begin

text \<open>
  The bounded queues of the worker pool (\<^verbatim>\<open>concurrency/spsc_queue.hpp\<close> and
  \<open>MPSCRingQueue\<close> of \<^verbatim>\<open>concurrency/worker_pool.hpp\<close>): the contract both meet as a
  locale, the ring buffer with its wrapping 64-bit cursors, the locked vector, and the concurrent
  execution of one producer and one consumer on the ring, action by action.
\<close>

unbundle bit_operations_syntax

section \<open>The contract\<close>

fun push_all :: "('a \<Rightarrow> 'q \<Rightarrow> bool \<times> 'q) \<Rightarrow> 'a list \<Rightarrow> 'q \<Rightarrow> 'q" where
  "push_all push [] q = q"
| "push_all push (v # vs) q = push_all push vs (snd (push v q))"

fun pop_many :: "('q \<Rightarrow> 'a option \<times> 'q) \<Rightarrow> nat \<Rightarrow> 'q \<Rightarrow> 'a list \<times> 'q" where
  "pop_many pop 0 q = ([], q)"
| "pop_many pop (Suc n) q =
     (case pop q of (None, q') \<Rightarrow> ([], q')
      | (Some v, q') \<Rightarrow> (let (vs, q'') = pop_many pop n q' in (v # vs, q'')))"

locale bounded_queue =
  fixes push :: "'a \<Rightarrow> 'q \<Rightarrow> bool \<times> 'q"
    and pop :: "'q \<Rightarrow> 'a option \<times> 'q"
    and contents :: "'q \<Rightarrow> 'a list"
    and inv :: "'q \<Rightarrow> bool"
    and cap :: nat
  assumes push_result: "inv q \<Longrightarrow> fst (push v q) \<longleftrightarrow> length (contents q) < cap"
    and push_contents: "inv q \<Longrightarrow>
      contents (snd (push v q)) = (if length (contents q) < cap then contents q @ [v] else contents q)"
    and push_inv: "inv q \<Longrightarrow> inv (snd (push v q))"
    and pop_result: "inv q \<Longrightarrow> fst (pop q) = (case contents q of [] \<Rightarrow> None | v # _ \<Rightarrow> Some v)"
    and pop_contents: "inv q \<Longrightarrow> contents (snd (pop q)) = tl (contents q)"
    and pop_inv: "inv q \<Longrightarrow> inv (snd (pop q))"
begin

lemma push_all_spec:
  "inv q \<Longrightarrow> length (contents q) \<le> cap \<Longrightarrow> inv (push_all push vs q) \<and> contents (push_all push vs q) = take cap (contents q @ vs)"
proof (induction vs arbitrary: q)
  case (Cons v vs)
  let ?q = "snd (push v q)"
  have "inv ?q" using Cons.prems push_inv by blast
  moreover have "length (contents ?q) \<le> cap" using Cons.prems by (auto simp: push_contents)
  ultimately have "inv (push_all push vs ?q) \<and> contents (push_all push vs ?q) = take cap (contents ?q @ vs)" by (rule Cons.IH)
  then show ?case using Cons.prems by (auto simp: push_contents take_Cons' Suc_diff_Suc)
qed simp

lemma pop_many_spec:
  "inv q \<Longrightarrow> inv (snd (pop_many pop n q)) \<and> fst (pop_many pop n q) = take n (contents q) \<and>
     contents (snd (pop_many pop n q)) = drop n (contents q)"
proof (induction n arbitrary: q)
  case (Suc n)
  obtain r q' where p: "pop q = (r, q')" by fastforce
  with Suc.prems have q': "inv q'" "contents q' = tl (contents q)" "r = (case contents q of [] \<Rightarrow> None | v # _ \<Rightarrow> Some v)"
    using pop_inv [of q] pop_contents [of q] pop_result [of q] by simp_all
  from Suc.IH [OF q'(1)] q' p show ?case by (cases "contents q") (auto split: prod.splits)
qed simp

text \<open>What goes in comes out: first in, first out, without loss up to the capacity.\<close>

lemma fifo:
  assumes "inv q" "contents q = []" "length vs \<le> cap" "length vs \<le> n"
  shows "fst (pop_many pop n (push_all push vs q)) = vs"
  using push_all_spec [of q vs] pop_many_spec [of "push_all push vs q" n] assms by simp

end

section \<open>The ring buffer\<close>

record 'a SPSCQueue =
  q_buffer :: "'a list"
  q_head :: "64 word"
  q_tail :: "64 word"

text \<open>The static assertions on the capacity (a 64-bit size, so at most \<open>2 ^ 63\<close>).\<close>

definition capacity_ok :: "nat \<Rightarrow> bool" where
  "capacity_ok N \<longleftrightarrow> (\<exists>k. 0 < k \<and> k < 64 \<and> N = 2 ^ k)"

definition MASK :: "nat \<Rightarrow> 64 word" where "MASK N = of_nat (N - 1)"

definition slot :: "nat \<Rightarrow> 64 word \<Rightarrow> nat" where "slot N c = unat (c AND MASK N)"

definition new_SPSCQueue :: "nat \<Rightarrow> 'a \<Rightarrow> 'a SPSCQueue" where
  "new_SPSCQueue N d = \<lparr>q_buffer = replicate N d, q_head = 0, q_tail = 0\<rparr>"

definition spsc_push :: "nat \<Rightarrow> 'a \<Rightarrow> 'a SPSCQueue \<Rightarrow> bool \<times> 'a SPSCQueue" where
  "spsc_push N v q =
     (let tail = q_tail q; head = q_head q
      in if tail - head = of_nat N then (False, q)
         else (True, q\<lparr>q_buffer := (q_buffer q)[slot N tail := v], q_tail := tail + 1\<rparr>))"

definition spsc_pop :: "nat \<Rightarrow> 'a SPSCQueue \<Rightarrow> 'a option \<times> 'a SPSCQueue" where
  "spsc_pop N q =
     (let head = q_head q; tail = q_tail q
      in if head = tail then (None, q)
         else (Some (q_buffer q ! slot N head), q\<lparr>q_head := head + 1\<rparr>))"

definition spsc_empty :: "'a SPSCQueue \<Rightarrow> bool" where "spsc_empty q \<longleftrightarrow> q_head q = q_tail q"

definition size_approx :: "'a SPSCQueue \<Rightarrow> nat" where "size_approx q = unat (q_tail q - q_head q)"

definition spsc_contents :: "nat \<Rightarrow> 'a SPSCQueue \<Rightarrow> 'a list" where
  "spsc_contents N q = map (\<lambda>i. q_buffer q ! slot N (q_head q + of_nat i)) [0..<unat (q_tail q - q_head q)]"

definition spsc_inv :: "nat \<Rightarrow> 'a SPSCQueue \<Rightarrow> bool" where
  "spsc_inv N q \<longleftrightarrow> capacity_ok N \<and> length (q_buffer q) = N \<and> unat (q_tail q - q_head q) \<le> N"

section \<open>One producer and one consumer\<close>

text \<open>
  The two threads, action by action: each is in the middle of at most one call, holding what it has
  loaded. A load of the other side's cursor (acquire) may return an older value than the latest
  store, but never one older than this thread has already seen; the \<open>m\<close>-th value of a cursor
  is \<open>of_nat m\<close>. A store (release) is the moment the call takes effect: the histories
  \<open>pushed\<close> and \<open>popped\<close> record it.
\<close>

datatype 'a Producer =
    ProdIdle
  | ProdTail 'a "64 word"
  | ProdHead 'a "64 word" "64 word"
  | ProdWritten 'a "64 word"

datatype 'a Consumer =
    ConsIdle
  | ConsHead "64 word"
  | ConsTail "64 word" "64 word"
  | ConsRead 'a "64 word"

record 'a RingSystem =
  ring_q :: "'a SPSCQueue"
  producer :: "'a Producer"
  consumer :: "'a Consumer"
  head_seen :: nat
  tail_seen :: nat
  pushed :: "'a list"
  popped :: "'a list"

definition ring_start :: "nat \<Rightarrow> 'a \<Rightarrow> 'a RingSystem" where
  "ring_start N d = \<lparr>ring_q = new_SPSCQueue N d, producer = ProdIdle, consumer = ConsIdle,
     head_seen = 0, tail_seen = 0, pushed = [], popped = []\<rparr>"

inductive push_action :: "nat \<Rightarrow> 'a RingSystem \<Rightarrow> 'a RingSystem \<Rightarrow> bool" for N where
  load_tail: "producer s = ProdIdle \<Longrightarrow>
    push_action N s (s\<lparr>producer := ProdTail v (q_tail (ring_q s))\<rparr>)"
| load_head: "producer s = ProdTail v t \<Longrightarrow> head_seen s \<le> m \<Longrightarrow> m \<le> length (popped s) \<Longrightarrow>
    push_action N s (s\<lparr>producer := ProdHead v t (of_nat m), head_seen := m\<rparr>)"
| full: "producer s = ProdHead v t h \<Longrightarrow> t - h = of_nat N \<Longrightarrow>
    push_action N s (s\<lparr>producer := ProdIdle\<rparr>)"
| write_slot: "producer s = ProdHead v t h \<Longrightarrow> t - h \<noteq> of_nat N \<Longrightarrow>
    push_action N s (s\<lparr>ring_q := (ring_q s)\<lparr>q_buffer := (q_buffer (ring_q s))[slot N t := v]\<rparr>,
      producer := ProdWritten v t\<rparr>)"
| store_tail: "producer s = ProdWritten v t \<Longrightarrow>
    push_action N s (s\<lparr>ring_q := (ring_q s)\<lparr>q_tail := t + 1\<rparr>, producer := ProdIdle, pushed := pushed s @ [v]\<rparr>)"

inductive pop_action :: "nat \<Rightarrow> 'a RingSystem \<Rightarrow> 'a RingSystem \<Rightarrow> bool" for N where
  load_head: "consumer s = ConsIdle \<Longrightarrow>
    pop_action N s (s\<lparr>consumer := ConsHead (q_head (ring_q s))\<rparr>)"
| load_tail: "consumer s = ConsHead h \<Longrightarrow> tail_seen s \<le> m \<Longrightarrow> m \<le> length (pushed s) \<Longrightarrow>
    pop_action N s (s\<lparr>consumer := ConsTail h (of_nat m), tail_seen := m\<rparr>)"
| empty: "consumer s = ConsTail h t \<Longrightarrow> h = t \<Longrightarrow>
    pop_action N s (s\<lparr>consumer := ConsIdle\<rparr>)"
| read_slot: "consumer s = ConsTail h t \<Longrightarrow> h \<noteq> t \<Longrightarrow>
    pop_action N s (s\<lparr>consumer := ConsRead (q_buffer (ring_q s) ! slot N h) h\<rparr>)"
| store_head: "consumer s = ConsRead v h \<Longrightarrow>
    pop_action N s (s\<lparr>ring_q := (ring_q s)\<lparr>q_head := h + 1\<rparr>, consumer := ConsIdle, popped := popped s @ [v]\<rparr>)"

inductive ring_step :: "nat \<Rightarrow> 'a RingSystem \<Rightarrow> 'a RingSystem \<Rightarrow> bool" for N where
  push_action: "push_action N s s' \<Longrightarrow> ring_step N s s'"
| pop_action: "pop_action N s s' \<Longrightarrow> ring_step N s s'"

text \<open>The one conflict there could be: the producer about to write the slot the consumer is about to read.\<close>

definition racing :: "nat \<Rightarrow> 'a RingSystem \<Rightarrow> bool" where
  "racing N s \<longleftrightarrow> (\<exists>v t h h' t'. producer s = ProdHead v t h \<and> t - h \<noteq> of_nat N \<and>
     consumer s = ConsTail h' t' \<and> h' \<noteq> t' \<and> slot N t = slot N h')"

definition cursors_ok :: "nat \<Rightarrow> 'a RingSystem \<Rightarrow> bool" where
  "cursors_ok N s \<longleftrightarrow> q_head (ring_q s) = of_nat (length (popped s)) \<and> q_tail (ring_q s) = of_nat (length (pushed s)) \<and>
     length (popped s) \<le> tail_seen s \<and> tail_seen s \<le> length (pushed s) \<and>
     length (pushed s) \<le> head_seen s + N \<and> head_seen s \<le> length (popped s)"

definition pending_ok :: "nat \<Rightarrow> 'a RingSystem \<Rightarrow> bool" where
  "pending_ok N s \<longleftrightarrow> length (q_buffer (ring_q s)) = N \<and> take (length (popped s)) (pushed s) = popped s \<and>
     (\<forall>k. length (popped s) \<le> k \<longrightarrow> k < length (pushed s) \<longrightarrow> q_buffer (ring_q s) ! (k mod N) = pushed s ! k)"

definition producer_ok :: "nat \<Rightarrow> 'a RingSystem \<Rightarrow> bool" where
  "producer_ok N s \<longleftrightarrow> (case producer s of
       ProdIdle \<Rightarrow> True
     | ProdTail v t \<Rightarrow> t = q_tail (ring_q s)
     | ProdHead v t h \<Rightarrow> t = q_tail (ring_q s) \<and> h = of_nat (head_seen s)
     | ProdWritten v t \<Rightarrow> t = q_tail (ring_q s) \<and> length (pushed s) < head_seen s + N \<and>
         q_buffer (ring_q s) ! (length (pushed s) mod N) = v)"

definition consumer_ok :: "nat \<Rightarrow> 'a RingSystem \<Rightarrow> bool" where
  "consumer_ok N s \<longleftrightarrow> (case consumer s of
       ConsIdle \<Rightarrow> True
     | ConsHead h \<Rightarrow> h = q_head (ring_q s)
     | ConsTail h t \<Rightarrow> h = q_head (ring_q s) \<and> t = of_nat (tail_seen s)
     | ConsRead v h \<Rightarrow> h = q_head (ring_q s) \<and> length (popped s) < tail_seen s \<and> v = pushed s ! length (popped s))"

definition ring_inv :: "nat \<Rightarrow> 'a RingSystem \<Rightarrow> bool" where
  "ring_inv N s \<longleftrightarrow> capacity_ok N \<and> cursors_ok N s \<and> pending_ok N s \<and> producer_ok N s \<and> consumer_ok N s"

section \<open>The locked vector\<close>

definition mpsc_push :: "nat \<Rightarrow> 'a \<Rightarrow> 'a list \<Rightarrow> bool \<times> 'a list" where
  "mpsc_push cap v buf = (if length buf \<ge> cap then (False, buf) else (True, buf @ [v]))"

definition mpsc_pop :: "'a list \<Rightarrow> 'a option \<times> 'a list" where
  "mpsc_pop buf = (if buf = [] then (None, buf) else (Some (hd buf), tl buf))"

interpretation mpsc: bounded_queue "mpsc_push cap" mpsc_pop "\<lambda>buf. buf" "\<lambda>_. True" cap for cap
  by unfold_locales (auto simp: mpsc_push_def mpsc_pop_def split: list.splits)

section \<open>Slots\<close>

lemma capacity_bounds: "capacity_ok N \<Longrightarrow> 1 < N \<and> N < 2 ^ 64"
proof -
  assume "capacity_ok N"
  then obtain k where k: "0 < k" "k < 64" "N = 2 ^ k" by (auto simp: capacity_ok_def)
  then have "(2::nat) ^ k < 2 ^ 64" by (intro power_strict_increasing) simp_all
  moreover have "1 < (2::nat) ^ k" by (rule one_less_power) (use k in simp_all)
  ultimately show ?thesis using k by simp
qed

lemma slot_mod: "capacity_ok N \<Longrightarrow> slot N c = unat c mod N"
proof -
  assume "capacity_ok N"
  then obtain k where k: "k < 64" "N = 2 ^ k" by (auto simp: capacity_ok_def)
  have "MASK N = mask k" using k by (simp add: MASK_def mask_eq_exp_minus_1 of_nat_diff)
  then have "slot N c = unat (take_bit k c)" by (simp add: slot_def take_bit_eq_mask)
  also have "\<dots> = unat c mod N" using k by (simp only: unsigned_take_bit_eq) (simp add: take_bit_eq_mod)
  finally show ?thesis .
qed

lemma slot_of_nat: "capacity_ok N \<Longrightarrow> slot N (of_nat n) = n mod N"
proof -
  assume cap: "capacity_ok N"
  then obtain k where k: "k < 64" "N = 2 ^ k" by (auto simp: capacity_ok_def)
  have "N dvd 2 ^ 64" unfolding k by (rule le_imp_power_dvd) (use k in simp)
  then show ?thesis using slot_mod [OF cap, of "of_nat n"]
    by (simp add: unsigned_of_nat take_bit_eq_mod mod_mod_cancel)
qed

lemma slot_add: "capacity_ok N \<Longrightarrow> slot N (h + of_nat i) = (unat h + i) mod N"
  using slot_of_nat [of N "unat h + i"] by simp

lemma slot_less: "capacity_ok N \<Longrightarrow> slot N c < N"
  using slot_mod [of N c] capacity_bounds [of N] by simp

lemma mod_close: "(m + i) mod N = (m + j) mod N \<Longrightarrow> i \<le> j \<Longrightarrow> j < i + N \<Longrightarrow> i = (j::nat)"
proof -
  assume eq: "(m + i) mod N = (m + j) mod N" and ij: "i \<le> j" "j < i + N"
  have "(m + j - (m + i)) mod N = 0" using eq by (metis mod_eq_dvd_iff_nat ij(1) add_left_mono dvd_imp_mod_0)
  then have "(j - i) mod N = 0" by simp
  with ij show ?thesis by simp
qed

lemma slot_distinct:
  assumes "capacity_ok N" "i \<le> j" "j < i + N" "slot N (h + of_nat i) = slot N (h + of_nat j)"
  shows "i = j"
  using mod_close [of "unat h" i N j] assms(2-4) by (simp only: slot_add [OF assms(1)])

section \<open>The ring buffer is a bounded queue\<close>

lemma unat_small: "n < 2 ^ 64 \<Longrightarrow> unat (of_nat n :: 64 word) = n"
  by (simp add: unat_of_nat)

lemma unat_inc:
  fixes t h :: "64 word"
  assumes "unat (t - h) < 2 ^ 64 - 1"
  shows "unat (t + 1 - h) = Suc (unat (t - h))"
proof -
  have "t + 1 - h = of_nat (Suc (unat (t - h)))" by simp
  moreover have "unat (of_nat (Suc (unat (t - h))) :: 64 word) = Suc (unat (t - h))"
    by (rule unat_small) (use assms in simp)
  ultimately show ?thesis by (simp only:)
qed

lemma unat_dec: "h \<noteq> t \<Longrightarrow> unat (t - (h + 1)) = unat (t - h) - 1" for h t :: "64 word"
proof -
  assume "h \<noteq> t"
  then have "unat (t - h) \<noteq> 0" by (metis eq_iff_diff_eq_0 unat_eq_zero)
  then have "t - (h + 1) = of_nat (unat (t - h) - 1)" by (simp add: of_nat_diff algebra_simps)
  moreover have "unat (t - h) - 1 < 2 ^ LENGTH(64)" using unsigned_less [of "t - h"] by (metis less_imp_diff_less)
  ultimately show ?thesis by (simp add: unat_of_nat)
qed

lemma full_iff: "capacity_ok N \<Longrightarrow> unat d \<le> N \<Longrightarrow> d = of_nat N \<longleftrightarrow> \<not> unat d < N" for d :: "64 word"
proof -
  assume cap: "capacity_ok N" and "unat d \<le> N"
  moreover have "unat (of_nat N :: 64 word) = N" using capacity_bounds [OF cap] by (simp add: unat_of_nat)
  ultimately show ?thesis by (metis le_neq_implies_less less_irrefl word_unat_eq_iff)
qed

lemma tail_slot: "slot N t = slot N (h + of_nat (unat (t - h)))" for t :: "64 word"
  by simp

lemma spsc_push_spec:
  assumes "spsc_inv N q"
  shows "fst (spsc_push N v q) \<longleftrightarrow> length (spsc_contents N q) < N"
    and "spsc_inv N (snd (spsc_push N v q))"
    and "spsc_contents N (snd (spsc_push N v q)) =
      (if length (spsc_contents N q) < N then spsc_contents N q @ [v] else spsc_contents N q)"
proof -
  let ?n = "unat (q_tail q - q_head q)"
  from assms have cap: "capacity_ok N" and len: "length (q_buffer q) = N" and n: "?n \<le> N" by (auto simp: spsc_inv_def)
  note full = full_iff [OF cap n]
  show "fst (spsc_push N v q) \<longleftrightarrow> length (spsc_contents N q) < N"
    using full by (simp add: spsc_push_def Let_def spsc_contents_def)
  have suc: "unat (q_tail q + 1 - q_head q) = Suc ?n" if "?n < N"
    using that capacity_bounds [OF cap] by (intro unat_inc) simp
  show "spsc_inv N (snd (spsc_push N v q))"
    using assms full suc by (auto simp: spsc_push_def Let_def spsc_inv_def)
  have "slot N (q_tail q) \<noteq> slot N (q_head q + of_nat i)" if "i < ?n" "?n < N" for i
    using slot_distinct [OF cap, of i ?n "q_head q"] that tail_slot [of N "q_tail q" "q_head q"] by fastforce
  then have "spsc_contents N (snd (spsc_push N v q)) = spsc_contents N q @ [v]" if "?n < N"
    using that full suc len slot_less [OF cap, of "q_tail q"] by (simp add: spsc_push_def Let_def spsc_contents_def)
  then show "spsc_contents N (snd (spsc_push N v q)) =
      (if length (spsc_contents N q) < N then spsc_contents N q @ [v] else spsc_contents N q)"
    using full by (auto simp: spsc_push_def Let_def spsc_contents_def)
qed

lemma spsc_pop_spec:
  assumes "spsc_inv N q"
  shows "fst (spsc_pop N q) = (case spsc_contents N q of [] \<Rightarrow> None | v # _ \<Rightarrow> Some v)"
    and "spsc_contents N (snd (spsc_pop N q)) = tl (spsc_contents N q)"
    and "spsc_inv N (snd (spsc_pop N q))"
proof -
  let ?n = "unat (q_tail q - q_head q)"
  have split: "spsc_contents N q = q_buffer q ! slot N (q_head q) # spsc_contents N (snd (spsc_pop N q))"
    if "q_head q \<noteq> q_tail q"
  proof -
    from that have "?n \<noteq> 0" by (metis eq_iff_diff_eq_0 unat_eq_zero)
    then have "[0..<?n] = 0 # map Suc [0..<?n - 1]" by (simp add: map_Suc_upt upt_conv_Cons)
    with that unat_dec [OF that] show ?thesis
      by (simp add: spsc_contents_def spsc_pop_def Let_def add.assoc)
  qed
  have empty: "spsc_contents N q = []" if "q_head q = q_tail q" using that by (simp add: spsc_contents_def)
  show "fst (spsc_pop N q) = (case spsc_contents N q of [] \<Rightarrow> None | v # _ \<Rightarrow> Some v)"
    using split empty by (cases "q_head q = q_tail q") (auto simp: spsc_pop_def Let_def split: list.splits)
  show "spsc_contents N (snd (spsc_pop N q)) = tl (spsc_contents N q)"
    using split empty by (cases "q_head q = q_tail q") (auto simp: spsc_pop_def Let_def)
  show "spsc_inv N (snd (spsc_pop N q))"
    using assms unat_dec [of "q_head q" "q_tail q"] by (auto simp: spsc_pop_def Let_def spsc_inv_def)
qed

interpretation spsc: bounded_queue "spsc_push N" "spsc_pop N" "spsc_contents N" "spsc_inv N" N for N
  by unfold_locales (simp_all add: spsc_push_spec spsc_pop_spec)

lemma spsc_new: "capacity_ok N \<Longrightarrow> spsc_inv N (new_SPSCQueue N d) \<and> spsc_contents N (new_SPSCQueue N d) = []"
  by (simp add: spsc_inv_def new_SPSCQueue_def spsc_contents_def)

section \<open>The concurrent execution\<close>

lemmas ring_invs = cursors_ok_def pending_ok_def producer_ok_def consumer_ok_def

lemma of_nat_close: "capacity_ok N \<Longrightarrow> a \<le> b \<Longrightarrow> b \<le> a + N \<Longrightarrow> (of_nat a = (of_nat b :: 64 word)) \<longleftrightarrow> a = b"
proof -
  assume cap: "capacity_ok N" and ab: "a \<le> b" "b \<le> a + N"
  have "a = b" if "(of_nat a :: 64 word) = of_nat b"
  proof -
    from that have "(of_nat (b - a) :: 64 word) = 0" using ab by (simp add: of_nat_diff)
    moreover have "b - a < 2 ^ 64" using ab capacity_bounds [OF cap] by simp linarith
    ultimately show ?thesis using ab using unat_small [of "b - a"] by simp
  qed
  then show ?thesis by blast
qed

lemma of_nat_full: "capacity_ok N \<Longrightarrow> a \<le> b \<Longrightarrow> b \<le> a + N \<Longrightarrow> (of_nat b - of_nat a = (of_nat N :: 64 word)) \<longleftrightarrow> b = a + N"
proof -
  assume cap: "capacity_ok N" and ab: "a \<le> b" "b \<le> a + N"
  have "(of_nat b - of_nat a = (of_nat N :: 64 word)) \<longleftrightarrow> of_nat b = (of_nat (a + N) :: 64 word)"
    by (simp add: diff_eq_eq add.commute)
  also have "\<dots> \<longleftrightarrow> b = a + N" using of_nat_close [OF cap ab(2)] ab by simp
  finally show ?thesis .
qed

lemma ring_inv_start: "capacity_ok N \<Longrightarrow> ring_inv N (ring_start N d)"
  by (simp add: ring_inv_def ring_invs ring_start_def new_SPSCQueue_def)

lemma mod_neq: "(k::nat) < m \<Longrightarrow> m < k + N \<Longrightarrow> k mod N \<noteq> m mod N"
  using mod_close [of 0 k N m] by auto

lemma push_action_inv: "push_action N s s' \<Longrightarrow> ring_inv N s \<Longrightarrow> ring_inv N s'"
proof (induction rule: push_action.induct)
  case (load_tail s v)
  then show ?case by (simp add: ring_inv_def ring_invs split: Producer.splits Consumer.splits)
next
  case (load_head s v t m)
  then show ?case by (auto simp: ring_inv_def ring_invs split: Producer.splits Consumer.splits)
next
  case (full s v t h)
  then show ?case by (simp add: ring_inv_def ring_invs split: Producer.splits Consumer.splits)
next
  case (write_slot s v t h)
  then have cap: "capacity_ok N" and inv: "cursors_ok N s" "pending_ok N s" "producer_ok N s" by (simp_all add: ring_inv_def)
  have t: "t = of_nat (length (pushed s))" "h = of_nat (head_seen s)"
    using inv write_slot.hyps by (simp_all add: ring_invs)
  have "length (pushed s) \<noteq> head_seen s + N"
    using write_slot.hyps(2) of_nat_full [OF cap, of "head_seen s" "length (pushed s)"] inv(1) t by (auto simp: ring_invs)
  then have room: "length (pushed s) < head_seen s + N" using inv(1) by (simp add: ring_invs)
  then have other: "length (pushed s) mod N \<noteq> k mod N" if "length (popped s) \<le> k" "k < length (pushed s)" for k
    using mod_neq [of k "length (pushed s)" N] that inv(1) by (simp add: ring_invs)
  have "length (pushed s) mod N < N" using capacity_bounds [OF cap] by simp
  then have buf: "(q_buffer (ring_q s))[slot N t := v] ! (length (pushed s) mod N) = v"
    using inv(2) t(1) by (simp add: pending_ok_def slot_of_nat [OF cap])
  let ?s = "s\<lparr>ring_q := (ring_q s)\<lparr>q_buffer := (q_buffer (ring_q s))[slot N t := v]\<rparr>, producer := ProdWritten v t\<rparr>"
  have "cursors_ok N ?s" using inv(1) by (simp add: cursors_ok_def)
  moreover have "pending_ok N ?s" using inv(2) other t(1) by (simp add: pending_ok_def slot_of_nat [OF cap])
  moreover have "producer_ok N ?s" using room buf inv(1) t(1) by (simp add: producer_ok_def cursors_ok_def)
  moreover have "consumer_ok N ?s" using write_slot.prems by (simp add: ring_inv_def consumer_ok_def split: Consumer.splits)
  ultimately show ?case using cap by (simp add: ring_inv_def)
next
  case (store_tail s v t)
  then have inv: "cursors_ok N s" "pending_ok N s" "producer_ok N s" by (simp_all add: ring_inv_def)
  with store_tail show ?case
    by (auto simp: ring_inv_def ring_invs nth_append less_Suc_eq split: Consumer.splits)
qed

lemma pop_action_inv: "pop_action N s s' \<Longrightarrow> ring_inv N s \<Longrightarrow> ring_inv N s'"
proof (induction rule: pop_action.induct)
  case (load_head s)
  then show ?case by (simp add: ring_inv_def ring_invs split: Producer.splits Consumer.splits)
next
  case (load_tail s h m)
  then show ?case by (auto simp: ring_inv_def ring_invs split: Producer.splits Consumer.splits)
next
  case (empty s h t)
  then show ?case by (simp add: ring_inv_def ring_invs split: Producer.splits Consumer.splits)
next
  case (read_slot s h t)
  then have cap: "capacity_ok N" and inv: "cursors_ok N s" "pending_ok N s" "consumer_ok N s" by (simp_all add: ring_inv_def)
  have h: "h = of_nat (length (popped s))" "t = of_nat (tail_seen s)"
    using inv read_slot.hyps by (simp_all add: ring_invs)
  have "length (popped s) < tail_seen s"
    using read_slot.hyps(2) of_nat_close [OF cap, of "length (popped s)" "tail_seen s"] inv(1) h by (auto simp: ring_invs)
  moreover have "q_buffer (ring_q s) ! slot N h = pushed s ! length (popped s)"
    using calculation inv(1,2) h(1) by (simp add: cursors_ok_def pending_ok_def slot_of_nat [OF cap])
  ultimately have "consumer_ok N (s\<lparr>consumer := ConsRead (q_buffer (ring_q s) ! slot N h) h\<rparr>)"
    using inv(1) h(1) by (simp add: consumer_ok_def cursors_ok_def)
  with read_slot.prems show ?case
    by (simp add: ring_inv_def cursors_ok_def pending_ok_def producer_ok_def split: Producer.splits)
next
  case (store_head s v h)
  then have inv: "cursors_ok N s" "pending_ok N s" "consumer_ok N s" by (simp_all add: ring_inv_def)
  then have "take (Suc (length (popped s))) (pushed s) = popped s @ [v]" using store_head.hyps
    by (auto simp: ring_invs take_Suc_conv_app_nth)
  with store_head inv show ?case by (auto simp: ring_inv_def ring_invs split: Producer.splits)
qed

lemma ring_step_inv: "ring_step N s s' \<Longrightarrow> ring_inv N s \<Longrightarrow> ring_inv N s'"
  by (induction rule: ring_step.induct) (blast intro: push_action_inv pop_action_inv)+

lemma ring_reachable_inv: "(ring_step N)\<^sup>*\<^sup>* s s' \<Longrightarrow> ring_inv N s \<Longrightarrow> ring_inv N s'"
  by (induction rule: rtranclp_induct) (blast intro: ring_step_inv)+

lemma ring_inv_no_race: "ring_inv N s \<Longrightarrow> \<not> racing N s"
proof
  assume inv: "ring_inv N s" and "racing N s"
  then obtain v t h h' t' where r: "producer s = ProdHead v t h" "t - h \<noteq> of_nat N"
    "consumer s = ConsTail h' t'" "h' \<noteq> t'" "slot N t = slot N h'" by (auto simp: racing_def)
  have cap: "capacity_ok N" and c: "cursors_ok N s" using inv by (simp_all add: ring_inv_def)
  have eqs: "t = of_nat (length (pushed s))" "h = of_nat (head_seen s)" "h' = of_nat (length (popped s))" "t' = of_nat (tail_seen s)"
    using inv r by (simp_all add: ring_inv_def ring_invs)
  have "length (pushed s) \<noteq> head_seen s + N" "length (popped s) \<noteq> tail_seen s"
    using r(2,4) of_nat_full [OF cap, of "head_seen s" "length (pushed s)"] c by (auto simp: eqs ring_invs)
  then have "length (popped s) < length (pushed s)" "length (pushed s) < length (popped s) + N" using c by (simp_all add: ring_invs)
  from mod_neq [OF this] r(5) show False by (simp add: eqs slot_of_nat [OF cap])
qed

text \<open>A call run without interruption is the sequential operation.\<close>

lemma push_uninterrupted:
  assumes idle: "producer s = ProdIdle" and inv: "ring_inv N s"
  shows "(ring_step N)\<^sup>*\<^sup>* s (s\<lparr>ring_q := snd (spsc_push N v (ring_q s)), head_seen := length (popped s),
    pushed := if fst (spsc_push N v (ring_q s)) then pushed s @ [v] else pushed s\<rparr>)"
proof -
  let ?t = "q_tail (ring_q s)" and ?h = "q_head (ring_q s)"
  let ?s1 = "s\<lparr>producer := ProdTail v ?t\<rparr>"
  let ?s2 = "s\<lparr>producer := ProdHead v ?t ?h, head_seen := length (popped s)\<rparr>"
  have h: "?h = of_nat (length (popped s))" "head_seen s \<le> length (popped s)" using inv by (simp_all add: ring_inv_def cursors_ok_def)
  have 1: "ring_step N s ?s1" by (intro ring_step.push_action push_action.load_tail idle)
  have 2: "ring_step N ?s1 ?s2"
    using push_action.load_head [of ?s1 v ?t "length (popped s)" N] h by (auto intro: ring_step.push_action)
  show ?thesis
  proof (cases "?t - ?h = of_nat N")
    case True
    have "?s2\<lparr>producer := ProdIdle\<rparr> = s\<lparr>head_seen := length (popped s)\<rparr>" using idle by (cases s) simp
    then have "ring_step N ?s2 (s\<lparr>head_seen := length (popped s)\<rparr>)"
      using ring_step.push_action [OF push_action.full [of ?s2 v ?t ?h N]] True by simp
    with 1 2 have "(ring_step N)\<^sup>*\<^sup>* s (s\<lparr>head_seen := length (popped s)\<rparr>)"
      by (meson converse_rtranclp_into_rtranclp rtranclp.rtrancl_refl)
    then show ?thesis using True by (simp add: spsc_push_def Let_def)
  next
    case False
    let ?s3 = "?s2\<lparr>ring_q := (ring_q s)\<lparr>q_buffer := (q_buffer (ring_q s))[slot N ?t := v]\<rparr>, producer := ProdWritten v ?t\<rparr>"
    have 3: "ring_step N ?s2 ?s3"
      using push_action.write_slot [of ?s2 v ?t ?h N] False by (auto intro: ring_step.push_action)
    have "ring_step N ?s3 (?s3\<lparr>ring_q := (ring_q ?s3)\<lparr>q_tail := ?t + 1\<rparr>, producer := ProdIdle, pushed := pushed s @ [v]\<rparr>)"
      using push_action.store_tail [of ?s3 v ?t N] by (auto intro: ring_step.push_action)
    with 1 2 3 have "(ring_step N)\<^sup>*\<^sup>* s (?s3\<lparr>ring_q := (ring_q ?s3)\<lparr>q_tail := ?t + 1\<rparr>, producer := ProdIdle, pushed := pushed s @ [v]\<rparr>)"
      by (meson converse_rtranclp_into_rtranclp rtranclp.rtrancl_refl)
    then show ?thesis using False idle by (cases s) (simp add: spsc_push_def Let_def)
  qed
qed

lemma pop_uninterrupted:
  assumes idle: "consumer s = ConsIdle" and inv: "ring_inv N s"
  shows "(ring_step N)\<^sup>*\<^sup>* s (s\<lparr>ring_q := snd (spsc_pop N (ring_q s)), tail_seen := length (pushed s),
    popped := popped s @ (case fst (spsc_pop N (ring_q s)) of None \<Rightarrow> [] | Some v \<Rightarrow> [v])\<rparr>)"
proof -
  let ?t = "q_tail (ring_q s)" and ?h = "q_head (ring_q s)"
  let ?s1 = "s\<lparr>consumer := ConsHead ?h\<rparr>"
  let ?s2 = "s\<lparr>consumer := ConsTail ?h ?t, tail_seen := length (pushed s)\<rparr>"
  have t: "?t = of_nat (length (pushed s))" "tail_seen s \<le> length (pushed s)" using inv by (simp_all add: ring_inv_def cursors_ok_def)
  have 1: "ring_step N s ?s1" by (intro ring_step.pop_action pop_action.load_head idle)
  have 2: "ring_step N ?s1 ?s2"
    using pop_action.load_tail [of ?s1 ?h "length (pushed s)" N] t by (auto intro: ring_step.pop_action)
  show ?thesis
  proof (cases "?h = ?t")
    case True
    have "?s2\<lparr>consumer := ConsIdle\<rparr> = s\<lparr>tail_seen := length (pushed s)\<rparr>" using idle by (cases s) simp
    then have "ring_step N ?s2 (s\<lparr>tail_seen := length (pushed s)\<rparr>)"
      using ring_step.pop_action [OF pop_action.empty [of ?s2 ?h ?t N]] True by simp
    with 1 2 have "(ring_step N)\<^sup>*\<^sup>* s (s\<lparr>tail_seen := length (pushed s)\<rparr>)"
      by (meson converse_rtranclp_into_rtranclp rtranclp.rtrancl_refl)
    then show ?thesis using True by (simp add: spsc_pop_def Let_def)
  next
    case False
    let ?v = "q_buffer (ring_q s) ! slot N ?h"
    let ?s3 = "?s2\<lparr>consumer := ConsRead ?v ?h\<rparr>"
    have 3: "ring_step N ?s2 ?s3"
      using pop_action.read_slot [of ?s2 ?h ?t N] False by (auto intro: ring_step.pop_action)
    have "ring_step N ?s3 (?s3\<lparr>ring_q := (ring_q s)\<lparr>q_head := ?h + 1\<rparr>, consumer := ConsIdle, popped := popped s @ [?v]\<rparr>)"
      using pop_action.store_head [of ?s3 ?v ?h N] by (auto intro: ring_step.pop_action)
    with 1 2 3 have "(ring_step N)\<^sup>*\<^sup>* s (?s3\<lparr>ring_q := (ring_q s)\<lparr>q_head := ?h + 1\<rparr>, consumer := ConsIdle, popped := popped s @ [?v]\<rparr>)"
      by (meson converse_rtranclp_into_rtranclp rtranclp.rtrancl_refl)
    then show ?thesis using False idle by (cases s) (simp add: spsc_pop_def Let_def)
  qed
qed

section \<open>Properties\<close>

text \<open>
  C29. The lock-free queue. However the loads and stores of one producer and one consumer interleave,
  and however stale the loads of the other side's cursor are, the consumer has received a prefix
  of what the producer has sent, at most \<open>N\<close> elements are under way, the pending elements are
  those in the ring, and the two threads never touch the same slot at the same time.
\<close>

theorem spsc_concurrent_fifo:
  assumes "capacity_ok N" "(ring_step N)\<^sup>*\<^sup>* (ring_start N d) s"
  shows "pushed s = popped s @ spsc_contents N (ring_q s) \<and> length (pushed s) \<le> length (popped s) + N \<and> \<not> racing N s"
proof -
  have inv: "ring_inv N s" using ring_reachable_inv [OF assms(2) ring_inv_start [OF assms(1)]] .
  then have c: "cursors_ok N s" "pending_ok N s" by (simp_all add: ring_inv_def)
  let ?n = "length (pushed s)" and ?m = "length (popped s)"
  have le: "?m \<le> ?n" "?n \<le> ?m + N" using c(1) by (simp_all add: cursors_ok_def)
  have "q_tail (ring_q s) - q_head (ring_q s) = of_nat (?n - ?m)" using c(1) le by (simp add: cursors_ok_def of_nat_diff)
  moreover have "?n - ?m < 2 ^ 64" using capacity_bounds [OF assms(1)] le by simp linarith
  ultimately have len: "unat (q_tail (ring_q s) - q_head (ring_q s)) = ?n - ?m" by (simp only: unat_small)
  have "slot N (q_head (ring_q s) + of_nat i) = (?m + i) mod N" for i
    using slot_of_nat [OF assms(1), of "?m + i"] c(1) by (simp add: cursors_ok_def)
  then have "spsc_contents N (ring_q s) = map (\<lambda>i. pushed s ! (?m + i)) [0..<?n - ?m]"
    using c(2) le by (simp add: spsc_contents_def len pending_ok_def)
  also have "\<dots> = drop ?m (pushed s)" by (rule nth_equalityI) simp_all
  finally have "pushed s = popped s @ spsc_contents N (ring_q s)"
    using c(2) by (metis append_take_drop_id pending_ok_def)
  with le ring_inv_no_race [OF inv] show ?thesis by simp
qed

theorem spsc_concurrent_fifo_witness:
  "\<exists>s :: int RingSystem. (ring_step 4)\<^sup>*\<^sup>* (ring_start 4 0) s \<and> pushed s = [7] \<and> popped s = [] \<and>
     spsc_contents 4 (ring_q s) = [7] \<and> \<not> racing 4 s"
proof -
  have cap: "capacity_ok 4" unfolding capacity_ok_def by (rule exI [of _ 2]) simp
  let ?s = "ring_start 4 0 :: int RingSystem"
  have "fst (spsc_push 4 7 (ring_q ?s))" by code_simp
  with push_uninterrupted [of ?s 4 7] ring_inv_start [OF cap, of "0 :: int"] obtain s where
    "(ring_step 4)\<^sup>*\<^sup>* ?s s" "pushed s = [7]" "popped s = []" by (auto simp: ring_start_def)
  with spsc_concurrent_fifo [OF cap this(1)] show ?thesis by auto
qed

text \<open>
  Both queues are first-in first-out up to their capacity: what is pushed onto an empty queue, at
  most as many elements as it has room for, is popped in the same order; the cursors of the ring
  may wrap around on the way.
\<close>

theorem queues_are_fifo:
  assumes "spsc_inv N q" "spsc_contents N q = []" "length vs \<le> N" "length ws \<le> cap"
  shows "fst (pop_many (spsc_pop N) N (push_all (spsc_push N) vs q)) = vs \<and>
    fst (pop_many mpsc_pop cap (push_all (mpsc_push cap) ws [])) = ws"
  using spsc.fifo [OF assms(1,2,3,3)] mpsc.fifo [of "[]" ws cap cap] assms(3,4) by simp

theorem queues_are_fifo_witness:
  "fst (pop_many (spsc_pop 4) 4 (push_all (spsc_push 4) [5, 6, 7 :: int]
      \<lparr>q_buffer = [0, 0, 0, 0], q_head = 2 ^ 64 - 2, q_tail = 2 ^ 64 - 2\<rparr>)) = [5, 6, 7] \<and>
   fst (pop_many mpsc_pop 65536 (push_all (mpsc_push 65536) [5, 6, 7 :: int] [])) = [5, 6, 7]"
proof -
  have cap: "capacity_ok 4" unfolding capacity_ok_def by (rule exI [of _ 2]) simp
  let ?q = "\<lparr>q_buffer = [0, 0, 0, 0], q_head = 2 ^ 64 - 2, q_tail = 2 ^ 64 - 2\<rparr> :: int SPSCQueue"
  have "spsc_inv 4 ?q" "spsc_contents 4 ?q = []" using cap by (simp_all add: spsc_inv_def spsc_contents_def)
  from queues_are_fifo [OF this, of "[5, 6, 7]" "[5, 6, 7 :: int]" 65536] show ?thesis by simp
qed

end
