(* ===== verification/Worker_Pool.thy ===== *)
theory Worker_Pool
  imports Market_Data Queues
begin

text \<open>
  The worker pool (\<^verbatim>\<open>concurrency/worker_pool.hpp\<close>, \<^verbatim>\<open>concurrency/worker_pool.cpp\<close>):
  one worker per instrument, with its own engine and a lock-free inbox, and one outbound queue that
  all workers share. A worker's thread is a machine of its own: it checks \<open>running_\<close>, then
  pops, then pushes the events of the submission to the outbound queue one by one, each push under the lock of that queue;
  calls from other threads fall between all of these steps. The inbox holds pointers, \<^const>\<open>None\<close>
  being the null pointer that stops the thread.
\<close>

section \<open>Outbound events\<close>

datatype OutboundKind = OutTrade | OutSubmit | OutTopOfBook | OutError

record SubmitResultLite =
  lite_status :: SubmitStatus
  lite_order_id :: OrderId
  lite_instrument_id :: InstrumentId
  lite_sequence :: Sequence
  lite_filled_quantity :: Quantity
  lite_resting_quantity :: Quantity
  lite_side :: Side
  lite_type :: OrderType
  lite_price :: Price
  lite_reject_reason :: string

definition zeros :: "nat \<Rightarrow> string" where "zeros n = replicate n (CHR 0x00)"

definition SubmitResultLite_init :: SubmitResultLite where
  "SubmitResultLite_init =
     \<lparr>lite_status = Accepted, lite_order_id = kInvalidOrderId, lite_instrument_id = kInvalidInstrumentId,
      lite_sequence = 0, lite_filled_quantity = Quantity 0, lite_resting_quantity = Quantity 0, lite_side = Buy,
      lite_type = Limit, lite_price = Price 0, lite_reject_reason = zeros 128\<rparr>"

record OutboundEvent =
  out_kind :: OutboundKind
  out_trade :: Trade
  out_result :: SubmitResultLite
  out_tob :: TopOfBookSnapshot
  out_error_message :: string

definition OutboundEvent_init :: OutboundEvent where
  "OutboundEvent_init = \<lparr>out_kind = OutSubmit, out_trade = Trade_init, out_result = SubmitResultLite_init,
     out_tob = TopOfBookSnapshot_init, out_error_message = zeros 128\<rparr>"

definition copy_error :: "string \<Rightarrow> string \<Rightarrow> string" where
  "copy_error dst src = (let n = min (length src) (length dst - 1) in take n src @ [CHR 0x00] @ drop (n + 1) dst)"

definition to_lite :: "SubmitResult \<Rightarrow> SubmitResultLite" where
  "to_lite r = SubmitResultLite_init
     \<lparr>lite_status := sr_status r, lite_order_id := sr_order_id r, lite_instrument_id := sr_instrument_id r,
      lite_sequence := sr_sequence r, lite_filled_quantity := filled_quantity r, lite_resting_quantity := resting_quantity r,
      lite_side := sr_side r, lite_type := sr_type r, lite_price := sr_price r,
      lite_reject_reason := copy_error (lite_reject_reason SubmitResultLite_init) (reject_reason r)\<rparr>"

definition kOutboundCapacity :: nat where "kOutboundCapacity = 65536"

type_synonym Outbound = "OutboundEvent list"

fun outbound_event :: "SinkEvent \<Rightarrow> OutboundEvent" where
  "outbound_event (OnTrade t) = OutboundEvent_init\<lparr>out_kind := OutTrade, out_trade := t\<rparr>"
| "outbound_event (OnSubmitResult r) = OutboundEvent_init\<lparr>out_kind := OutSubmit, out_result := to_lite r,
     out_error_message := copy_error (out_error_message OutboundEvent_init) (reject_reason r)\<rparr>"

definition WorkerSink_on :: "SinkEvent \<Rightarrow> Outbound \<Rightarrow> Outbound" where
  "WorkerSink_on ev out = snd (mpsc_push kOutboundCapacity (outbound_event ev) out)"

section \<open>A worker\<close>

definition kInboxCapacity :: nat where "kInboxCapacity = 4096"

text \<open>
  Where the thread is. In \<open>Emitting evs\<close> it runs \<^verbatim>\<open>engine_->submit\<close> and the pushes of \<open>evs\<close> are still to come. The engine is the
  worker's own, and only this thread uses it, so the moment at which it changes between the pushes cannot be observed; it is
  updated with the pop.
\<close>

datatype WorkerPC = NotStarted | AtCheck | AtPop | Emitting "SinkEvent list" | Exited

fun emitting :: "WorkerPC \<Rightarrow> SinkEvent list" where
  "emitting (Emitting evs) = evs"
| "emitting _ = []"

record Worker =
  wk_instrument :: InstrumentId
  wk_engine :: "Engine option"
  wk_publisher :: "Publisher option"
  wk_inbox :: "Order option SPSCQueue"
  wk_running :: bool
  wk_pc :: WorkerPC

definition new_Worker :: "InstrumentId \<Rightarrow> Worker" where
  "new_Worker i = \<lparr>wk_instrument = i, wk_engine = None, wk_publisher = None,
     wk_inbox = new_SPSCQueue kInboxCapacity None, wk_running = False, wk_pc = NotStarted\<rparr>"

definition Worker_start :: "Worker \<Rightarrow> Worker" where
  "Worker_start w =
     (if wk_running w then w
      else w\<lparr>wk_running := True, wk_engine := Some (register_instrument_id (wk_instrument w) new_Engine),
             wk_publisher := Some new_Publisher, wk_pc := AtCheck\<rparr>)"

definition Worker_submit :: "Order option \<Rightarrow> Worker \<Rightarrow> bool \<times> Worker" where
  "Worker_submit order w =
     (let (ok, q) = spsc_push kInboxCapacity order (wk_inbox w) in (ok, w\<lparr>wk_inbox := q\<rparr>))"

text \<open>One step of the worker's thread.\<close>

definition Worker_turn :: "Env \<Rightarrow> (nat \<Rightarrow> int) \<Rightarrow> Worker \<times> Outbound \<Rightarrow> (Worker \<times> Outbound) option" where
  "Worker_turn env nows = (\<lambda>(w, out).
     (case wk_pc w of
        AtCheck \<Rightarrow> Some (w\<lparr>wk_pc := if wk_running w then AtPop else Exited\<rparr>, out)
      | AtPop \<Rightarrow>
          (case spsc_pop kInboxCapacity (wk_inbox w) of
             (None, q) \<Rightarrow> Some (w\<lparr>wk_inbox := q, wk_pc := AtCheck\<rparr>, out)
           | (Some None, q) \<Rightarrow> Some (w\<lparr>wk_inbox := q, wk_pc := Exited\<rparr>, out)
           | (Some (Some ord), q) \<Rightarrow>
               do { e \<leftarrow> wk_engine w;
                    (e', trace) \<leftarrow> submit env nows (Some ord) e;
                    Some (w\<lparr>wk_inbox := q, wk_engine := Some e', wk_pc := Emitting (map fst trace)\<rparr>, out) })
      | Emitting [] \<Rightarrow> Some (w\<lparr>wk_pc := AtCheck\<rparr>, out)
      | Emitting (ev # evs) \<Rightarrow> Some (w\<lparr>wk_pc := Emitting evs\<rparr>, WorkerSink_on ev out)
      | _ \<Rightarrow> Some (w, out)))"

text \<open>
  \<open>stop\<close> clears the flag, pushes the null pointer (which a full inbox refuses), joins and releases the engine. The join takes as
  many steps of the thread as it needs; if the thread never exited, it would not return. What the other threads do meanwhile
  meets this worker only in the outbound queue, whose contents do not steer its thread; that the thread exits whatever they do
  is \<open>stopped_exits\<close> below.
\<close>

definition stop_request :: "Worker \<Rightarrow> Worker" where
  "stop_request w = w\<lparr>wk_running := False\<rparr>"

partial_function (option) join_worker :: "Env \<Rightarrow> (nat \<Rightarrow> int) \<Rightarrow> Worker \<times> Outbound \<Rightarrow> (Worker \<times> Outbound) option" where
  "join_worker env nows s =
     (if wk_pc (fst s) = Exited \<or> wk_pc (fst s) = NotStarted then Some s
      else do { s' \<leftarrow> Worker_turn env nows s; join_worker env nows s' })"

definition Worker_stop :: "Env \<Rightarrow> (nat \<Rightarrow> int) \<Rightarrow> Worker \<times> Outbound \<Rightarrow> (Worker \<times> Outbound) option" where
  "Worker_stop env nows = (\<lambda>(w, out).
     if \<not> wk_running w then Some (w, out)
     else do { let w1 = snd (Worker_submit None (stop_request w));
               (w2, out2) \<leftarrow> join_worker env nows (w1, out);
               Some (w2\<lparr>wk_publisher := None, wk_engine := None\<rparr>, out2) })"

section \<open>The pool\<close>

record WorkerPool =
  pool_workers :: "InstrumentId \<rightharpoonup> Worker"
  pool_outbound :: Outbound

definition get_or_create :: "InstrumentId \<Rightarrow> WorkerPool \<Rightarrow> WorkerPool" where
  "get_or_create i p =
     (case pool_workers p i of
        Some _ \<Rightarrow> p
      | None \<Rightarrow> p\<lparr>pool_workers := (pool_workers p)(i \<mapsto> Worker_start (new_Worker i))\<rparr>)"

definition pool_submit :: "InstrumentId \<Rightarrow> Order option \<Rightarrow> WorkerPool \<Rightarrow> bool \<times> WorkerPool" where
  "pool_submit i order p =
     (case pool_workers p i of
        None \<Rightarrow> (False, p)
      | Some w \<Rightarrow> (let (ok, w') = Worker_submit order w in (ok, p\<lparr>pool_workers := (pool_workers p)(i \<mapsto> w')\<rparr>)))"

definition worker_count :: "WorkerPool \<Rightarrow> nat" where "worker_count p = card (dom (pool_workers p))"

text \<open>The order in which \<open>shutdown\<close> visits the workers is that of the hash map, here a parameter.\<close>

fun stop_workers :: "(InstrumentId \<Rightarrow> Env) \<Rightarrow> (InstrumentId \<Rightarrow> nat \<Rightarrow> int) \<Rightarrow> InstrumentId list \<Rightarrow> WorkerPool \<Rightarrow> WorkerPool option" where
  "stop_workers env nows [] p = Some p"
| "stop_workers env nows (i # is) p =
     (case pool_workers p i of
        None \<Rightarrow> stop_workers env nows is p
      | Some w \<Rightarrow>
          do { (w', out) \<leftarrow> Worker_stop (env i) (nows i) (w, pool_outbound p);
               stop_workers env nows is (p\<lparr>pool_workers := (pool_workers p)(i \<mapsto> w'), pool_outbound := out\<rparr>) })"

definition pool_shutdown ::
    "(InstrumentId \<Rightarrow> Env) \<Rightarrow> (InstrumentId \<Rightarrow> nat \<Rightarrow> int) \<Rightarrow> InstrumentId list \<Rightarrow> WorkerPool \<Rightarrow> WorkerPool option" where
  "pool_shutdown env nows order p =
     do { p' \<leftarrow> stop_workers env nows order p; Some (p'\<lparr>pool_workers := Map.empty\<rparr>) }"

section \<open>Interleaved execution\<close>

text \<open>
  What can happen to a running worker, in any order: a submission, a step of its thread, a reader
  taking an event off the outbound queue, another worker pushing to it, a request to stop, which clears the flag (the null
  pointer that follows it is a submission like another). The history keeps what was accepted,
  what the thread took, and the engine commands it ran.
\<close>

datatype WorkerAction =
    Offer "Order option"
  | Turn Env "nat \<Rightarrow> int"
  | Collect
  | OtherPush OutboundEvent
  | RequestStop

record WorkerSystem =
  sys_worker :: Worker
  sys_outbound :: Outbound
  sys_accepted :: "Order option list"
  sys_taken :: "Order option list"
  sys_commands :: "EngineCommand list"

definition worker_system :: "InstrumentId \<Rightarrow> WorkerSystem" where
  "worker_system i = \<lparr>sys_worker = Worker_start (new_Worker i), sys_outbound = [],
     sys_accepted = [], sys_taken = [], sys_commands = []\<rparr>"

definition about_to_take :: "Worker \<Rightarrow> Order option list" where
  "about_to_take w = (if wk_pc w = AtPop then take 1 (spsc_contents kInboxCapacity (wk_inbox w)) else [])"

fun worker_act :: "WorkerAction \<Rightarrow> WorkerSystem \<Rightarrow> WorkerSystem option" where
  "worker_act (Offer order) s =
     (let (ok, w) = Worker_submit order (sys_worker s)
      in Some (s\<lparr>sys_worker := w, sys_accepted := sys_accepted s @ (if ok then [order] else [])\<rparr>))"
| "worker_act (Turn env nows) s =
     do { (w, out) \<leftarrow> Worker_turn env nows (sys_worker s, sys_outbound s);
          Some (s\<lparr>sys_worker := w, sys_outbound := out,
            sys_taken := sys_taken s @ about_to_take (sys_worker s),
            sys_commands := sys_commands s @
              map (\<lambda>ord. SubmitCmd env nows (Some ord)) (List.map_filter id (about_to_take (sys_worker s)))\<rparr>) }"
| "worker_act Collect s = Some (s\<lparr>sys_outbound := snd (mpsc_pop (sys_outbound s))\<rparr>)"
| "worker_act (OtherPush ev) s = Some (s\<lparr>sys_outbound := snd (mpsc_push kOutboundCapacity ev (sys_outbound s))\<rparr>)"
| "worker_act RequestStop s = Some (s\<lparr>sys_worker := stop_request (sys_worker s)\<rparr>)"

fun worker_action_ok :: "WorkerAction \<Rightarrow> bool" where
  "worker_action_ok (Offer (Some ord)) \<longleftrightarrow> is_open ord \<and> in_i64 (qty (o_remaining ord))"
| "worker_action_ok (Turn env nows) \<longleftrightarrow> freed_price_intact env"
| "worker_action_ok _ \<longleftrightarrow> True"

fun submitted :: "EngineCommand \<Rightarrow> Order option" where
  "submitted (SubmitCmd env nows order) = order"
| "submitted _ = None"

abbreviation pending :: "WorkerSystem \<Rightarrow> Order option list" where
  "pending s \<equiv> spsc_contents kInboxCapacity (wk_inbox (sys_worker s))"

definition worker_inv :: "InstrumentId \<Rightarrow> WorkerSystem \<Rightarrow> bool" where
  "worker_inv i s \<longleftrightarrow> spsc_inv kInboxCapacity (wk_inbox (sys_worker s)) \<and>
     sys_accepted s = sys_taken s @ pending s \<and>
     (\<forall>ord. Some ord \<in> set (sys_accepted s) \<longrightarrow> is_open ord \<and> in_i64 (qty (o_remaining ord))) \<and>
     wk_pc (sys_worker s) \<noteq> NotStarted \<and>
     (wk_pc (sys_worker s) = Exited \<longrightarrow> \<not> wk_running (sys_worker s) \<or> None \<in> set (sys_taken s)) \<and>
     List.map_filter submitted (sys_commands s) = List.map_filter id (sys_taken s) \<and>
     (\<exists>e. wk_engine (sys_worker s) = Some e \<and> engine_ok e \<and>
        run_steps engine_step (sys_commands s) (register_instrument_id i new_Engine) = Some e)"

text \<open>A running worker, whatever its thread is doing.\<close>

definition worker_ok :: "Worker \<Rightarrow> bool" where
  "worker_ok w \<longleftrightarrow> spsc_inv kInboxCapacity (wk_inbox w) \<and> wk_running w \<and> wk_pc w \<noteq> NotStarted \<and>
     (\<forall>ord. Some ord \<in> set (spsc_contents kInboxCapacity (wk_inbox w)) \<longrightarrow> is_open ord \<and> in_i64 (qty (o_remaining ord))) \<and>
     (\<exists>e. wk_engine w = Some e \<and> engine_ok e)"

text \<open>The thread alone leads from one state to another; the turns it needs to exit once the flag is cleared, unless it is about to pop.\<close>

definition turns_lead :: "Env \<Rightarrow> (nat \<Rightarrow> int) \<Rightarrow> WorkerSystem \<Rightarrow> WorkerSystem \<Rightarrow> bool" where
  "turns_lead env nows s s' \<longleftrightarrow> (\<exists>n. run_steps worker_act (replicate n (Turn env nows)) s = Some s')"

fun turns_to_exit :: "WorkerPC \<Rightarrow> nat" where
  "turns_to_exit AtCheck = 1"
| "turns_to_exit (Emitting evs) = length evs + 2"
| "turns_to_exit _ = 0"

fun is_turn :: "WorkerAction \<Rightarrow> bool" where
  "is_turn (Turn env nows) \<longleftrightarrow> True"
| "is_turn _ \<longleftrightarrow> False"

definition sample_offer :: WorkerAction where
  "sample_offer = Offer (Some (limit_order 5 1 Buy 100 10))"

section \<open>Lemmas\<close>

lemma inbox_capacity: "capacity_ok kInboxCapacity"
  unfolding capacity_ok_def kInboxCapacity_def by (rule exI [of _ 12]) simp

lemma Worker_submit_spec:
  assumes "spsc_inv kInboxCapacity (wk_inbox w)"
  shows "\<exists>q. Worker_submit order w = (fst (Worker_submit order w), w\<lparr>wk_inbox := q\<rparr>) \<and> spsc_inv kInboxCapacity q \<and>
    spsc_contents kInboxCapacity q =
      spsc_contents kInboxCapacity (wk_inbox w) @ (if fst (Worker_submit order w) then [order] else [])"
proof -
  obtain ok q where p: "spsc_push kInboxCapacity order (wk_inbox w) = (ok, q)" by fastforce
  then show ?thesis
    using spsc.push_result [OF assms, of order] spsc.push_contents [OF assms, of order] spsc.push_inv [OF assms, of order]
    by (auto simp: Worker_submit_def)
qed

lemma worker_inv_start: "worker_inv i (worker_system i)"
proof -
  have "engine_ok (register_instrument_id i new_Engine)"
    using book_ok_new by (auto simp: engine_ok_def register_instrument_id_def new_Engine_def split: if_splits)
  then show ?thesis
    using spsc_new [OF inbox_capacity, of "None :: Order option"]
    by (simp add: worker_inv_def worker_system_def Worker_start_def new_Worker_def List.map_filter_simps)
qed

lemma offer_inv:
  assumes "worker_inv i s" "worker_action_ok (Offer order)"
  shows "\<exists>s'. worker_act (Offer order) s = Some s' \<and> worker_inv i s' \<and>
    sys_taken s' = sys_taken s \<and> wk_running (sys_worker s') = wk_running (sys_worker s) \<and> wk_pc (sys_worker s') = wk_pc (sys_worker s)"
proof -
  from assms(1) have "spsc_inv kInboxCapacity (wk_inbox (sys_worker s))" by (simp add: worker_inv_def)
  from Worker_submit_spec [OF this, of order] obtain ok q where q:
    "Worker_submit order (sys_worker s) = (ok, (sys_worker s)\<lparr>wk_inbox := q\<rparr>)" "spsc_inv kInboxCapacity q"
    "spsc_contents kInboxCapacity q = pending s @ (if ok then [order] else [])" by (metis fst_conv)
  with assms show ?thesis by (cases order) (auto simp: worker_inv_def)
qed

lemma stop_inv:
  assumes "worker_inv i s"
  shows "\<exists>s'. worker_act RequestStop s = Some s' \<and> worker_inv i s' \<and> sys_taken s' = sys_taken s \<and>
    \<not> wk_running (sys_worker s') \<and> wk_pc (sys_worker s') = wk_pc (sys_worker s)"
  using assms by (simp add: stop_request_def worker_inv_def)

lemma turn_inv:
  assumes inv: "worker_inv i s" and env: "freed_price_intact env"
  shows "\<exists>s'. worker_act (Turn env nows) s = Some s' \<and> worker_inv i s' \<and> sys_accepted s' = sys_accepted s \<and>
    wk_running (sys_worker s') = wk_running (sys_worker s) \<and>
    sys_taken s' = sys_taken s @ about_to_take (sys_worker s) \<and>
    (case wk_pc (sys_worker s) of
       AtCheck \<Rightarrow> wk_pc (sys_worker s') = (if wk_running (sys_worker s) then AtPop else Exited)
     | AtPop \<Rightarrow> (case pending s of [] \<Rightarrow> wk_pc (sys_worker s') = AtCheck | None # _ \<Rightarrow> wk_pc (sys_worker s') = Exited
               | Some ord # _ \<Rightarrow> \<exists>evs. wk_pc (sys_worker s') = Emitting evs)
     | Emitting evs \<Rightarrow> wk_pc (sys_worker s') = (if evs = [] then AtCheck else Emitting (tl evs))
     | pc \<Rightarrow> wk_pc (sys_worker s') = pc)"
proof (cases "wk_pc (sys_worker s) = AtPop")
  case False
  then show ?thesis using inv
    by (cases "wk_pc (sys_worker s)")
      (auto simp: Worker_turn_def about_to_take_def worker_inv_def List.map_filter_simps split: list.splits)
next
  case True
  let ?w = "sys_worker s"
  from inv have q: "spsc_inv kInboxCapacity (wk_inbox ?w)" by (simp add: worker_inv_def)
  obtain r q' where p: "spsc_pop kInboxCapacity (wk_inbox ?w) = (r, q')" by fastforce
  have q': "spsc_inv kInboxCapacity q'" "spsc_contents kInboxCapacity q' = tl (pending s)"
    "r = (case pending s of [] \<Rightarrow> None | v # _ \<Rightarrow> Some v)"
    using spsc.pop_inv [OF q] spsc.pop_contents [OF q] spsc.pop_result [OF q] p by simp_all
  obtain e where e: "wk_engine ?w = Some e" "engine_ok e"
    "run_steps engine_step (sys_commands s) (register_instrument_id i new_Engine) = Some e"
    using inv by (auto simp: worker_inv_def)
  show ?thesis
  proof (cases "pending s")
    case Nil
    with True p q' inv show ?thesis
      by (auto simp: Worker_turn_def about_to_take_def worker_inv_def List.map_filter_simps)
  next
    case (Cons a rest)
    show ?thesis
    proof (cases a)
      case None
      with True p q' inv Cons show ?thesis
        by (auto simp: Worker_turn_def about_to_take_def worker_inv_def List.map_filter_simps)
    next
      case (Some ord)
      with inv Cons have "is_open ord" "in_i64 (qty (o_remaining ord))" by (auto simp: worker_inv_def)
      with env have "engine_cmd_ok (SubmitCmd env nows (Some ord)) e" by simp
      from submit_engine_ok [OF e(2) this] obtain e' trace where
        sub: "submit env nows (Some ord) e = Some (e', trace)" "engine_ok e'" by blast
      have "run_steps engine_step (sys_commands s @ [SubmitCmd env nows (Some ord)]) (register_instrument_id i new_Engine) = Some e'"
        using e(3) sub(1) by (simp add: run_steps_append)
      with True p q' inv Cons Some e sub show ?thesis
        by (auto simp: Worker_turn_def about_to_take_def worker_inv_def List.map_filter_simps)
    qed
  qed
qed

lemma collect_inv: "worker_inv i s \<Longrightarrow> \<exists>s'. worker_act Collect s = Some s' \<and> worker_inv i s'"
  by (simp add: worker_inv_def)

lemma other_push_inv: "worker_inv i s \<Longrightarrow> \<exists>s'. worker_act (OtherPush ev) s = Some s' \<and> worker_inv i s'"
  by (simp add: worker_inv_def)

interpretation worker: guarded_machine worker_act "\<lambda>a s. worker_action_ok a" "worker_inv i" for i
proof
  fix s a assume "worker_inv i s" "worker_action_ok a"
  then show "\<exists>s'. worker_act a s = Some s' \<and> worker_inv i s'"
    using offer_inv turn_inv stop_inv collect_inv other_push_inv by (cases a) (fastforce simp del: worker_act.simps)+
qed

lemma worker_run_inv:
  assumes "list_all worker_action_ok acts"
  shows "\<exists>s. run_steps worker_act acts (worker_system i) = Some s \<and> worker_inv i s"
  by (rule worker.run_ok [OF worker_inv_start admissible_always]) (use assms in \<open>simp add: list_all_iff\<close>)


text \<open>Turns until the inbox is empty: the pushes of a submission, then one order after the other.\<close>

lemma map_filter_id_Some: "None \<notin> set xs \<Longrightarrow> map Some (List.map_filter id xs) = xs"
proof (induction xs)
  case (Cons a xs)
  then show ?case by (cases a) (auto simp: List.map_filter_simps)
qed (simp add: List.map_filter_simps)

lemma turns_lead_refl: "turns_lead env nows s s"
  unfolding turns_lead_def by (rule exI [of _ 0]) simp

lemma turns_lead_step:
  assumes "worker_act (Turn env nows) s = Some s1" "turns_lead env nows s1 s'"
  shows "turns_lead env nows s s'"
proof -
  obtain n where "run_steps worker_act (replicate n (Turn env nows)) s1 = Some s'" using assms(2) by (auto simp: turns_lead_def)
  with assms(1) have "run_steps worker_act (replicate (Suc n) (Turn env nows)) s = Some s'" by (simp del: worker_act.simps)
  then show ?thesis unfolding turns_lead_def by blast
qed

lemma turns_lead_trans:
  assumes "turns_lead env nows s s1" "turns_lead env nows s1 s'"
  shows "turns_lead env nows s s'"
proof -
  obtain n m where "run_steps worker_act (replicate n (Turn env nows)) s = Some s1"
    "run_steps worker_act (replicate m (Turn env nows)) s1 = Some s'" using assms by (auto simp: turns_lead_def)
  then have "run_steps worker_act (replicate (n + m) (Turn env nows)) s = Some s'" by (simp add: replicate_add run_steps_append)
  then show ?thesis unfolding turns_lead_def by blast
qed

lemma turns_emit:
  assumes "worker_inv i s" "freed_price_intact env" "wk_pc (sys_worker s) = Emitting evs"
  shows "\<exists>s'. turns_lead env nows s s' \<and> worker_inv i s' \<and> wk_pc (sys_worker s') = AtCheck \<and>
    wk_running (sys_worker s') = wk_running (sys_worker s) \<and> sys_accepted s' = sys_accepted s \<and> sys_taken s' = sys_taken s"
  using assms(1,3)
proof (induction evs arbitrary: s)
  case Nil
  have none: "about_to_take (sys_worker s) = []" using Nil.prems(2) by (simp add: about_to_take_def)
  from turn_inv [OF Nil.prems(1) assms(2), of nows] obtain s1 where
    "worker_act (Turn env nows) s = Some s1" "worker_inv i s1" "sys_accepted s1 = sys_accepted s"
    "wk_running (sys_worker s1) = wk_running (sys_worker s)" "sys_taken s1 = sys_taken s" "wk_pc (sys_worker s1) = AtCheck"
    unfolding Nil.prems(2) none WorkerPC.case by auto
  with turns_lead_step [OF _ turns_lead_refl] show ?case by blast
next
  case (Cons ev evs)
  have none: "about_to_take (sys_worker s) = []" using Cons.prems(2) by (simp add: about_to_take_def)
  from turn_inv [OF Cons.prems(1) assms(2), of nows] obtain s1 where
    s1: "worker_act (Turn env nows) s = Some s1" "worker_inv i s1" "sys_accepted s1 = sys_accepted s"
    "wk_running (sys_worker s1) = wk_running (sys_worker s)" "sys_taken s1 = sys_taken s" "wk_pc (sys_worker s1) = Emitting evs"
    unfolding Cons.prems(2) none WorkerPC.case by auto
  from Cons.IH [OF s1(2,6)] turns_lead_step [OF s1(1)] show ?case unfolding s1(3-5) by blast
qed

lemma turns_take:
  assumes "worker_inv i s" "freed_price_intact env" "None \<notin> set (sys_accepted s)" "wk_pc (sys_worker s) = AtPop"
  shows "\<exists>s'. turns_lead env nows s s' \<and> worker_inv i s' \<and> wk_pc (sys_worker s') = AtCheck \<and>
    wk_running (sys_worker s') = wk_running (sys_worker s) \<and> sys_accepted s' = sys_accepted s \<and>
    sys_taken s' = sys_taken s @ take 1 (pending s)"
proof -
  from turn_inv [OF assms(1,2), of nows] obtain s1 where
    s1: "worker_act (Turn env nows) s = Some s1" "worker_inv i s1" "sys_accepted s1 = sys_accepted s"
      "wk_running (sys_worker s1) = wk_running (sys_worker s)" "sys_taken s1 = sys_taken s @ take 1 (pending s)"
    and pc: "case pending s of [] \<Rightarrow> wk_pc (sys_worker s1) = AtCheck | None # _ \<Rightarrow> wk_pc (sys_worker s1) = Exited
               | Some ord # _ \<Rightarrow> \<exists>evs. wk_pc (sys_worker s1) = Emitting evs"
    unfolding assms(4) WorkerPC.case about_to_take_def by auto
  have "sys_accepted s = sys_taken s @ pending s" using assms(1) by (simp add: worker_inv_def)
  then have "None \<notin> set (pending s)" using assms(3) by simp
  with pc consider "wk_pc (sys_worker s1) = AtCheck" | evs where "wk_pc (sys_worker s1) = Emitting evs"
    by (auto split: list.splits option.splits)
  then show ?thesis
  proof cases
    case 1
    with s1 turns_lead_step [OF s1(1) turns_lead_refl] show ?thesis by blast
  next
    case 2
    from turns_emit [OF s1(2) assms(2) 2, of nows] turns_lead_step [OF s1(1)] show ?thesis unfolding s1(3-5) by blast
  qed
qed

lemma turns_drain_check:
  assumes "worker_inv i s" "freed_price_intact env" "wk_running (sys_worker s)" "None \<notin> set (sys_accepted s)"
    and "wk_pc (sys_worker s) = AtCheck"
  shows "\<exists>s'. turns_lead env nows s s' \<and> worker_inv i s' \<and> wk_pc (sys_worker s') = AtCheck \<and>
    sys_accepted s' = sys_accepted s \<and> sys_taken s' = sys_accepted s"
  using assms(1,3-5)
proof (induction "length (pending s)" arbitrary: s rule: less_induct)
  case less
  have split: "sys_accepted s = sys_taken s @ pending s" using less.prems(1) by (simp add: worker_inv_def)
  show ?case
  proof (cases "pending s")
    case Nil
    with less.prems split turns_lead_refl show ?thesis by (metis append_Nil2)
  next
    case (Cons a rest)
    have none: "about_to_take (sys_worker s) = []" using less.prems(4) by (simp add: about_to_take_def)
    from turn_inv [OF less.prems(1) assms(2), of nows] obtain s1 where
      s1: "worker_act (Turn env nows) s = Some s1" "worker_inv i s1" "sys_accepted s1 = sys_accepted s"
        "wk_running (sys_worker s1)" "sys_taken s1 = sys_taken s" "wk_pc (sys_worker s1) = AtPop"
      using less.prems(2) unfolding less.prems(4) none WorkerPC.case by auto
    have p1: "pending s1 = pending s" using s1(2,3,5) split by (simp add: worker_inv_def)
    from turns_take [OF s1(2) assms(2) _ s1(6), of nows] less.prems(3) obtain s2 where
      s2: "turns_lead env nows s1 s2" "worker_inv i s2" "wk_pc (sys_worker s2) = AtCheck" "wk_running (sys_worker s2)"
        "sys_accepted s2 = sys_accepted s" "sys_taken s2 = sys_taken s @ [a]"
      using s1(3-5) unfolding p1 Cons by auto
    have "pending s2 = rest" using s2(2,5,6) split Cons by (simp add: worker_inv_def)
    with less.hyps [of s2] s2(2-5) less.prems(3) Cons obtain s' where
      s': "turns_lead env nows s2 s'" "worker_inv i s'" "wk_pc (sys_worker s') = AtCheck"
        "sys_accepted s' = sys_accepted s" "sys_taken s' = sys_accepted s" by auto
    then show ?thesis using turns_lead_step [OF s1(1) turns_lead_trans [OF s2(1) s'(1)]] by blast
  qed
qed

lemma turns_drain:
  assumes "worker_inv i s" "freed_price_intact env" "wk_running (sys_worker s)" "None \<notin> set (sys_accepted s)"
  shows "\<exists>s'. turns_lead env nows s s' \<and> worker_inv i s' \<and> wk_pc (sys_worker s') = AtCheck \<and>
    sys_accepted s' = sys_accepted s \<and> sys_taken s' = sys_accepted s"
proof -
  have split: "sys_accepted s = sys_taken s @ pending s" using assms(1) by (simp add: worker_inv_def)
  consider "wk_pc (sys_worker s) = AtCheck" | "wk_pc (sys_worker s) = AtPop" | evs where "wk_pc (sys_worker s) = Emitting evs"
    using assms split by (cases "wk_pc (sys_worker s)") (auto simp: worker_inv_def)
  then obtain s1 where s1: "turns_lead env nows s s1" "worker_inv i s1" "wk_pc (sys_worker s1) = AtCheck"
    "wk_running (sys_worker s1)" "sys_accepted s1 = sys_accepted s"
  proof cases
    case 1
    with assms turns_lead_refl that show ?thesis by blast
  next
    case 2
    with turns_take [OF assms(1,2,4), of nows] assms(3) that show ?thesis by blast
  next
    case 3
    with turns_emit [OF assms(1,2), of evs nows] assms(3) that show ?thesis by blast
  qed
  with turns_drain_check [OF s1(2) assms(2) s1(4), of nows] assms(4) obtain s' where
    "turns_lead env nows s1 s'" "worker_inv i s'" "wk_pc (sys_worker s') = AtCheck"
    "sys_accepted s' = sys_accepted s" "sys_taken s' = sys_accepted s" by auto
  with turns_lead_trans [OF s1(1)] show ?thesis by blast
qed

text \<open>
  After a stop request that meets the thread elsewhere than before a pop, nothing more is taken, and the thread exits after a number of its
  own turns that is known, whatever is submitted, read or pushed by others in between.
\<close>

lemma stopped_step:
  assumes "worker_act a s = Some s'" "worker_inv i s" "worker_action_ok a" "\<not> wk_running (sys_worker s)" "wk_pc (sys_worker s) \<noteq> AtPop"
  shows "worker_inv i s' \<and> \<not> wk_running (sys_worker s') \<and> wk_pc (sys_worker s') \<noteq> AtPop \<and> sys_taken s' = sys_taken s \<and>
    turns_to_exit (wk_pc (sys_worker s')) = turns_to_exit (wk_pc (sys_worker s)) - (if is_turn a then 1 else 0)"
proof (cases a)
  case (Offer order)
  with offer_inv [OF assms(2), of order] assms show ?thesis by (auto simp del: worker_act.simps)
next
  case (Turn env nows)
  have none: "about_to_take (sys_worker s) = []" using assms(5) by (simp add: about_to_take_def)
  from assms(2) have "wk_pc (sys_worker s) \<noteq> NotStarted" by (simp add: worker_inv_def)
  with turn_inv [OF assms(2), of env nows] assms(1,3-5) none Turn show ?thesis
    by (cases "wk_pc (sys_worker s)") (auto simp del: worker_act.simps)
next
  case Collect
  with assms collect_inv [OF assms(2)] show ?thesis by auto
next
  case (OtherPush ev)
  with assms other_push_inv [OF assms(2), of ev] show ?thesis by auto
next
  case RequestStop
  with assms stop_inv [OF assms(2)] show ?thesis by auto
qed

lemma stopped_exits:
  assumes "run_steps worker_act acts s = Some s'" "worker_inv i s" "list_all worker_action_ok acts"
    "\<not> wk_running (sys_worker s)" "wk_pc (sys_worker s) \<noteq> AtPop"
  shows "sys_taken s' = sys_taken s \<and>
    (turns_to_exit (wk_pc (sys_worker s)) \<le> length (filter is_turn acts) \<longrightarrow> wk_pc (sys_worker s') = Exited)"
  using assms
proof (induction acts arbitrary: s)
  case Nil
  then have "wk_pc (sys_worker s) \<noteq> NotStarted" by (simp add: worker_inv_def)
  with Nil show ?case by (cases "wk_pc (sys_worker s)") auto
next
  case (Cons a acts)
  then obtain s1 where s1: "worker_act a s = Some s1" "run_steps worker_act acts s1 = Some s'" by (auto split: option.splits)
  from Cons.prems have ok: "worker_action_ok a" "list_all worker_action_ok acts" by simp_all
  note step = stopped_step [OF s1(1) Cons.prems(2) ok(1) Cons.prems(4,5)]
  then have "turns_to_exit (wk_pc (sys_worker s1)) \<le> length (filter is_turn acts)"
    if "turns_to_exit (wk_pc (sys_worker s)) \<le> length (filter is_turn (a # acts))" using that by (auto split: if_splits)
  with Cons.IH [OF s1(2) _ ok(2)] step show ?case by auto
qed

text \<open>An offered order, seen from the start.\<close>

lemma first_offer:
  "\<exists>s. run_steps worker_act [Offer (Some ord)] (worker_system i) = Some s \<and> wk_running (sys_worker s) \<and>
     wk_pc (sys_worker s) = AtCheck \<and> sys_accepted s = [Some ord] \<and> sys_taken s = []"
proof -
  obtain q where "spsc_push kInboxCapacity (Some ord) (new_SPSCQueue kInboxCapacity None) = (True, q)"
    using spsc.push_result [of kInboxCapacity "new_SPSCQueue kInboxCapacity None" "Some ord"]
      spsc_new [OF inbox_capacity, of "None :: Order option"]
    by (metis kInboxCapacity_def list.size(3) prod.collapse zero_less_numeral)
  then show ?thesis
    by (simp add: worker_system_def Worker_start_def new_Worker_def Worker_submit_def)
qed

text \<open>The join returns, from wherever the thread is.\<close>

lemma join_Exited [simp]: "wk_pc w = Exited \<Longrightarrow> join_worker env nows (w, out) = Some (w, out)"
  by (simp add: join_worker.simps)

lemma join_check: "wk_pc w = AtCheck \<Longrightarrow> \<not> wk_running w \<Longrightarrow> join_worker env nows (w, out) = Some (w\<lparr>wk_pc := Exited\<rparr>, out)"
  by (subst join_worker.simps) (simp add: Worker_turn_def)

lemma join_emitting:
  "wk_pc w = Emitting evs \<Longrightarrow> \<not> wk_running w \<Longrightarrow> \<exists>out'. join_worker env nows (w, out) = Some (w\<lparr>wk_pc := Exited\<rparr>, out')"
proof (induction evs arbitrary: w out)
  case Nil
  then have "join_worker env nows (w, out) = join_worker env nows (w\<lparr>wk_pc := AtCheck\<rparr>, out)"
    by (subst join_worker.simps) (simp add: Worker_turn_def)
  with Nil show ?case by (simp add: join_check)
next
  case (Cons ev evs)
  then have "join_worker env nows (w, out) = join_worker env nows (w\<lparr>wk_pc := Emitting evs\<rparr>, WorkerSink_on ev out)"
    by (subst join_worker.simps) (simp add: Worker_turn_def)
  with Cons.IH [of "w\<lparr>wk_pc := Emitting evs\<rparr>" "WorkerSink_on ev out"] Cons.prems show ?case by simp
qed

lemma join_returns:
  assumes q: "spsc_inv kInboxCapacity (wk_inbox w)" and run: "\<not> wk_running w" "wk_pc w \<noteq> NotStarted"
    and ords: "\<forall>ord. Some ord \<in> set (spsc_contents kInboxCapacity (wk_inbox w)) \<longrightarrow> is_open ord \<and> in_i64 (qty (o_remaining ord))"
    and e: "wk_engine w = Some e" "engine_ok e" and env: "freed_price_intact env"
  shows "\<exists>w' out'. join_worker env nows (w, out) = Some (w', out') \<and> wk_pc w' = Exited \<and> \<not> wk_running w'"
proof (cases "wk_pc w = AtPop")
  case False
  with run join_check [of w] join_emitting [of w] show ?thesis by (cases "wk_pc w") fastforce+
next
  case True
  obtain r q' where p: "spsc_pop kInboxCapacity (wk_inbox w) = (r, q')" by fastforce
  with spsc.pop_result [OF q] have r: "r = (case spsc_contents kInboxCapacity (wk_inbox w) of [] \<Rightarrow> None | v # _ \<Rightarrow> Some v)" by simp
  consider "r = None" | "r = Some None" | ord where "r = Some (Some ord)" by (cases r) auto
  then show ?thesis
  proof cases
    case 1
    with True p have "join_worker env nows (w, out) = join_worker env nows (w\<lparr>wk_inbox := q', wk_pc := AtCheck\<rparr>, out)"
      by (subst join_worker.simps) (simp add: Worker_turn_def)
    with run show ?thesis by (simp add: join_check)
  next
    case 2
    with True p have "join_worker env nows (w, out) = join_worker env nows (w\<lparr>wk_inbox := q', wk_pc := Exited\<rparr>, out)"
      by (subst join_worker.simps) (simp add: Worker_turn_def)
    with run show ?thesis by simp
  next
    case 3
    with r have "Some ord \<in> set (spsc_contents kInboxCapacity (wk_inbox w))" by (auto split: list.splits)
    with ords env have "engine_cmd_ok (SubmitCmd env nows (Some ord)) e" by simp
    from submit_engine_ok [OF e(2) this] obtain e' trace where "submit env nows (Some ord) e = Some (e', trace)" by blast
    with True p 3 e(1) have "join_worker env nows (w, out) =
        join_worker env nows (w\<lparr>wk_inbox := q', wk_engine := Some e', wk_pc := Emitting (map fst trace)\<rparr>, out)"
      by (subst join_worker.simps) (simp add: Worker_turn_def)
    with join_emitting [of "w\<lparr>wk_inbox := q', wk_engine := Some e', wk_pc := Emitting (map fst trace)\<rparr>" "map fst trace" env nows out] run
    show ?thesis by auto
  qed
qed

section \<open>Properties\<close>

text \<open>
  A worker executes what it accepts, in order. Let the submitted orders be open with quantities of 64 bits, and the reads of
  freed orders find them unchanged. Then every action of any interleaving of submissions, steps of the
  worker's thread, reads and pushes of others on the outbound queue and stop requests returns;
  what was accepted is what the thread has taken followed by what is still in the inbox, and the
  engine is in the state in which the taken orders, submitted one after the other, leave it.
\<close>

theorem worker_executes_in_order:
  assumes "list_all worker_action_ok acts"
  shows "\<exists>s e. run_steps worker_act acts (worker_system i) = Some s \<and> sys_accepted s = sys_taken s @ pending s \<and>
    wk_engine (sys_worker s) = Some e \<and> engine_ok e \<and>
    run_steps engine_step (sys_commands s) (register_instrument_id i new_Engine) = Some e \<and>
    List.map_filter submitted (sys_commands s) = List.map_filter id (sys_taken s)"
  using worker_run_inv [OF assms, of i] by (auto simp: worker_inv_def)

theorem worker_executes_in_order_witness:
  "\<exists>s e. run_steps worker_act [sample_offer, Turn demo_env (\<lambda>_. 1), Turn demo_env (\<lambda>_. 1), RequestStop] (worker_system 1) = Some s \<and>
     wk_engine (sys_worker s) = Some e \<and> engine_ok e"
  using worker_executes_in_order [of "[sample_offer, Turn demo_env (\<lambda>_. 1), Turn demo_env (\<lambda>_. 1), RequestStop]" 1]
  by (auto simp: sample_offer_def in_i64_def simp del: run_steps.simps)

text \<open>
  C30. Every accepted order is executed in the end. After any run as above in which the worker was not stopped and no null order was
  offered, the thread, left to itself, comes to a point where it is back at its check of \<open>running_\<close> with nothing left to push, has taken
  all accepted orders, and its engine is the one that results from submitting exactly these orders, in the order of their acceptance.
\<close>

theorem worker_drains:
  assumes "list_all worker_action_ok acts" "run_steps worker_act acts (worker_system i) = Some s"
    "wk_running (sys_worker s)" "None \<notin> set (sys_accepted s)" "freed_price_intact env"
  shows "\<exists>n s' e. run_steps worker_act (replicate n (Turn env nows)) s = Some s' \<and> wk_pc (sys_worker s') = AtCheck \<and>
    sys_taken s' = sys_accepted s \<and> map Some (List.map_filter submitted (sys_commands s')) = sys_accepted s \<and>
    wk_engine (sys_worker s') = Some e \<and> run_steps engine_step (sys_commands s') (register_instrument_id i new_Engine) = Some e"
proof -
  have "worker_inv i s" using worker_run_inv [OF assms(1), of i] assms(2) by auto
  from turns_drain [OF this assms(5,3,4), of nows] obtain n s' where
    s': "run_steps worker_act (replicate n (Turn env nows)) s = Some s'" "worker_inv i s'" "wk_pc (sys_worker s') = AtCheck"
      "sys_accepted s' = sys_accepted s" "sys_taken s' = sys_accepted s" by (auto simp: turns_lead_def)
  then have "List.map_filter submitted (sys_commands s') = List.map_filter id (sys_accepted s)" by (simp add: worker_inv_def)
  then have "map Some (List.map_filter submitted (sys_commands s')) = sys_accepted s" using map_filter_id_Some [OF assms(4)] by simp
  moreover obtain e where "wk_engine (sys_worker s') = Some e"
    "run_steps engine_step (sys_commands s') (register_instrument_id i new_Engine) = Some e"
    using s'(2) by (auto simp: worker_inv_def)
  ultimately show ?thesis using s' by blast
qed

theorem worker_drains_witness:
  "\<exists>s n s' e. run_steps worker_act [sample_offer] (worker_system 1) = Some s \<and>
     run_steps worker_act (replicate n (Turn demo_env (\<lambda>_. 1))) s = Some s' \<and>
     List.map_filter submitted (sys_commands s') = [limit_order 5 1 Buy 100 10] \<and>
     wk_engine (sys_worker s') = Some e \<and> run_steps engine_step (sys_commands s') (register_instrument_id 1 new_Engine) = Some e"
proof -
  from first_offer [of "limit_order 5 1 Buy 100 10" 1] obtain s where
    s: "run_steps worker_act [sample_offer] (worker_system 1) = Some s" "wk_running (sys_worker s)"
      "sys_accepted s = [Some (limit_order 5 1 Buy 100 10)]" unfolding sample_offer_def by blast
  have ok: "list_all worker_action_ok [sample_offer]" by (simp add: sample_offer_def in_i64_def)
  from worker_drains [OF ok s(1,2) _ demo_env_intact, of "\<lambda>_. 1"] s(1,3) show ?thesis by (auto simp del: run_steps.simps)
qed

text \<open>
  Stopping abandons what is pending. When a stop request finds the worker's thread before its check
  of \<open>running_\<close>, whatever happens afterwards, none of the orders in the inbox is executed.
\<close>

theorem stop_abandons_pending:
  assumes "list_all worker_action_ok (before @ after)" "run_steps worker_act before (worker_system i) = Some s"
    "wk_pc (sys_worker s) = AtCheck" "run_steps worker_act (RequestStop # after) s = Some s'"
  shows "sys_taken s' = sys_taken s"
proof -
  have inv: "worker_inv i s" using worker_run_inv [of before i] assms(1,2) by auto
  from stop_inv [OF inv] assms(3,4) obtain s1 where
    "worker_inv i s1" "sys_taken s1 = sys_taken s" "\<not> wk_running (sys_worker s1)" "wk_pc (sys_worker s1) = AtCheck"
    "run_steps worker_act after s1 = Some s'" by (auto simp del: worker_act.simps)
  with stopped_exits [of "after" s1 s' i] assms(1) show ?thesis by simp
qed

theorem stop_abandons_pending_witness:
  "\<exists>s s'. run_steps worker_act [sample_offer] (worker_system 1) = Some s \<and>
     run_steps worker_act [RequestStop, Turn demo_env (\<lambda>_. 1), Turn demo_env (\<lambda>_. 1)] s = Some s' \<and>
     sys_accepted s \<noteq> [] \<and> sys_taken s' = []"
proof -
  let ?after = "[Turn demo_env (\<lambda>_. 1), Turn demo_env (\<lambda>_. 1)]"
  from first_offer [of "limit_order 5 1 Buy 100 10" 1] obtain s where
    s: "run_steps worker_act [sample_offer] (worker_system 1) = Some s" "wk_pc (sys_worker s) = AtCheck"
      "sys_accepted s = [Some (limit_order 5 1 Buy 100 10)]" "sys_taken s = []" unfolding sample_offer_def by blast
  have ok: "list_all worker_action_ok ([sample_offer] @ ?after)" by (simp add: sample_offer_def in_i64_def)
  then have "list_all worker_action_ok ([sample_offer] @ RequestStop # ?after)" by simp
  from worker_run_inv [OF this, of 1] s(1) obtain s' where "run_steps worker_act (RequestStop # ?after) s = Some s'"
    unfolding run_steps_append [of worker_act "[sample_offer]"] by (auto simp del: run_steps.simps)
  with stop_abandons_pending [OF ok s(1,2), of s'] s show ?thesis by auto
qed

text \<open>
  Stopping returns. Wherever the thread is when a running worker is stopped, it exits, so the join returns; the engine is
  released only then.
\<close>

theorem worker_stop_returns:
  assumes "worker_ok w" "freed_price_intact env"
  shows "\<exists>w' out'. Worker_stop env nows (w, out) = Some (w', out') \<and> wk_pc w' = Exited \<and>
    wk_engine w' = None \<and> \<not> wk_running w'"
proof -
  obtain e where e: "wk_engine w = Some e" "engine_ok e" using assms(1) by (auto simp: worker_ok_def)
  let ?w = "stop_request w"
  have inv: "spsc_inv kInboxCapacity (wk_inbox ?w)" using assms(1) by (simp add: worker_ok_def stop_request_def)
  from Worker_submit_spec [OF inv, of None] obtain q where q: "snd (Worker_submit None ?w) = ?w\<lparr>wk_inbox := q\<rparr>"
    "spsc_inv kInboxCapacity q" "spsc_contents kInboxCapacity q = spsc_contents kInboxCapacity (wk_inbox w) @
      (if fst (Worker_submit None ?w) then [None] else [])" by (auto simp: prod_eq_iff stop_request_def)
  have "\<exists>w' out'. join_worker env nows (?w\<lparr>wk_inbox := q\<rparr>, out) = Some (w', out') \<and> wk_pc w' = Exited \<and> \<not> wk_running w'"
    by (rule join_returns [of _ e]) (use assms e q in \<open>auto simp: worker_ok_def stop_request_def split: if_splits\<close>)
  then show ?thesis using assms(1) q(1) by (auto simp: Worker_stop_def worker_ok_def)
qed

theorem worker_stop_returns_witness:
  "\<exists>w' out'. Worker_stop demo_env (\<lambda>_. 1) (Worker_start (new_Worker 1), []) = Some (w', out') \<and> wk_pc w' = Exited \<and>
     wk_engine w' = None \<and> \<not> wk_running w'"
proof (rule worker_stop_returns)
  show "worker_ok (Worker_start (new_Worker 1))"
    using worker_inv_start [of 1] spsc_new [OF inbox_capacity, of "None :: Order option"]
    by (simp add: worker_ok_def worker_inv_def worker_system_def Worker_start_def new_Worker_def)
qed simp

end
