(* ===== verification/Pool_Runs.thy ===== *)
theory Pool_Runs
  imports Worker_Pool "HOL-Library.Sublist"
begin

text \<open>
  The worker pool as a whole (\<^verbatim>\<open>WorkerPool\<close> in \<^verbatim>\<open>concurrency/worker_pool.hpp\<close> and
  \<^verbatim>\<open>worker_pool.cpp\<close>): many workers that run at the same time and share the outbound queue. The mutex of
  the pool makes \<open>get_or_create\<close> and \<open>submit\<close> one action each, the mutex of the queue each single push and pop; the
  threads of the workers take their steps in between, in any order, so that the events of two submissions may alternate
  in the outbound queue.
\<close>

section \<open>Interleaved execution of a pool\<close>

datatype PoolAction =
    CreateWorker InstrumentId
  | PoolOffer InstrumentId "Order option"
  | PoolTurn InstrumentId Env "nat \<Rightarrow> int"
  | ReadOutbound

text \<open>
  The history of a run: for each instrument what its worker accepted, took and ran; all calls of the workers' sinks,
  each with the instrument of its worker; what was read off the outbound queue; whether a push ever found the queue full.
\<close>

record PoolSystem =
  ps_pool :: WorkerPool
  ps_accepted :: "InstrumentId \<Rightarrow> Order option list"
  ps_taken :: "InstrumentId \<Rightarrow> Order option list"
  ps_commands :: "InstrumentId \<Rightarrow> EngineCommand list"
  ps_calls :: "(InstrumentId \<times> SinkEvent) list"
  ps_read :: "OutboundEvent list"
  ps_full :: bool

definition new_WorkerPool :: WorkerPool where
  "new_WorkerPool = \<lparr>pool_workers = Map.empty, pool_outbound = []\<rparr>"

definition pool_system :: PoolSystem where
  "pool_system = \<lparr>ps_pool = new_WorkerPool, ps_accepted = (\<lambda>_. []), ps_taken = (\<lambda>_. []), ps_commands = (\<lambda>_. []),
     ps_calls = [], ps_read = [], ps_full = False\<rparr>"

definition taken_commands :: "Env \<Rightarrow> (nat \<Rightarrow> int) \<Rightarrow> Worker \<Rightarrow> EngineCommand list" where
  "taken_commands env nows w = map (\<lambda>ord. SubmitCmd env nows (Some ord)) (List.map_filter id (about_to_take w))"

text \<open>The sink calls of a sequence of commands that run one after the other.\<close>

fun session_calls :: "EngineCommand list \<Rightarrow> Engine \<Rightarrow> SinkEvent list" where
  "session_calls [] e = []"
| "session_calls (c # cs) e =
     (case c of SubmitCmd env nows ord \<Rightarrow> (case submit env nows ord e of None \<Rightarrow> [] | Some (_, trace) \<Rightarrow> map fst trace) | _ \<Rightarrow> []) @
     (case engine_step c e of None \<Rightarrow> [] | Some e' \<Rightarrow> session_calls cs e')"

fun pool_act :: "PoolAction \<Rightarrow> PoolSystem \<Rightarrow> PoolSystem option" where
  "pool_act (CreateWorker i) s = Some (s\<lparr>ps_pool := get_or_create i (ps_pool s)\<rparr>)"
| "pool_act (PoolOffer i order) s =
     (let (ok, p) = pool_submit i order (ps_pool s)
      in Some (s\<lparr>ps_pool := p, ps_accepted := (ps_accepted s)(i := ps_accepted s i @ (if ok then [order] else []))\<rparr>))"
| "pool_act (PoolTurn i env nows) s =
     (case pool_workers (ps_pool s) i of
        None \<Rightarrow> Some s
      | Some w \<Rightarrow>
          do { (w', out) \<leftarrow> Worker_turn env nows (w, pool_outbound (ps_pool s));
               Some (s\<lparr>ps_pool := (ps_pool s)\<lparr>pool_workers := (pool_workers (ps_pool s))(i \<mapsto> w'), pool_outbound := out\<rparr>,
                 ps_taken := (ps_taken s)(i := ps_taken s i @ about_to_take w),
                 ps_commands := (ps_commands s)(i := ps_commands s i @ taken_commands env nows w),
                 ps_calls := ps_calls s @ map (Pair i) (take 1 (emitting (wk_pc w))),
                 ps_full := ps_full s \<or> emitting (wk_pc w) \<noteq> [] \<and> length (pool_outbound (ps_pool s)) \<ge> kOutboundCapacity\<rparr>) })"
| "pool_act ReadOutbound s =
     (let (r, out) = mpsc_pop (pool_outbound (ps_pool s))
      in Some (s\<lparr>ps_pool := (ps_pool s)\<lparr>pool_outbound := out\<rparr>, ps_read := ps_read s @ (case r of None \<Rightarrow> [] | Some ev \<Rightarrow> [ev])\<rparr>))"

fun pool_action_ok :: "PoolAction \<Rightarrow> bool" where
  "pool_action_ok (PoolOffer i (Some ord)) \<longleftrightarrow> is_open ord \<and> in_i64 (qty (o_remaining ord))"
| "pool_action_ok (PoolTurn i env nows) \<longleftrightarrow> freed_price_intact env"
| "pool_action_ok _ \<longleftrightarrow> True"

text \<open>One instrument of the pool as a system of its own.\<close>

definition lane :: "InstrumentId \<Rightarrow> Worker \<Rightarrow> PoolSystem \<Rightarrow> WorkerSystem" where
  "lane i w s = \<lparr>sys_worker = w, sys_outbound = pool_outbound (ps_pool s),
     sys_accepted = ps_accepted s i, sys_taken = ps_taken s i, sys_commands = ps_commands s i\<rparr>"

abbreviation start_engine :: "InstrumentId \<Rightarrow> Engine" where
  "start_engine i \<equiv> register_instrument_id i new_Engine"

abbreviation calls_of :: "InstrumentId \<Rightarrow> PoolSystem \<Rightarrow> SinkEvent list" where
  "calls_of i s \<equiv> map snd (filter (\<lambda>(j, _). j = i) (ps_calls s))"

abbreviation delivered_events :: "PoolSystem \<Rightarrow> OutboundEvent list" where
  "delivered_events s \<equiv> ps_read s @ pool_outbound (ps_pool s)"

definition lane_ok :: "PoolSystem \<Rightarrow> InstrumentId \<Rightarrow> bool" where
  "lane_ok s i \<longleftrightarrow>
     (case pool_workers (ps_pool s) i of
        None \<Rightarrow> ps_accepted s i = [] \<and> ps_taken s i = [] \<and> ps_commands s i = [] \<and> calls_of i s = []
      | Some w \<Rightarrow> worker_inv i (lane i w s) \<and> wk_running w \<and>
          calls_of i s @ emitting (wk_pc w) = session_calls (ps_commands s i) (start_engine i))"

definition outbound_ok :: "PoolSystem \<Rightarrow> bool" where
  "outbound_ok s \<longleftrightarrow> subseq (delivered_events s) (map (outbound_event \<circ> snd) (ps_calls s)) \<and>
     (\<not> ps_full s \<longrightarrow> delivered_events s = map (outbound_event \<circ> snd) (ps_calls s))"

definition pool_inv :: "PoolSystem \<Rightarrow> bool" where
  "pool_inv s \<longleftrightarrow> (\<forall>i. lane_ok s i) \<and> outbound_ok s"

section \<open>Lemmas\<close>

lemma session_calls_append:
  "run_steps engine_step cs e = Some e' \<Longrightarrow> session_calls (cs @ ds) e = session_calls cs e @ session_calls ds e'"
  by (induction cs arbitrary: e) (auto split: option.splits)

lemma worker_inv_outbound: "worker_inv i (s\<lparr>sys_outbound := out\<rparr>) \<longleftrightarrow> worker_inv i s"
  by (simp add: worker_inv_def)

lemma lane_simps [simp]:
  "sys_worker (lane i w s) = w" "sys_outbound (lane i w s) = pool_outbound (ps_pool s)" "sys_accepted (lane i w s) = ps_accepted s i"
  "sys_taken (lane i w s) = ps_taken s i" "sys_commands (lane i w s) = ps_commands s i"
  by (simp_all add: lane_def)

text \<open>
  What a step of a worker's thread hands to the outbound queue, and what it has still to hand over: the pending pushes lose the one
  that is made and gain those of the submission that is run.
\<close>

lemma Worker_turn_outbound:
  assumes "Worker_turn env nows (w, out) = Some (w', out')" "spsc_inv kInboxCapacity (wk_inbox w)"
  shows "out' = fold WorkerSink_on (take 1 (emitting (wk_pc w))) out \<and> wk_running w' = wk_running w \<and>
    take 1 (emitting (wk_pc w)) @ emitting (wk_pc w') = emitting (wk_pc w) @ session_calls (taken_commands env nows w) (the (wk_engine w))"
proof (cases "wk_pc w = AtPop")
  case True
  obtain r q where p: "spsc_pop kInboxCapacity (wk_inbox w) = (r, q)" by fastforce
  with spsc.pop_result [OF assms(2)] have r: "r = (case spsc_contents kInboxCapacity (wk_inbox w) of [] \<Rightarrow> None | v # _ \<Rightarrow> Some v)" by simp
  have c: "about_to_take w = take 1 (spsc_contents kInboxCapacity (wk_inbox w))" using True by (simp add: about_to_take_def)
  from assms(1) True p show ?thesis
    unfolding taken_commands_def c
    by (cases "spsc_contents kInboxCapacity (wk_inbox w)"; cases r)
      (auto simp: r Worker_turn_def List.map_filter_simps split: option.splits if_splits prod.splits elim!: bind_eq_Some_conv [THEN iffD1, elim_format])
next
  case False
  with assms(1) show ?thesis
    by (cases "wk_pc w") (auto simp: Worker_turn_def taken_commands_def about_to_take_def List.map_filter_simps split: list.splits)
qed

text \<open>The four kinds of actions.\<close>

lemma pool_inv_start: "pool_inv pool_system"
  by (simp add: pool_inv_def lane_ok_def outbound_ok_def pool_system_def new_WorkerPool_def)

lemma lane_ok_frame:
  assumes "lane_ok s j" "pool_workers (ps_pool s') j = pool_workers (ps_pool s) j" "ps_accepted s' j = ps_accepted s j"
    "ps_taken s' j = ps_taken s j" "ps_commands s' j = ps_commands s j" "calls_of j s' = calls_of j s"
  shows "lane_ok s' j"
proof -
  have "worker_inv j (lane j w s') \<longleftrightarrow> worker_inv j (lane j w s)" for w
    using assms(3-5) by (simp add: worker_inv_def)
  then show ?thesis using assms unfolding lane_ok_def by (simp split: option.splits)
qed

lemma pool_invI: "lane_ok s i \<Longrightarrow> (\<And>j. j \<noteq> i \<Longrightarrow> lane_ok s j) \<Longrightarrow> outbound_ok s \<Longrightarrow> pool_inv s"
  by (metis pool_inv_def)

text \<open>A full queue drops what is pushed; nothing else is lost and nothing is reordered.\<close>

lemma outbound_ok_push:
  assumes "outbound_ok s" "ps_calls s' = ps_calls s @ [(i, ev)]" "ps_read s' = ps_read s"
    "pool_outbound (ps_pool s') = WorkerSink_on ev (pool_outbound (ps_pool s))"
    "ps_full s' \<longleftrightarrow> ps_full s \<or> length (pool_outbound (ps_pool s)) \<ge> kOutboundCapacity"
  shows "outbound_ok s'"
proof (cases "length (pool_outbound (ps_pool s)) < kOutboundCapacity")
  case True
  then have d: "delivered_events s' = delivered_events s @ [outbound_event ev]" using assms(3,4) by (simp add: WorkerSink_on_def mpsc_push_def)
  have "subseq (delivered_events s @ [outbound_event ev]) (map (outbound_event \<circ> snd) (ps_calls s) @ [outbound_event ev])"
    using assms(1) unfolding outbound_ok_def by (blast intro: list_emb_append_mono)
  with assms True show ?thesis unfolding outbound_ok_def d by (simp add: assms(2))
next
  case False
  then have "delivered_events s' = delivered_events s" using assms(3,4) by (simp add: WorkerSink_on_def mpsc_push_def)
  with assms False show ?thesis by (auto simp: outbound_ok_def intro: subseq_order.trans list_emb_append2)
qed

lemma outbound_ok_turn:
  assumes "outbound_ok s" "ps_calls s' = ps_calls s @ map (Pair i) (take 1 evs)" "ps_read s' = ps_read s"
    "pool_outbound (ps_pool s') = fold WorkerSink_on (take 1 evs) (pool_outbound (ps_pool s))"
    "ps_full s' \<longleftrightarrow> ps_full s \<or> evs \<noteq> [] \<and> length (pool_outbound (ps_pool s)) \<ge> kOutboundCapacity"
  shows "outbound_ok s'"
proof (cases evs)
  case Nil
  with assms show ?thesis by (simp add: outbound_ok_def)
next
  case (Cons ev rest)
  with assms show ?thesis by (intro outbound_ok_push [of s s' i ev]) simp_all
qed

lemma create_inv:
  assumes "pool_inv s"
  shows "\<exists>s'. pool_act (CreateWorker i) s = Some s' \<and> pool_inv s'"
proof (cases "pool_workers (ps_pool s) i")
  case None
  let ?s = "s\<lparr>ps_pool := get_or_create i (ps_pool s)\<rparr>" and ?w = "Worker_start (new_Worker i)"
  have p: "get_or_create i (ps_pool s) = (ps_pool s)\<lparr>pool_workers := (pool_workers (ps_pool s))(i \<mapsto> ?w)\<rparr>"
    using None by (simp add: get_or_create_def)
  have i: "calls_of i s = []" "ps_accepted s i = []" "ps_taken s i = []" "ps_commands s i = []"
    using assms None by (auto simp: pool_inv_def lane_ok_def dest: spec [of _ i])
  have "worker_inv i (lane i ?w ?s)" using worker_inv_start [of i] i(2-4) by (simp add: worker_inv_def worker_system_def)
  moreover have "wk_running ?w" "emitting (wk_pc ?w) = []" by (simp_all add: Worker_start_def new_Worker_def)
  ultimately have "lane_ok ?s i" using i(1,4) by (simp add: lane_ok_def p None)
  moreover have "lane_ok ?s j" if "j \<noteq> i" for j
    by (rule lane_ok_frame [of s j]) (use assms that in \<open>simp_all add: pool_inv_def p\<close>)
  moreover have "outbound_ok ?s" using assms by (simp add: pool_inv_def outbound_ok_def p)
  ultimately have "pool_inv ?s" by (rule pool_invI)
  then show ?thesis by simp
qed (use assms in \<open>simp add: get_or_create_def\<close>)

lemma pool_offer_inv:
  assumes "pool_inv s" "pool_action_ok (PoolOffer i order)"
  shows "\<exists>s'. pool_act (PoolOffer i order) s = Some s' \<and> pool_inv s'"
proof (cases "pool_workers (ps_pool s) i")
  case None
  then show ?thesis using assms(1) by (simp add: pool_submit_def)
next
  case (Some w)
  then have w: "worker_inv i (lane i w s)" "wk_running w" "lane_ok s i"
    using assms(1) by (auto simp: pool_inv_def lane_ok_def dest: spec [of _ i])
  have "worker_action_ok (Offer order)" using assms(2) by (cases order) simp_all
  from offer_inv [OF w(1) this] obtain ok w' where o: "Worker_submit order w = (ok, w')" "wk_running w' = wk_running w" "wk_pc w' = wk_pc w"
    "worker_inv i ((lane i w s)\<lparr>sys_worker := w', sys_accepted := ps_accepted s i @ (if ok then [order] else [])\<rparr>)"
    by (auto split: prod.splits)
  let ?p = "(ps_pool s)\<lparr>pool_workers := (pool_workers (ps_pool s))(i \<mapsto> w')\<rparr>"
  let ?s = "s\<lparr>ps_pool := ?p, ps_accepted := (ps_accepted s)(i := ps_accepted s i @ (if ok then [order] else []))\<rparr>"
  have act: "pool_act (PoolOffer i order) s = Some ?s" by (simp add: pool_submit_def Some o(1))
  have "lane_ok ?s i" using w o(2-4) by (simp add: lane_ok_def Some lane_def)
  moreover have "lane_ok ?s j" if "j \<noteq> i" for j
    by (rule lane_ok_frame [of s j]) (use assms that in \<open>simp_all add: pool_inv_def\<close>)
  moreover have "outbound_ok ?s" using assms by (simp add: pool_inv_def outbound_ok_def)
  ultimately have "pool_inv ?s" by (rule pool_invI)
  with act show ?thesis by blast
qed

lemma pool_turn_inv:
  assumes inv: "pool_inv s" and env: "freed_price_intact env"
  shows "\<exists>s'. pool_act (PoolTurn i env nows) s = Some s' \<and> pool_inv s'"
proof (cases "pool_workers (ps_pool s) i")
  case None
  then show ?thesis using inv by simp
next
  case (Some w)
  then have w: "worker_inv i (lane i w s)" "wk_running w" "lane_ok s i"
    using inv by (auto simp: pool_inv_def lane_ok_def dest: spec [of _ i])
  let ?out = "pool_outbound (ps_pool s)" and ?cs = "taken_commands env nows w" and ?evs = "emitting (wk_pc w)"
  from turn_inv [OF w(1) env, of nows] obtain w' out where t: "Worker_turn env nows (w, ?out) = Some (w', out)"
    "worker_inv i \<lparr>sys_worker = w', sys_outbound = out, sys_accepted = ps_accepted s i, sys_taken = ps_taken s i @ about_to_take w,
       sys_commands = ps_commands s i @ ?cs\<rparr>"
    by (auto simp: lane_def taken_commands_def bind_eq_Some_conv)
  have q: "spsc_inv kInboxCapacity (wk_inbox w)" using w(1) by (simp add: worker_inv_def)
  note out = Worker_turn_outbound [OF t(1) q]
  let ?s = "s\<lparr>ps_pool := (ps_pool s)\<lparr>pool_workers := (pool_workers (ps_pool s))(i \<mapsto> w'), pool_outbound := out\<rparr>,
    ps_taken := (ps_taken s)(i := ps_taken s i @ about_to_take w), ps_commands := (ps_commands s)(i := ps_commands s i @ ?cs),
    ps_calls := ps_calls s @ map (Pair i) (take 1 ?evs), ps_full := ps_full s \<or> ?evs \<noteq> [] \<and> length ?out \<ge> kOutboundCapacity\<rparr>"
  have act: "pool_act (PoolTurn i env nows) s = Some ?s" by (simp add: Some t(1))
  obtain e where e: "wk_engine w = Some e" "run_steps engine_step (ps_commands s i) (start_engine i) = Some e"
    using w(1) by (auto simp: worker_inv_def)
  have "calls_of i ?s @ emitting (wk_pc w') = calls_of i s @ ?evs @ session_calls ?cs e"
    using out e(1) by (simp add: filter_map comp_def)
  also have "\<dots> = session_calls (ps_commands s i @ ?cs) (start_engine i)"
    using w(3) Some session_calls_append [OF e(2), of ?cs] by (simp add: lane_ok_def)
  finally have "lane_ok ?s i" using t(2) w(2) out by (simp add: lane_ok_def lane_def del: filter_append)
  moreover have "lane_ok ?s j" if "j \<noteq> i" for j
    by (rule lane_ok_frame [of s j]) (use inv that in \<open>simp_all add: pool_inv_def filter_map comp_def\<close>)
  moreover have "outbound_ok ?s" by (rule outbound_ok_turn [of s _ i ?evs]) (use inv out in \<open>simp_all add: pool_inv_def\<close>)
  ultimately have "pool_inv ?s" by (rule pool_invI)
  with act show ?thesis by blast
qed

lemma read_inv:
  assumes "pool_inv s"
  shows "\<exists>s'. pool_act ReadOutbound s = Some s' \<and> pool_inv s'"
proof -
  obtain r out where p: "mpsc_pop (pool_outbound (ps_pool s)) = (r, out)" by fastforce
  let ?s = "s\<lparr>ps_pool := (ps_pool s)\<lparr>pool_outbound := out\<rparr>, ps_read := ps_read s @ (case r of None \<Rightarrow> [] | Some ev \<Rightarrow> [ev])\<rparr>"
  have "(case r of None \<Rightarrow> [] | Some ev \<Rightarrow> [ev]) @ out = pool_outbound (ps_pool s)"
    using p by (auto simp: mpsc_pop_def split: if_splits)
  then have "delivered_events ?s = delivered_events s" by simp
  then have "outbound_ok ?s" using assms by (simp add: pool_inv_def outbound_ok_def)
  moreover have "lane_ok ?s j" for j by (rule lane_ok_frame [of s j]) (use assms in \<open>simp_all add: pool_inv_def\<close>)
  ultimately have "pool_inv ?s" using pool_invI by blast
  then show ?thesis by (simp add: p)
qed

interpretation pool: guarded_machine pool_act "\<lambda>a s. pool_action_ok a" pool_inv
proof
  fix s a assume "pool_inv s" "pool_action_ok a"
  then show "\<exists>s'. pool_act a s = Some s' \<and> pool_inv s'"
    using create_inv pool_offer_inv pool_turn_inv read_inv by (cases a) (auto simp del: pool_act.simps)
qed

lemma pool_run_inv:
  assumes "list_all pool_action_ok acts"
  shows "\<exists>s. run_steps pool_act acts pool_system = Some s \<and> pool_inv s"
  by (rule pool.run_ok [OF pool_inv_start admissible_always]) (use assms in \<open>simp add: list_all_iff\<close>)

text \<open>Every worker of a pool that was driven so can be stopped, one after the other, whatever its thread is doing.\<close>

lemma lane_worker_ok: "worker_inv i (lane i w s) \<Longrightarrow> wk_running w \<Longrightarrow> worker_ok w"
  by (auto simp: worker_inv_def worker_ok_def)

lemma stop_workers_return:
  assumes "\<forall>i w. pool_workers p i = Some w \<longrightarrow> i \<in> set is \<longrightarrow> worker_ok w" "\<forall>i. freed_price_intact (env i)" "distinct is"
  shows "\<exists>p'. stop_workers env nows is p = Some p' \<and> (\<forall>i w. pool_workers p' i = Some w \<longrightarrow> i \<in> set is \<longrightarrow> wk_pc w = Exited \<and> wk_engine w = None) \<and>
    (\<forall>i. i \<notin> set is \<longrightarrow> pool_workers p' i = pool_workers p i)"
  using assms(1,3)
proof (induction "is" arbitrary: p)
  case (Cons i "is")
  show ?case
  proof (cases "pool_workers p i")
    case None
    from Cons.IH [of p] Cons.prems obtain p' where p': "stop_workers env nows is p = Some p'"
      "\<forall>j w. pool_workers p' j = Some w \<longrightarrow> j \<in> set is \<longrightarrow> wk_pc w = Exited \<and> wk_engine w = None"
      "\<forall>j. j \<notin> set is \<longrightarrow> pool_workers p' j = pool_workers p j" by auto
    moreover have "pool_workers p' i = None" using p'(3) None Cons.prems(2) by simp
    ultimately show ?thesis using None by auto
  next
    case (Some w)
    with Cons.prems(1) have "worker_ok w" by auto
    from worker_stop_returns [OF this assms(2) [rule_format, of i], of "nows i" "pool_outbound p"] obtain w' out where
      w': "Worker_stop (env i) (nows i) (w, pool_outbound p) = Some (w', out)" "wk_pc w' = Exited" "wk_engine w' = None" by blast
    let ?p = "p\<lparr>pool_workers := (pool_workers p)(i \<mapsto> w'), pool_outbound := out\<rparr>"
    have "\<forall>j w. pool_workers ?p j = Some w \<longrightarrow> j \<in> set is \<longrightarrow> worker_ok w" using Cons.prems by auto
    from Cons.IH [OF this] Cons.prems(2) obtain p' where p': "stop_workers env nows is ?p = Some p'"
      "\<forall>j w. pool_workers p' j = Some w \<longrightarrow> j \<in> set is \<longrightarrow> wk_pc w = Exited \<and> wk_engine w = None"
      "\<forall>j. j \<notin> set is \<longrightarrow> pool_workers p' j = pool_workers ?p j" by auto
    moreover have "pool_workers p' i = Some w'" using p'(3) Cons.prems(2) by simp
    ultimately show ?thesis using Some w' by auto
  qed
qed simp

section \<open>Properties\<close>

text \<open>
  C7. The instruments of a pool do not disturb each other. Let the submitted orders be open with quantities of 64 bits, and the
  reads of freed orders that full fills make find the order unchanged (\<^const>\<open>freed_price_intact\<close>). Then, however the creation of workers,
  the submissions, the steps of all threads (each check, pop and single push a step of its own) and the reads of the outbound queue
  interleave, every action returns; each worker
  has taken what it accepted, in order, up to what its inbox still holds; its engine is where those orders alone,
  submitted one after the other, lead; and its sink was called with exactly the events of those submissions, up to those that the running
  submission has still to push. What leaves the outbound queue are the events of all sinks in the order of the calls: some may be missing,
  none is invented, doubled or moved, and none is missing unless a push found the queue full.
\<close>

theorem pool_isolates_instruments:
  assumes "list_all pool_action_ok acts"
  shows "\<exists>s. run_steps pool_act acts pool_system = Some s \<and>
    (\<forall>i w. pool_workers (ps_pool s) i = Some w \<longrightarrow>
      ps_accepted s i = ps_taken s i @ spsc_contents kInboxCapacity (wk_inbox w) \<and>
      List.map_filter submitted (ps_commands s i) = List.map_filter id (ps_taken s i) \<and>
      (\<exists>e. wk_engine w = Some e \<and> engine_ok e \<and> run_steps engine_step (ps_commands s i) (start_engine i) = Some e) \<and>
      calls_of i s @ emitting (wk_pc w) = session_calls (ps_commands s i) (start_engine i)) \<and>
    subseq (delivered_events s) (map (outbound_event \<circ> snd) (ps_calls s)) \<and>
    (\<not> ps_full s \<longrightarrow> delivered_events s = map (outbound_event \<circ> snd) (ps_calls s))"
proof -
  obtain s where s: "run_steps pool_act acts pool_system = Some s" "pool_inv s" using pool_run_inv [OF assms] by blast
  then have lanes: "\<forall>i. lane_ok s i" by (simp add: pool_inv_def)
  have w: "worker_inv i (lane i w s)" "calls_of i s @ emitting (wk_pc w) = session_calls (ps_commands s i) (start_engine i)"
    if "pool_workers (ps_pool s) i = Some w" for i w
    using that lanes [rule_format, of i] by (simp_all add: lane_ok_def)
  have "ps_accepted s i = ps_taken s i @ spsc_contents kInboxCapacity (wk_inbox w) \<and>
      List.map_filter submitted (ps_commands s i) = List.map_filter id (ps_taken s i) \<and>
      (\<exists>e. wk_engine w = Some e \<and> engine_ok e \<and> run_steps engine_step (ps_commands s i) (start_engine i) = Some e)"
    if "pool_workers (ps_pool s) i = Some w" for i w
    using w(1) [OF that] by (simp add: worker_inv_def)
  with w(2) s show ?thesis by (auto simp: pool_inv_def outbound_ok_def)
qed

theorem pool_isolates_instruments_witness:
  "\<exists>s. run_steps pool_act [CreateWorker 1, CreateWorker 2, PoolOffer 1 (Some (limit_order 5 1 Buy 100 10)), PoolTurn 2 demo_env (\<lambda>_. 1),
       PoolTurn 1 demo_env (\<lambda>_. 1), PoolTurn 1 demo_env (\<lambda>_. 1), ReadOutbound] pool_system = Some s \<and>
     subseq (delivered_events s) (map (outbound_event \<circ> snd) (ps_calls s))"
  using pool_isolates_instruments [of "[CreateWorker 1, CreateWorker 2, PoolOffer 1 (Some (limit_order 5 1 Buy 100 10)), PoolTurn 2 demo_env (\<lambda>_. 1),
       PoolTurn 1 demo_env (\<lambda>_. 1), PoolTurn 1 demo_env (\<lambda>_. 1), ReadOutbound]"]
  by (auto simp: in_i64_def simp del: run_steps.simps)

text \<open>
  C31. Shutting a pool down returns. After any such run the pool stops its workers one after the other, in whatever order the
  table has them: every thread has exited and every engine is released, and no worker is left.
\<close>

theorem pool_shutdown_returns:
  assumes "list_all pool_action_ok acts" "run_steps pool_act acts pool_system = Some s"
    "\<forall>i. freed_price_intact (env i)" "distinct order" "set order = dom (pool_workers (ps_pool s))"
  shows "\<exists>p p'. stop_workers env nows order (ps_pool s) = Some p \<and>
    (\<forall>i w. pool_workers p i = Some w \<longrightarrow> wk_pc w = Exited \<and> wk_engine w = None) \<and>
    pool_shutdown env nows order (ps_pool s) = Some p' \<and> worker_count p' = 0"
proof -
  have "pool_inv s" using pool_run_inv [OF assms(1)] assms(2) by simp
  then have "worker_ok w" if "pool_workers (ps_pool s) i = Some w" for i w
    using that lane_worker_ok [of i w s] by (auto simp: pool_inv_def lane_ok_def dest: spec [of _ i])
  then obtain p where p: "stop_workers env nows order (ps_pool s) = Some p"
    "\<forall>i w. pool_workers p i = Some w \<longrightarrow> i \<in> set order \<longrightarrow> wk_pc w = Exited \<and> wk_engine w = None"
    "\<forall>i. i \<notin> set order \<longrightarrow> pool_workers p i = pool_workers (ps_pool s) i"
    using stop_workers_return [of "ps_pool s" order env nows] assms(3,4) by blast
  have "i \<in> set order" if "pool_workers p i = Some w" for i w
    using p(3) that assms(5) by (metis domI)
  with p show ?thesis by (simp add: pool_shutdown_def worker_count_def)
qed

theorem pool_shutdown_returns_witness:
  "\<exists>s p'. run_steps pool_act [CreateWorker 1] pool_system = Some s \<and>
     pool_shutdown (\<lambda>_. demo_env) (\<lambda>_ _. 1) [1] (ps_pool s) = Some p' \<and> worker_count p' = 0"
proof -
  have "\<exists>s. run_steps pool_act [CreateWorker 1] pool_system = Some s \<and> set [1] = dom (pool_workers (ps_pool s))"
    by (auto simp: pool_system_def new_WorkerPool_def get_or_create_def)
  then obtain s where s: "run_steps pool_act [CreateWorker 1] pool_system = Some s" "set [1] = dom (pool_workers (ps_pool s))" by blast
  from pool_shutdown_returns [OF _ s(1), of "\<lambda>_. demo_env" "[1]" "\<lambda>_ _. 1"] s show ?thesis by auto
qed

end
