(* ===== verification/Web_Socket.thy ===== *)
theory Web_Socket
  imports Protocol "HOL-Library.Sublist"
begin

text \<open>
  The wire layer of the WebSocket server (\<^verbatim>\<open>networking/ws_server.cpp\<close>): Base64, the opening
  handshake, the frame codec and the loop of \<^verbatim>\<open>serve_peer\<close> over the received bytes. Byte strings are
  strings; the SHA-1 digest is a parameter, as it is a function of the OpenSSL library.
\<close>

unbundle bit_operations_syntax

section \<open>Base64\<close>

definition base64_tbl :: string where
  "base64_tbl = ''ABCDEFGHIJKLMNOPQRSTUVWXYZabcdefghijklmnopqrstuvwxyz0123456789+/''"

definition base64_value :: "nat \<Rightarrow> nat \<Rightarrow> nat \<Rightarrow> nat" where
  "base64_value a b c = (push_bit 16 a OR push_bit 8 b) OR c"

definition base64_char :: "nat \<Rightarrow> nat \<Rightarrow> char" where
  "base64_char v shift = base64_tbl ! (drop_bit shift v AND 0x3F)"

fun base64_encode :: "string \<Rightarrow> string" where
  "base64_encode [] = []"
| "base64_encode [a] =
     (let v = base64_value (of_char a) 0 0 in [base64_char v 18, base64_char v 12, CHR ''='', CHR ''=''])"
| "base64_encode [a, b] =
     (let v = base64_value (of_char a) (of_char b) 0
      in [base64_char v 18, base64_char v 12, base64_char v 6, CHR ''=''])"
| "base64_encode (a # b # c # rest) =
     (let v = base64_value (of_char a) (of_char b) (of_char c)
      in [base64_char v 18, base64_char v 12, base64_char v 6, base64_char v 0] @ base64_encode rest)"

section \<open>The opening handshake\<close>

definition kWsMagic :: string where "kWsMagic = ''258EAFA5-E914-47DA-95CA-C5AB0DC85B11''"

definition sha1_b64 :: "(string \<Rightarrow> string) \<Rightarrow> string \<Rightarrow> string" where
  "sha1_b64 sha1 s = base64_encode (sha1 s)"

text \<open>\<^verbatim>\<open>std::string::find\<close>: the first position at which a text occurs.\<close>

fun str_find :: "string \<Rightarrow> string \<Rightarrow> nat option" where
  "str_find needle [] = (if needle = [] then Some 0 else None)"
| "str_find needle (c # s) = (if prefix needle (c # s) then Some 0 else map_option Suc (str_find needle s))"

definition blank :: "char \<Rightarrow> bool" where "blank c \<longleftrightarrow> c = CHR '' '' \<or> c = CHR 0x09"

definition trim_end :: "string \<Rightarrow> string" where
  "trim_end s = rev (dropWhile (\<lambda>c. c = CHR 0x0D \<or> blank c) (rev s))"

definition find_header :: "string \<Rightarrow> string \<Rightarrow> string" where
  "find_header req name =
     (let needle = map tolower name; hay = map tolower req
      in case str_find needle hay of
           None \<Rightarrow> ''''
         | Some p0 \<Rightarrow>
             (let p1 = p0 + length needle
              in if length hay \<le> p1 \<or> hay ! p1 \<noteq> CHR '':'' then ''''
                 else let value = dropWhile blank (drop (p1 + 1) req)
                      in trim_end (takeWhile (\<lambda>c. c \<noteq> CHR 0x0A) value)))"

definition parse_request_line :: "string \<Rightarrow> (string \<times> string \<times> string) option" where
  "parse_request_line req =
     (case str_find [CHR 0x0A] req of
        None \<Rightarrow> None
      | Some eol \<Rightarrow>
          (let full = take eol req;
               line = (if full \<noteq> [] \<and> last full = CHR 0x0D then butlast full else full)
           in case str_find '' '' line of
                None \<Rightarrow> None
              | Some p1 \<Rightarrow>
                  (case str_find '' '' (drop (p1 + 1) line) of
                     None \<Rightarrow> None
                   | Some k \<Rightarrow> Some (take p1 line, take k (drop (p1 + 1) line), drop (p1 + 1 + k + 1) line))))"

definition crlf :: string where "crlf = [CHR 0x0D, CHR 0x0A]"

text \<open>
  The reading of the request: chunks are appended until the blank line, with a limit on the size.
  The rest of the chunks is what \<^verbatim>\<open>recv\<close> has not delivered yet.
\<close>

fun read_upgrade :: "string \<Rightarrow> string list \<Rightarrow> (string \<times> string list) option" where
  "read_upgrade req chunks =
     (if str_find (crlf @ crlf) req \<noteq> None then Some (req, chunks)
      else case chunks of
        [] \<Rightarrow> None
      | c # cs \<Rightarrow> if length (req @ c) > 16 * 1024 then None else read_upgrade (req @ c) cs)"

declare read_upgrade.simps [simp del]

datatype Handshake = Drop | Refuse string | Upgrade string

definition handshake :: "(string \<Rightarrow> string) \<Rightarrow> string \<Rightarrow> Handshake" where
  "handshake sha1 req =
     (case parse_request_line req of
        None \<Rightarrow> Drop
      | Some (method, path, version) \<Rightarrow>
          if \<not> ieq method ''GET'' then Refuse (''HTTP/1.1 405 Method Not Allowed'' @ crlf @ crlf)
          else let key = find_header req ''Sec-WebSocket-Key''
               in if key = [] then Refuse (''HTTP/1.1 400 Bad Request'' @ crlf @ crlf)
                  else Upgrade (''HTTP/1.1 101 Switching Protocols'' @ crlf @ ''Upgrade: websocket'' @ crlf @
                    ''Connection: Upgrade'' @ crlf @
                    ''Sec-WebSocket-Accept: '' @ sha1_b64 sha1 (key @ kWsMagic) @ crlf @ crlf))"

section \<open>Frames\<close>

definition ws_byte :: "nat \<Rightarrow> char" where "ws_byte n = char_of (n AND 0xFF)"

definition ws_encode_server_frame :: "bool \<Rightarrow> string \<Rightarrow> string" where
  "ws_encode_server_frame text payload =
     (let len = length payload
      in [ws_byte (0x80 OR (if text then 0x1 else 0x2))] @
         (if len \<le> 125 then [ws_byte len]
          else if len \<le> 0xFFFF then [ws_byte 126, ws_byte (drop_bit 8 len), ws_byte len]
          else ws_byte 127 # map (\<lambda>i. ws_byte (drop_bit (i * 8) len)) (rev [0..<8])) @
         payload)"

text \<open>A frame whose first byte is replaced: control frames are made from data frames.\<close>

definition with_opcode :: "nat \<Rightarrow> string \<Rightarrow> string" where
  "with_opcode opc frame = frame[0 := ws_byte (0x80 OR opc)]"

definition pong_frame :: "string \<Rightarrow> string" where
  "pong_frame payload = with_opcode 0xA (ws_encode_server_frame False payload)"

definition close_frame :: "nat \<Rightarrow> string" where
  "close_frame code = with_opcode 0x8 (ws_encode_server_frame False [ws_byte (drop_bit 8 code), ws_byte code])"

text \<open>
  Taking the next frame off the received bytes: more bytes are needed; or an opcode, a payload and
  the rest; or the length field makes the 64-bit size computation wrap, so that a string of more
  than the possible size is constructed and the exception ends the program.
\<close>

datatype NextFrame = NeedMore | NextFrame nat string string | LengthError

definition be_value :: "string \<Rightarrow> nat" where
  "be_value bs = foldl (\<lambda>v c. push_bit 8 v OR of_char c) 0 bs"

definition unmask :: "string \<Rightarrow> string \<Rightarrow> string" where
  "unmask key payload =
     map (\<lambda>i. char_of ((of_char (payload ! i) :: nat) XOR of_char (key ! (i mod 4)))) [0..<length payload]"

definition take_frame :: "nat \<Rightarrow> bool \<Rightarrow> nat \<Rightarrow> nat \<Rightarrow> string \<Rightarrow> NextFrame" where
  "take_frame opc masked need len frame =
     (let mask_len = (if masked then 4 else 0)
      in if length frame < (need + mask_len + len) mod 2 ^ 64 then NeedMore
         else if need + mask_len + len \<ge> 2 ^ 64 then LengthError
         else let body = take len (drop (need + mask_len) frame)
              in NextFrame opc (if masked then unmask (take 4 (drop need frame)) body else body)
                   (drop (need + mask_len + len) frame))"

definition next_frame :: "string \<Rightarrow> NextFrame" where
  "next_frame frame =
     (if length frame < 2 then NeedMore
      else let b0 = of_char (frame ! 0); b1 = of_char (frame ! 1);
               opc = b0 AND 0x0F; masked = (b1 AND 0x80 \<noteq> 0); len = b1 AND (0x7F :: nat)
           in if len = 126 then (if length frame < 4 then NeedMore
                else take_frame opc masked 4 (be_value (take 2 (drop 2 frame))) frame)
              else if len = 127 then (if length frame < 10 then NeedMore
                else take_frame opc masked 10 (be_value (take 8 (drop 2 frame))) frame)
              else take_frame opc masked 2 len frame)"

text \<open>What the server does with the frames it has: the loop over the received bytes.\<close>

datatype WsAction = SendBytes string | OnText string | OnBinary string | PeerClose nat

datatype WsStatus = Serving | Closing | Crashed

definition frame_action :: "nat \<Rightarrow> string \<Rightarrow> WsAction list" where
  "frame_action opc payload =
     (if opc = 0x9 then [SendBytes (pong_frame payload)]
      else if opc = 0xA then []
      else if opc = 0x1 then [OnText payload]
      else if opc = 0x2 then [OnBinary payload]
      else [])"

lemma take_frame_rest: "take_frame opc masked need len frame = NextFrame opc' p rest \<Longrightarrow> 0 < need \<Longrightarrow> frame \<noteq> [] \<Longrightarrow> length rest < length frame"
  by (auto simp: take_frame_def Let_def split: if_splits)

lemma next_frame_rest: "next_frame frame = NextFrame opc p rest \<Longrightarrow> length rest < length frame"
  by (auto simp: next_frame_def Let_def split: if_splits dest!: take_frame_rest)

function serve_frames :: "string \<Rightarrow> WsAction list \<times> string \<times> WsStatus" where
  "serve_frames frame =
     (case next_frame frame of
        NeedMore \<Rightarrow> ([], frame, Serving)
      | LengthError \<Rightarrow> ([], frame, Crashed)
      | NextFrame opc payload rest \<Rightarrow>
          if opc = 0x8 then ([PeerClose 1000], rest, Closing)
          else let (acts, left, status) = serve_frames rest in (frame_action opc payload @ acts, left, status))"
  by pat_completeness auto
termination
  by (relation "measure length") (auto dest: next_frame_rest)

declare serve_frames.simps [simp del]

text \<open>The loop over what \<^verbatim>\<open>recv\<close> delivers.\<close>

fun serve_chunks :: "string \<Rightarrow> string list \<Rightarrow> WsAction list \<times> string \<times> WsStatus" where
  "serve_chunks frame [] = ([], frame, Serving)"
| "serve_chunks frame (c # cs) =
     (case serve_frames (frame @ c) of
        (acts, left, Serving) \<Rightarrow> (let (acts', left', status) = serve_chunks left cs in (acts @ acts', left', status))
      | (acts, left, status) \<Rightarrow> (acts, left, status))"

section \<open>The client's side\<close>

text \<open>A frame as a client sends it: a masked one, with the shortest length field.\<close>

definition be_bytes :: "nat \<Rightarrow> nat \<Rightarrow> string" where
  "be_bytes k n = map (\<lambda>i. ws_byte (drop_bit (i * 8) n)) (rev [0..<k])"

definition frame_header :: "nat \<Rightarrow> nat \<Rightarrow> nat \<Rightarrow> string" where
  "frame_header opc mask_bit len =
     ws_byte (0x80 OR opc) #
     (if len \<le> 125 then [ws_byte (mask_bit OR len)]
      else if len \<le> 0xFFFF then ws_byte (mask_bit OR 126) # be_bytes 2 len
      else ws_byte (mask_bit OR 127) # be_bytes 8 len)"

text \<open>Masking as the client does it: the key turns by one byte with every byte of the payload.\<close>

fun masked_with :: "string \<Rightarrow> string \<Rightarrow> string" where
  "masked_with key [] = []"
| "masked_with key (c # cs) = char_of ((of_char c :: nat) XOR of_char (hd key)) # masked_with (rotate1 key) cs"

definition client_frame :: "nat \<Rightarrow> string \<Rightarrow> string \<Rightarrow> string" where
  "client_frame opc key payload = frame_header opc 0x80 (length payload) @ key @ masked_with key payload"

text \<open>The decoder, as a specification of the encoding.\<close>

definition base64_index :: "char \<Rightarrow> nat option" where
  "base64_index = map_of (zip base64_tbl [0..<64])"

fun base64_decode :: "string \<Rightarrow> string option" where
  "base64_decode [] = Some []"
| "base64_decode (w # x # y # z # rest) =
     do { a \<leftarrow> base64_index w;
          b \<leftarrow> base64_index x;
          let c1 = char_of (a * 4 + b div 16);
          if y = CHR ''='' \<and> z = CHR ''='' \<and> rest = [] then Some [c1]
          else do { c \<leftarrow> base64_index y;
                    let c2 = char_of (b mod 16 * 16 + c div 4);
                    if z = CHR ''='' \<and> rest = [] then Some [c1, c2]
                    else do { d \<leftarrow> base64_index z;
                              r \<leftarrow> base64_decode rest;
                              Some (c1 # c2 # char_of (c mod 4 * 64 + d) # r) } } }"
| "base64_decode _ = None"

text \<open>A frame with bytes that arrive later.\<close>

fun extend_frame :: "NextFrame \<Rightarrow> string \<Rightarrow> NextFrame" where
  "extend_frame (NextFrame opc p rest) later = NextFrame opc p (rest @ later)"
| "extend_frame r later = r"

text \<open>A request that a browser sends.\<close>

definition example_upgrade :: string where
  "example_upgrade = ''GET /feed HTTP/1.1'' @ crlf @ ''Host: localhost:9001'' @ crlf @ ''Upgrade: websocket'' @ crlf @
     ''Connection: Upgrade'' @ crlf @ ''Sec-WebSocket-Key: dGhlIHNhbXBsZSBub25jZQ=='' @ crlf @ crlf"

section \<open>Bits and bytes: lemmas\<close>

lemma or_shifted: "b < 2 ^ k \<Longrightarrow> push_bit k a OR b = a * 2 ^ k + (b :: nat)"
proof -
  assume "b < 2 ^ k"
  then have "take_bit k b = b" by (simp add: take_bit_nat_eq_self_iff)
  moreover have "push_bit k a AND take_bit k b = 0" by (auto simp: bit_eq_iff bit_simps)
  ultimately have "push_bit k a AND b = 0" by simp
  then have "push_bit k a + b = push_bit k a OR b" by (rule disjunctive_add_eq_or)
  then show ?thesis by (simp add: push_bit_eq_mult)
qed

lemma and_255: "n AND 255 = n mod 256" for n :: nat
  using take_bit_eq_mask [of 8 n] by (simp add: mask_eq_exp_minus_1 take_bit_eq_mod)

lemma and_63: "n AND 63 = n mod 64" for n :: nat
  using take_bit_eq_mask [of 6 n] by (simp add: mask_eq_exp_minus_1 take_bit_eq_mod)

lemma of_char_less: "(of_char c :: nat) < 256"
  by simp

lemma of_char_byte: "(of_char (ws_byte n) :: nat) = n mod 256"
  by (simp add: ws_byte_def and_255)

section \<open>Base64: lemmas\<close>

lemma base64_tbl_facts: "distinct base64_tbl" "length base64_tbl = 64" "CHR ''='' \<notin> set base64_tbl"
  by code_simp+

lemma base64_index_nth: "i < 64 \<Longrightarrow> base64_index (base64_tbl ! i) = Some i"
  using map_of_zip_nth [of base64_tbl "[0..<64]" i] base64_tbl_facts by (simp add: base64_index_def)

lemma base64_nth_pad: "i < 64 \<Longrightarrow> base64_tbl ! i \<noteq> CHR ''=''"
  using base64_tbl_facts(2,3) nth_mem [of i base64_tbl] by metis

lemma base64_value_sum: "b < 256 \<Longrightarrow> c < 256 \<Longrightarrow> base64_value a b c = (a * 256 + b) * 256 + c"
proof -
  assume "b < 256" "c < 256"
  have "push_bit 16 a OR push_bit 8 b = push_bit 8 (push_bit 8 a OR b)" by (simp add: push_bit_or)
  with \<open>b < 256\<close> have "push_bit 16 a OR push_bit 8 b = push_bit 8 (a * 256 + b)"
    by (simp only: or_shifted [of b 8 a, simplified])
  then show ?thesis using or_shifted [of c 8 "a * 256 + b"] \<open>c < 256\<close> by (simp add: base64_value_def)
qed

lemma base64_groups:
  fixes w x y z :: nat
  assumes "w < 64" "x < 64" "y < 64" "z < 64"
  shows "(((w * 64 + x) * 64 + y) * 64 + z) div 262144 mod 64 = w"
    and "(((w * 64 + x) * 64 + y) * 64 + z) div 4096 mod 64 = x"
    and "(((w * 64 + x) * 64 + y) * 64 + z) div 64 mod 64 = y"
    and "(((w * 64 + x) * 64 + y) * 64 + z) mod 64 = z"
proof -
  let ?v = "((w * 64 + x) * 64 + y) * 64 + z"
  have m: "k < 64 \<Longrightarrow> (j * 64 + k) mod 64 = k" for j k :: nat by simp
  have 1: "?v div 64 = (w * 64 + x) * 64 + y" using assms by simp
  have 2: "?v div 4096 = w * 64 + x" using assms 1 div_mult2_eq [of ?v 64 64] by simp
  have 3: "?v div 262144 = w" using assms 2 div_mult2_eq [of ?v 4096 64] by simp
  show "?v div 262144 mod 64 = w" "?v div 4096 mod 64 = x" "?v div 64 mod 64 = y" "?v mod 64 = z"
    using assms m [of z "(w * 64 + x) * 64 + y"] m [of y "w * 64 + x"] m [of x w] by (simp_all only: 1 2 3) simp
qed

lemma drop_bit_groups:
  "drop_bit 18 n = n div 262144" "drop_bit 12 n = n div 4096" "drop_bit 6 n = n div 64" "drop_bit 0 n = n" for n :: nat
  by (simp_all add: drop_bit_eq_div)

lemma base64_digits:
  assumes "a < 256" "b < 256" "c < 256"
  shows "base64_char (base64_value a b c) 18 = base64_tbl ! (a div 4)"
    and "base64_char (base64_value a b c) 12 = base64_tbl ! (a mod 4 * 16 + b div 16)"
    and "base64_char (base64_value a b c) 6 = base64_tbl ! (b mod 16 * 4 + c div 64)"
    and "base64_char (base64_value a b c) 0 = base64_tbl ! (c mod 64)"
proof -
  let ?v = "(a * 256 + b) * 256 + c"
  have bounds: "a div 4 < 64" "a mod 4 * 16 + b div 16 < 64" "b mod 16 * 4 + c div 64 < 64" "c mod 64 < 64"
    using assms mod_less_divisor [of 4 a] mod_less_divisor [of 16 b] less_mult_imp_div_less [of b 16 16]
      less_mult_imp_div_less [of c 4 64] by auto
  have regroup: "((a1 * 4 + a0) * 256 + (b1 * 16 + b0)) * 256 + (c1 * 64 + c0) =
      ((a1 * 64 + (a0 * 16 + b1)) * 64 + (b0 * 4 + c1)) * 64 + (c0 :: nat)" for a1 a0 b1 b0 c1 c0
    by simp
  have "?v = ((a div 4 * 64 + (a mod 4 * 16 + b div 16)) * 64 + (b mod 16 * 4 + c div 64)) * 64 + c mod 64"
    using regroup [of "a div 4" "a mod 4" "b div 16" "b mod 16" "c div 64" "c mod 64"] by (simp only: div_mult_mod_eq)
  with base64_groups [OF bounds]
  have "?v div 262144 mod 64 = a div 4" "?v div 4096 mod 64 = a mod 4 * 16 + b div 16"
    "?v div 64 mod 64 = b mod 16 * 4 + c div 64" "?v mod 64 = c mod 64" by (simp_all only: refl)
  then show "base64_char (base64_value a b c) 18 = base64_tbl ! (a div 4)"
    and "base64_char (base64_value a b c) 12 = base64_tbl ! (a mod 4 * 16 + b div 16)"
    and "base64_char (base64_value a b c) 6 = base64_tbl ! (b mod 16 * 4 + c div 64)"
    and "base64_char (base64_value a b c) 0 = base64_tbl ! (c mod 64)"
    by (simp_all only: base64_char_def base64_value_sum [OF assms(2,3)] and_63 drop_bit_groups)
qed

lemma base64_bytes:
  assumes "a < 256" "b < 256" "c < (256 :: nat)"
  shows "a div 4 < 64" "a mod 4 * 16 + b div 16 < 64" "b mod 16 * 4 + c div 64 < 64"
    and "a div 4 * 4 + (a mod 4 * 16 + b div 16) div 16 = a"
    and "(a mod 4 * 16 + b div 16) mod 16 * 16 + (b mod 16 * 4 + c div 64) div 4 = b"
    and "(b mod 16 * 4 + c div 64) mod 4 * 64 + c mod 64 = c"
proof -
  have "b div 16 < 16" "c div 64 < 4" using assms by auto
  moreover have "a mod 4 < 4" "b mod 16 < 16" by simp_all
  ultimately show "a div 4 < 64" "a mod 4 * 16 + b div 16 < 64" "b mod 16 * 4 + c div 64 < 64"
    and "a div 4 * 4 + (a mod 4 * 16 + b div 16) div 16 = a"
    and "(a mod 4 * 16 + b div 16) mod 16 * 16 + (b mod 16 * 4 + c div 64) div 4 = b"
    and "(b mod 16 * 4 + c div 64) mod 4 * 64 + c mod 64 = c"
    using assms by auto
qed

lemma of_char_high: "(of_char c :: nat) div 16 < 16" "(of_char c :: nat) div 64 < 4"
  using of_char_less [of c] less_mult_imp_div_less [of "of_char c" 16 16] less_mult_imp_div_less [of "of_char c" 4 64]
  by simp_all

lemma base64_decode_encode: "base64_decode (base64_encode bs) = Some bs"
proof (induction bs rule: base64_encode.induct)
  case (2 a)
  then show ?case using base64_digits [of "of_char a" 0 0] base64_bytes [of "of_char a" 0 0]
    by (simp add: base64_index_nth)
next
  case (3 a b)
  then show ?case using base64_digits [of "of_char a" "of_char b" 0] base64_bytes [of "of_char a" "of_char b" 0]
    by (simp add: base64_index_nth base64_nth_pad of_char_high)
next
  case (4 a b c rest)
  then show ?case using base64_digits [of "of_char a" "of_char b" "of_char c"] base64_bytes [of "of_char a" "of_char b" "of_char c"]
    by (simp add: base64_index_nth base64_nth_pad of_char_high)
qed simp

section \<open>Frames: lemmas\<close>

lemma be_value_snoc: "be_value (bs @ [c]) = be_value bs * 256 + of_char c"
  using or_shifted [of "of_char c" 8 "be_value bs"] by (simp add: be_value_def)

lemma be_bytes_Suc: "be_bytes (Suc k) n = be_bytes k (drop_bit 8 n) @ [ws_byte n]"
proof -
  have "rev [0..<Suc k] = map Suc (rev [0..<k]) @ [0]" by (simp only: rev_map map_Suc_upt [symmetric] upt_conv_Cons zero_less_Suc rev.simps)
  then show ?thesis by (simp add: be_bytes_def add.commute del: upt_Suc)
qed

lemma length_be_bytes [simp]: "length (be_bytes k n) = k"
  by (simp add: be_bytes_def)

lemma be_value_bytes: "be_value (be_bytes k n) = n mod 2 ^ (8 * k)"
proof (induction k arbitrary: n)
  case (Suc k)
  have "n mod (256 * 2 ^ (8 * k)) = 256 * (n div 256 mod 2 ^ (8 * k)) + n mod 256" by (rule mod_mult2_eq)
  then show ?case using Suc by (simp add: be_bytes_Suc be_value_snoc of_char_byte drop_bit_eq_div power_add mult.commute)
qed (simp add: be_bytes_def be_value_def)

lemma xor_byte: "((of_char c :: nat) XOR of_char k) mod 256 = of_char c XOR of_char k" for c k :: char
proof -
  have "take_bit 8 (of_char d :: nat) = of_char d" for d :: char by (simp add: take_bit_nat_eq_self_iff)
  then have "take_bit 8 ((of_char c :: nat) XOR of_char k) = of_char c XOR of_char k" by (simp only: take_bit_xor)
  then show ?thesis by (simp add: take_bit_eq_mod)
qed

lemma length_unmask [simp]: "length (unmask key p) = length p"
  by (simp add: unmask_def)

lemma length_masked_with [simp]: "length (masked_with key p) = length p"
  by (induction key p rule: masked_with.induct) simp_all

lemma masked_with_nth:
  "key \<noteq> [] \<Longrightarrow> i < length p \<Longrightarrow>
   masked_with key p ! i = char_of ((of_char (p ! i) :: nat) XOR of_char (key ! (i mod length key)))"
proof (induction key p arbitrary: i rule: masked_with.induct)
  case (2 key c cs)
  show ?case
  proof (cases i)
    case (Suc j)
    have "rotate1 key ! (j mod length key) = key ! (Suc j mod length key)"
      using 2 by (simp add: nth_rotate1 mod_Suc_eq)
    then show ?thesis using 2 Suc by simp
  qed (use 2 in \<open>simp add: hd_conv_nth\<close>)
qed simp

lemma unmask_masked: "length key = 4 \<Longrightarrow> unmask key (masked_with key p) = p"
proof (rule nth_equalityI)
  fix i assume key: "length key = 4" and "i < length (unmask key (masked_with key p))"
  moreover have "key \<noteq> []" using key by auto
  ultimately show "unmask key (masked_with key p) ! i = p ! i"
    using masked_with_nth [of key i p] by (auto simp: unmask_def xor_byte xor.assoc)
qed simp

lemma byte_or: "n < 128 \<Longrightarrow> (of_char (ws_byte (0x80 OR n)) :: nat) = 128 + n"
  using or_shifted [of n 7 1] by (simp add: of_char_byte)

lemma frame_header_facts:
  "2 \<le> length (frame_header opc m len)" "length (frame_header opc m len) \<le> 10"
  by (simp_all add: frame_header_def)

lemma and_127: "n AND 127 = n mod 128" for n :: nat
  using take_bit_eq_mask [of 7 n] by (simp add: mask_eq_exp_minus_1 take_bit_eq_mod)

lemma and_15: "n AND 15 = n mod 16" for n :: nat
  using take_bit_eq_mask [of 4 n] by (simp add: mask_eq_exp_minus_1 take_bit_eq_mod)

lemma and_128: "n < 128 \<Longrightarrow> (128 + n) AND 128 = 128" "n < 128 \<Longrightarrow> n AND 128 = 0" for n :: nat
proof -
  assume "n < 128"
  then have "take_bit 7 n = n" by (simp add: take_bit_nat_eq_self_iff)
  moreover have "\<not> bit (take_bit 7 n) 7" by (simp add: bit_take_bit_iff)
  ultimately have "\<not> bit n 7" by simp
  then show a: "n AND 128 = 0" using and_exp_eq_0_iff_not_bit [of n 7] by simp
  have "128 + n = 128 OR n" using or_shifted [of n 7 1] \<open>n < 128\<close> by simp
  moreover have "(128 OR n) AND 128 = (128 AND 128) OR (n AND 128 :: nat)" by (rule bit_eqI) (auto simp: bit_simps)
  ultimately show "(128 + n) AND 128 = 128" using a by simp
qed

lemma next_frame_header:
  assumes "opc < 16" "m = 0 \<or> m = 0x80" "len < 2 ^ 64"
  shows "next_frame (frame_header opc m len @ t) =
    take_frame opc (m = 0x80) (length (frame_header opc m len)) len (frame_header opc m len @ t)"
proof -
  have b0: "(of_char (ws_byte (0x80 OR opc)) :: nat) AND 0x0F = opc"
    using assms(1) byte_or [of opc] mod_mult_self4 [of 16 8 opc] by (simp add: and_15)
  have b1: "(of_char (ws_byte (m OR n)) :: nat) AND 0x80 = m" "(of_char (ws_byte (m OR n)) :: nat) AND 0x7F = n" if "n < 128" for n
    using assms(2) that byte_or [of n] by (auto simp: and_127 and_128 of_char_byte)
  show ?thesis using assms be_value_bytes [of 2 len] be_value_bytes [of 8 len]
    by (auto simp: frame_header_def next_frame_def b0 b1 Let_def numeral_2_eq_2 [symmetric])
qed

lemma server_frame_header: "ws_encode_server_frame text p = frame_header (if text then 1 else 2) 0 (length p) @ p"
  by (simp add: ws_encode_server_frame_def frame_header_def be_bytes_def Let_def upt_rec)

lemma next_frame_client:
  assumes "opc < 16" "length key = 4" "length p + 14 < 2 ^ 64"
  shows "next_frame (client_frame opc key p @ rest) = NextFrame opc p rest"
proof -
  let ?h = "frame_header opc 0x80 (length p)"
  have "length ?h + 4 + length p < 2 ^ 64" using assms(3) frame_header_facts(2) [of opc "0x80" "length p"] by linarith
  then show ?thesis
    using assms next_frame_header [of opc "0x80" "length p" "key @ masked_with key p @ rest"]
    by (simp add: client_frame_def take_frame_def unmask_masked)
qed

lemma next_frame_server:
  assumes "length p + 14 < 2 ^ 64"
  shows "next_frame (ws_encode_server_frame text p @ rest) = NextFrame (if text then 1 else 2) p rest"
proof -
  let ?opc = "if text then 1 else (2 :: nat)"
  let ?h = "frame_header ?opc 0 (length p)"
  have "length ?h + length p < 2 ^ 64" using assms frame_header_facts(2) [of ?opc 0 "length p"] by linarith
  then show ?thesis using assms next_frame_header [of ?opc 0 "length p" "p @ rest"]
    by (simp add: server_frame_header take_frame_def)
qed

lemma take_frame_extend:
  "0 < need \<Longrightarrow> take_frame opc masked need len f \<noteq> NeedMore \<Longrightarrow>
   take_frame opc masked need len (f @ later) = extend_frame (take_frame opc masked need len f) later"
  by (auto simp: take_frame_def Let_def split: if_splits)

lemma next_frame_extend: "next_frame f \<noteq> NeedMore \<Longrightarrow> next_frame (f @ later) = extend_frame (next_frame f) later"
proof -
  assume f: "next_frame f \<noteq> NeedMore"
  then have "2 \<le> length f" by (auto simp: next_frame_def split: if_splits)
  then have "(f @ later) ! 0 = f ! 0" "(f @ later) ! 1 = f ! 1" by (auto simp: nth_append)
  then show ?thesis using f by (auto simp: next_frame_def Let_def take_frame_extend split: if_splits)
qed

text \<open>A beginning of a frame is not mistaken for a frame.\<close>

lemma next_frame_prefix:
  assumes "next_frame f = NextFrame opc p []" "f = g @ later" "later \<noteq> []"
  shows "next_frame g = NeedMore"
  using next_frame_extend [of g later] assms by (cases "next_frame g") auto

lemma serve_frames_extend:
  "serve_frames (f @ later) =
     (case serve_frames f of
        (acts, left, Serving) \<Rightarrow> (let (acts', left', status) = serve_frames (left @ later) in (acts @ acts', left', status))
      | (acts, left, status) \<Rightarrow> (acts, left @ later, status))"
proof (induction f rule: serve_frames.induct)
  case (1 f)
  show ?case
  proof (cases "next_frame f")
    case NeedMore
    then show ?thesis by (simp add: serve_frames.simps [of f])
  next
    case (NextFrame opc p rest)
    then have "next_frame (f @ later) = NextFrame opc p (rest @ later)" using next_frame_extend [of f later] by simp
    then show ?thesis using NextFrame 1 
      by (simp add: serve_frames.simps [of f] serve_frames.simps [of "f @ later"] Let_def split: prod.splits WsStatus.splits)
  next
    case LengthError
    then show ?thesis using next_frame_extend [of f later] by (simp add: serve_frames.simps [of f] serve_frames.simps [of "f @ later"])
  qed
qed

lemma serve_frames_settled: "serve_frames f = (acts, left, Serving) \<Longrightarrow> serve_frames left = ([], left, Serving)"
proof (induction f arbitrary: acts rule: serve_frames.induct)
  case (1 f)
  then show ?case
    by (auto simp: serve_frames.simps [of f] Let_def split: NextFrame.splits prod.splits if_splits) (auto simp: serve_frames.simps)
qed

lemma serve_chunks_concat:
  "serve_frames left = ([], left, Serving) \<Longrightarrow>
   (case serve_chunks left cs of (acts, _, status) \<Rightarrow> (acts, status)) =
   (case serve_frames (left @ concat cs) of (acts, _, status) \<Rightarrow> (acts, status))"
proof (induction cs arbitrary: left)
  case (Cons c cs)
  obtain acts l st where f: "serve_frames (left @ c) = (acts, l, st)" by (cases "serve_frames (left @ c)")
  show ?case using Cons.IH [of l] serve_frames_settled [of "left @ c" acts l] serve_frames_extend [of "left @ c" "concat cs"] f
    by (cases st) (auto split: prod.splits)
qed simp


lemma length_base64_encode: "length (base64_encode bs) = (length bs + 2) div 3 * 4"
  by (induction bs rule: base64_encode.induct) (simp_all add: Let_def div_add_self2 [of 3 "Suc (Suc n)" for n, simplified])

lemma trim_end_last: "trim_end s \<noteq> [] \<Longrightarrow> last (trim_end s) \<noteq> CHR 0x0D \<and> \<not> blank (last (trim_end s))"
  using hd_dropWhile [of "\<lambda>c. c = CHR 0x0D \<or> blank c" "rev s"] by (auto simp: trim_end_def last_rev)

lemma prefix_trim_end: "prefix (trim_end s) s"
proof -
  have "suffix (dropWhile (\<lambda>c. c = CHR 0x0D \<or> blank c) (rev s)) (rev s)" by (rule suffix_dropWhile)
  then show ?thesis by (simp add: trim_end_def suffix_to_prefix)
qed

lemma find_header_key:
  assumes "find_header req name \<noteq> []"
  shows "CHR 0x0A \<notin> set (find_header req name) \<and> \<not> blank (hd (find_header req name)) \<and> \<not> blank (last (find_header req name))"
proof -
  obtain n where h: "find_header req name = trim_end (takeWhile (\<lambda>c. c \<noteq> CHR 0x0A) (dropWhile blank (drop n req)))"
    using assms by (auto simp: find_header_def Let_def split: option.splits if_splits)
  let ?v = "dropWhile blank (drop n req)" let ?t = "takeWhile (\<lambda>c. c \<noteq> CHR 0x0A) ?v"
  have ne: "trim_end ?t \<noteq> []" using assms h by simp
  obtain z where z: "?t = trim_end ?t @ z" using prefix_trim_end [of ?t] by (auto simp: prefix_def)
  have "hd (trim_end ?t) = hd ?t" using ne z by (metis hd_append2)
  moreover have "?t \<noteq> []" using ne by (auto simp: trim_end_def)
  then have "hd ?t = hd ?v" "?v \<noteq> []" by (cases ?v; auto)+
  moreover have "\<not> blank (hd ?v)" using \<open>?v \<noteq> []\<close> by (rule hd_dropWhile)
  moreover have "CHR 0x0A \<notin> set (trim_end ?t)" using z set_takeWhileD [of "CHR 0x0A" "\<lambda>c. c \<noteq> CHR 0x0A" ?v] by (metis Un_iff set_append)
  ultimately show ?thesis using h trim_end_last [OF ne] by simp
qed

lemma example_handshake: "\<exists>resp. handshake (take 20) example_upgrade = Upgrade resp"
proof -
  have line: "parse_request_line example_upgrade = Some (''GET'', ''/feed'', ''HTTP/1.1'')" by code_simp
  have "find_header example_upgrade ''Sec-WebSocket-Key'' = ''dGhlIHNhbXBsZSBub25jZQ==''" by code_simp
  then show ?thesis using line by (simp add: handshake_def ieq_def Let_def)
qed

section \<open>Properties\<close>

text \<open>
  C34. A masked frame that a client sends, of any opcode and any length that fits in memory, is taken off
  the received bytes with its opcode, its payload unmasked and nothing lost of the bytes behind it; no
  proper beginning of it is taken for a frame; and the frames the server writes read back the same way.
\<close>

theorem ws_frame_roundtrip:
  assumes "opc < 16" "length key = 4" "length payload + 14 < 2 ^ 64"
  shows "next_frame (client_frame opc key payload @ rest) = NextFrame opc payload rest \<and>
    (\<forall>g later. client_frame opc key payload = g @ later \<longrightarrow> later \<noteq> [] \<longrightarrow> next_frame g = NeedMore) \<and>
    next_frame (ws_encode_server_frame is_text payload @ rest) = NextFrame (if is_text then 1 else 2) payload rest"
  using next_frame_client [OF assms, of rest] next_frame_client [OF assms, of "[]"] next_frame_prefix
    next_frame_server [OF assms(3), of is_text rest] by (metis append_Nil2)

theorem ws_frame_roundtrip_witness:
  "next_frame (client_frame 1 ''k3y!'' ''ping'' @ ''rest'') = NextFrame 1 ''ping'' ''rest''"
  using ws_frame_roundtrip [of 1 "''k3y!''" "''ping''" "''rest''" True] by simp

text \<open>
  What the server does with the bytes of a connection does not depend on how the transport cuts
  them into pieces: the callbacks, the pongs and the way the loop ends are those of the whole byte
  string.
\<close>

theorem ws_chunking:
  "(case serve_chunks [] cs of (acts, _, status) \<Rightarrow> (acts, status)) =
   (case serve_frames (concat cs) of (acts, _, status) \<Rightarrow> (acts, status))"
  by (rule serve_chunks_concat [of "[]", simplified]) (simp add: serve_frames.simps next_frame_def)

text \<open>
  C37. A frame of 14 bytes ends the server: an extended length close to \<open>2 ^ 64\<close> makes the sum of the
  sizes wrap below the number of bytes received, the payload is constructed with that length, and
  the exception leaves the thread. So a client that has done the handshake can stop the process.
\<close>

theorem ws_length_error:
  assumes "opc < 16" "length key = 4" "2 ^ 64 - 14 \<le> n" "n < 2 ^ 64"
  shows "serve_frames (frame_header opc 0x80 n @ key) = ([], frame_header opc 0x80 n @ key, Crashed)"
proof -
  have h: "length (frame_header opc 0x80 n) = 10" using assms(3) by (simp add: frame_header_def)
  have "(14 + n) mod 2 ^ 64 = 14 + n - 2 ^ 64" using assms(3,4) by (simp add: mod_if)
  then have "(10 + 4 + n) mod 2 ^ 64 \<le> 14" using assms(4) by simp
  then have "take_frame opc True 10 n (frame_header opc 0x80 n @ key) = LengthError"
    using assms(2,3) h by (simp add: take_frame_def)
  then show ?thesis using next_frame_header [of opc "0x80" n key] assms h by (simp add: serve_frames.simps)
qed

theorem ws_length_error_witness:
  "serve_frames (frame_header 1 0x80 (2 ^ 64 - 1) @ ''mask'') = ([], frame_header 1 0x80 (2 ^ 64 - 1) @ ''mask'', Crashed)"
  by (rule ws_length_error) simp_all

text \<open>
  C35. When the server accepts an upgrade, the request has the method GET in any case of letters and a
  key header; the key has no line break, no blank at its ends; and the answer is the 101 response
  whose accept header is the Base64 of the digest of the key with the protocol's constant, so that a
  client that decodes it finds the digest.
\<close>

theorem handshake_accept:
  assumes "handshake sha1 req = Upgrade resp"
  shows "\<exists>path version verb. parse_request_line req = Some (verb, path, version) \<and> ieq verb ''GET'' \<and>
    (let key = find_header req ''Sec-WebSocket-Key''; accept = base64_encode (sha1 (key @ kWsMagic))
     in key \<noteq> [] \<and> CHR 0x0A \<notin> set key \<and> \<not> blank (hd key) \<and> \<not> blank (last key) \<and>
        base64_decode accept = Some (sha1 (key @ kWsMagic)) \<and>
        length accept = (length (sha1 (key @ kWsMagic)) + 2) div 3 * 4 \<and>
        suffix (''Sec-WebSocket-Accept: '' @ accept @ crlf @ crlf) resp)"
proof -
  obtain verb path version where p: "parse_request_line req = Some (verb, path, version)" "ieq verb ''GET''"
    and k: "find_header req ''Sec-WebSocket-Key'' \<noteq> []" and r: "suffix (''Sec-WebSocket-Accept: '' @
      base64_encode (sha1 (find_header req ''Sec-WebSocket-Key'' @ kWsMagic)) @ crlf @ crlf) resp"
    using assms by (fastforce simp: handshake_def sha1_b64_def Let_def suffix_def split: option.splits prod.splits if_splits)
  show ?thesis using p r find_header_key [OF k] k
    by (auto simp: base64_decode_encode length_base64_encode Let_def)
qed

theorem handshake_accept_witness:
  "(let key = find_header example_upgrade ''Sec-WebSocket-Key''
    in key \<noteq> [] \<and> base64_decode (base64_encode (take 20 (key @ kWsMagic))) = Some (take 20 (key @ kWsMagic)))"
proof -
  obtain resp where "handshake (take 20) example_upgrade = Upgrade resp" using example_handshake ..
  from handshake_accept [OF this] show ?thesis by (auto simp: Let_def)
qed

end
