(* ===== verification/Ws_Commands.thy ===== *)
theory Ws_Commands
  imports Web_Socket
begin

text \<open>
  The field lookup of the WebSocket server in flat JSON texts and its recognition of commands
  (\<^verbatim>\<open>networking/ws_server.cpp\<close>: the \<^verbatim>\<open>json_\<close> helpers and \<^verbatim>\<open>dispatch_command_frame\<close>).
\<close>

section \<open>Fields of a flat JSON text\<close>

abbreviation quote :: char where "quote \<equiv> CHR 0x22"

text \<open>The value at a position: a quoted text, or what stands before a comma, a brace or a blank.\<close>

definition value_text :: "string \<Rightarrow> string option" where
  "value_text v =
     (if v \<noteq> [] \<and> hd v = quote
      then (if quote \<in> set (tl v) then Some (takeWhile (\<lambda>d. d \<noteq> quote) (tl v)) else None)
      else Some (takeWhile (\<lambda>d. d \<noteq> CHR '','' \<and> d \<noteq> CHR ''}'' \<and> \<not> blank d) v))"

definition json_find_value :: "string \<Rightarrow> string \<Rightarrow> string option" where
  "json_find_value s name =
     (let needle = [quote] @ name @ [quote]
      in case str_find needle s of
           None \<Rightarrow> None
         | Some pos \<Rightarrow>
             (case dropWhile blank (drop (pos + length needle) s) of
                [] \<Rightarrow> None
              | c # r \<Rightarrow> if c \<noteq> CHR '':'' then None else value_text (dropWhile blank r)))"

definition json_get_string :: "string \<Rightarrow> string \<Rightarrow> string option" where
  "json_get_string s name = json_find_value s name"

text \<open>\<^verbatim>\<open>std::strtoll\<close> in base 10: blanks, a sign, digits; the value saturates.\<close>

definition decimal :: "string \<Rightarrow> nat" where
  "decimal ds = foldl (\<lambda>x c. x * 10 + (of_char c - 48)) 0 ds"

definition saturate :: "int \<Rightarrow> int" where
  "saturate x = max (- (2 ^ 63)) (min (2 ^ 63 - 1) x)"

definition strtoll :: "string \<Rightarrow> int option" where
  "strtoll s =
     (let s1 = dropWhile isspace s;
          neg = (s1 \<noteq> [] \<and> hd s1 = CHR ''-'');
          s2 = (if s1 \<noteq> [] \<and> (hd s1 = CHR ''-'' \<or> hd s1 = CHR ''+'') then tl s1 else s1);
          ds = takeWhile (\<lambda>c. digit_value c \<noteq> None) s2
      in if ds = [] then None else Some (saturate (if neg then - int (decimal ds) else int (decimal ds))))"

definition json_get_int :: "string \<Rightarrow> string \<Rightarrow> int option" where
  "json_get_int s name =
     (case json_find_value s name of None \<Rightarrow> None | Some tmp \<Rightarrow> if tmp = [] then None else strtoll tmp)"

definition json_get_uint :: "string \<Rightarrow> string \<Rightarrow> 64 word option" where
  "json_get_uint s name =
     (case json_get_int s name of None \<Rightarrow> None | Some v \<Rightarrow> if v < 0 then None else Some (word_of_int v))"

definition json_get_req :: "string \<Rightarrow> string option" where
  "json_get_req s = json_find_value s ''req''"

section \<open>Commands\<close>

text \<open>A call of one of the four typed callbacks, with its arguments.\<close>

datatype WsCommand =
    WsSubmit string "64 word" "64 word" int int int string
  | WsCancel string "64 word" "64 word"
  | WsModify string "64 word" "64 word" int int
  | WsPing string

record WsCommandCallbacks =
  has_on_submit :: bool
  has_on_cancel :: bool
  has_on_modify :: bool
  has_on_ping :: bool

text \<open>The callbacks that the gateway registers: all four.\<close>

definition install :: WsCommandCallbacks where
  "install = \<lparr>has_on_submit = True, has_on_cancel = True, has_on_modify = True, has_on_ping = True\<rparr>"

text \<open>\<^verbatim>\<open>static_cast<int>\<close> of an unsigned 64-bit value.\<close>

definition to_int32 :: "64 word \<Rightarrow> int" where
  "to_int32 w = (uint w + 2 ^ 31) mod 2 ^ 32 - 2 ^ 31"

definition uint_field :: "string \<Rightarrow> string \<Rightarrow> 64 word" where
  "uint_field payload name = (case json_get_uint payload name of None \<Rightarrow> 0 | Some v \<Rightarrow> v)"

definition int_field :: "string \<Rightarrow> string \<Rightarrow> int" where
  "int_field payload name = (case json_get_int payload name of None \<Rightarrow> 0 | Some v \<Rightarrow> v)"

definition string_field :: "string \<Rightarrow> string \<Rightarrow> string" where
  "string_field payload name = (case json_get_string payload name of None \<Rightarrow> '''' | Some v \<Rightarrow> v)"

definition dispatch_command_frame :: "WsCommandCallbacks \<Rightarrow> string \<Rightarrow> WsCommand option" where
  "dispatch_command_frame cbs payload =
     (case json_get_string payload ''type'' of
        None \<Rightarrow> None
      | Some type \<Rightarrow>
          (let req = (case json_get_req payload of None \<Rightarrow> '''' | Some r \<Rightarrow> r)
           in if type = ''ping'' then (if \<not> has_on_ping cbs then None else Some (WsPing req))
              else if type = ''submit'' then
                (if \<not> has_on_submit cbs then None
                 else let tif = string_field payload ''tif''
                      in Some (WsSubmit req (uint_field payload ''i'') (uint_field payload ''trader'')
                           (to_int32 (uint_field payload ''side'')) (int_field payload ''px'') (int_field payload ''qty'')
                           (if tif = '''' then ''GTC'' else tif)))
              else if type = ''cancel'' then
                (if \<not> has_on_cancel cbs then None
                 else Some (WsCancel req (uint_field payload ''i'') (uint_field payload ''id'')))
              else if type = ''modify'' then
                (if \<not> has_on_modify cbs then None
                 else Some (WsModify req (uint_field payload ''i'') (uint_field payload ''id'')
                        (int_field payload ''qty'') (int_field payload ''px'')))
              else None))"

section \<open>The client's side\<close>

text \<open>A command as the dashboard writes it.\<close>

fun command_text :: "WsCommand \<Rightarrow> string" where
  \<open>command_text (WsSubmit req i trader side px q tif) =
     ''{"type":"submit","req":"'' @ req @ ''","i":'' @ word_string i @ '',"trader":'' @ word_string trader @
     '',"side":'' @ int_string side @ '',"px":'' @ int_string px @ '',"qty":'' @ int_string q @ '',"tif":"'' @ tif @ ''"}''\<close>
| \<open>command_text (WsCancel req i x) =
     ''{"type":"cancel","req":"'' @ req @ ''","i":'' @ word_string i @ '',"id":'' @ word_string x @ ''}''\<close>
| \<open>command_text (WsModify req i x q px) =
     ''{"type":"modify","req":"'' @ req @ ''","i":'' @ word_string i @ '',"id":'' @ word_string x @
     '',"qty":'' @ int_string q @ '',"px":'' @ int_string px @ ''}''\<close>
| \<open>command_text (WsPing req) = ''{"type":"ping","req":"'' @ req @ ''"}''\<close>

text \<open>
  The requests that survive the field lookup: the request id has no quote and is not itself the name
  of a field, ids are below \<open>2 ^ 63\<close>, numbers are 64-bit, the side is 0 or 1.
\<close>

definition field_names :: "string list" where
  "field_names = [''i'', ''trader'', ''side'', ''px'', ''qty'', ''tif'', ''id'']"

definition req_ok :: "string \<Rightarrow> bool" where
  "req_ok r \<longleftrightarrow> quote \<notin> set r \<and> r \<notin> set field_names"

definition id_ok :: "64 word \<Rightarrow> bool" where "id_ok w \<longleftrightarrow> unat w < 2 ^ 63"

fun command_ok :: "WsCommand \<Rightarrow> bool" where
  "command_ok (WsSubmit req i trader side px q tif) \<longleftrightarrow> req_ok req \<and> id_ok i \<and> id_ok trader \<and> side \<in> {0, 1} \<and>
     in_i64 px \<and> in_i64 q \<and> tif \<in> {''GTC'', ''IOC'', ''FOK''}"
| "command_ok (WsCancel req i x) \<longleftrightarrow> req_ok req \<and> id_ok i \<and> id_ok x"
| "command_ok (WsModify req i x q px) \<longleftrightarrow> req_ok req \<and> id_ok i \<and> id_ok x \<and> in_i64 q \<and> in_i64 px"
| "command_ok (WsPing req) \<longleftrightarrow> req_ok req"


text \<open>
  Notions for the proofs: what stands behind the first occurrence of a quoted name, whether a text begins
  with a name and a quote, and the texts of numbers.
\<close>

definition after_name :: "string \<Rightarrow> string \<Rightarrow> string option" where
  "after_name name s =
     (case str_find ([quote] @ name @ [quote]) s of None \<Rightarrow> None | Some p \<Rightarrow> Some (drop (p + length name + 2) s))"

definition quoted_at :: "string \<Rightarrow> string \<Rightarrow> bool" where
  "quoted_at name s = prefix (name @ [quote]) s"

definition numeral_text :: "string \<Rightarrow> bool" where
  "numeral_text w \<longleftrightarrow> w \<noteq> [] \<and> (\<forall>c \<in> set w. digit_value c \<noteq> None \<or> c = CHR ''-'')"

declare command_text.simps [simp del]

section \<open>The field lookup: lemmas\<close>

lemma after_name_other: "c \<noteq> quote \<Longrightarrow> after_name name (c # s) = after_name name s"
  by (simp add: after_name_def split: option.splits)

lemma after_name_quote:
  "after_name name (quote # s) = (if quoted_at name s then Some (drop (length name + 1) s) else after_name name s)"
  by (simp add: after_name_def quoted_at_def split: option.splits)

lemma quoted_at_Cons: "quoted_at [] (c # s) \<longleftrightarrow> c = quote" "quoted_at (n # ns) (c # s) \<longleftrightarrow> n = c \<and> quoted_at ns s"
  by (auto simp: quoted_at_def)

lemma after_name_skip: "quote \<notin> set w \<Longrightarrow> after_name name (w @ s) = after_name name s"
  by (induction w) (auto simp: after_name_other)

lemma quoted_at_word:
  "quote \<notin> set w \<Longrightarrow> quote \<notin> set name \<Longrightarrow> quoted_at name (w @ quote # s) \<longleftrightarrow> w = name"
proof (induction name arbitrary: w)
  case Nil
  then show ?case by (cases w) (auto simp: quoted_at_Cons)
next
  case (Cons c name)
  then show ?case by (cases w) (auto simp: quoted_at_Cons)
qed

lemma json_find_value_after:
  "json_find_value s name =
     (case after_name name s of
        None \<Rightarrow> None
      | Some r \<Rightarrow> (case dropWhile blank r of [] \<Rightarrow> None
                   | c # t \<Rightarrow> if c \<noteq> CHR '':'' then None else value_text (dropWhile blank t)))"
  by (simp add: json_find_value_def after_name_def Let_def split: option.splits)

lemma takeWhile_stop: "(\<And>c. c \<in> set w \<Longrightarrow> P c) \<Longrightarrow> \<not> P d \<Longrightarrow> takeWhile P (w @ d # s) = w"
  by (simp add: takeWhile_append2)

lemma value_text_string: "quote \<notin> set w \<Longrightarrow> value_text (quote # w @ quote # s) = Some w"
  by (auto simp: value_text_def intro!: takeWhile_stop)

lemma numeral_text_chars: 
  "numeral_text w \<Longrightarrow> c \<in> set w \<Longrightarrow> c \<noteq> quote \<and> c \<noteq> CHR '','' \<and> c \<noteq> CHR ''}'' \<and> \<not> blank c"
  by (auto simp: numeral_text_def digit_value_def blank_def)

lemma value_text_number:
  "numeral_text w \<Longrightarrow> d = CHR '','' \<or> d = CHR ''}'' \<Longrightarrow> value_text (dropWhile blank (w @ d # s)) = Some w"
proof -
  assume w: "numeral_text w" and d: "d = CHR '','' \<or> d = CHR ''}''"
  then obtain a v where a: "w = a # v" by (cases w) (auto simp: numeral_text_def)
  then have h: "\<not> blank a" "a \<noteq> quote" using numeral_text_chars [OF w, of a] by simp_all
  have "takeWhile (\<lambda>d. d \<noteq> CHR '','' \<and> d \<noteq> CHR ''}'' \<and> \<not> blank d) (w @ d # s) = w"
    using numeral_text_chars [OF w] d by (intro takeWhile_stop) auto
  then show ?thesis using a h by (simp add: value_text_def)
qed

lemma decimal_snoc: "decimal (ds @ [c]) = decimal ds * 10 + (of_char c - 48)"
  by (simp add: decimal_def)

lemma decimal_nat_string [simp]: "decimal (nat_string n) = n"
proof (induction n rule: nat_string.induct)
  case (1 n)
  then show ?case
    by (subst nat_string.simps) (auto simp: decimal_snoc digit_char_def decimal_def [of "[_]"])
qed

lemma nat_string_digit: "c \<in> set (nat_string n) \<Longrightarrow> digit_value c \<noteq> None"
  using nat_string_digits [of c n] by (auto simp: digit_value_def)

lemma numeral_text_numbers [simp]: "numeral_text (word_string w)" "numeral_text (int_string x)"
  using nat_string_digit by (auto simp: numeral_text_def word_string_def int_string_def)

lemma takeWhile_digits [simp]: "takeWhile (\<lambda>c. \<exists>y. digit_value c = Some y) (nat_string n) = nat_string n"
  using nat_string_digit by (simp add: takeWhile_eq_all_conv)

lemma strtoll_nat_string: "strtoll (nat_string n) = Some (saturate (int n))"
proof -
  obtain c t where n: "nat_string n = c # t" by (meson list.exhaust nat_string_not_Nil)
  then have c: "48 \<le> (of_char c :: nat)" "(of_char c :: nat) \<le> 57" using nat_string_digits [of c n] by simp_all
  then have "\<not> isspace c" "c \<noteq> CHR ''-''" "c \<noteq> CHR ''+''" by (auto simp: isspace_def)
  then show ?thesis using takeWhile_digits [of n] decimal_nat_string [of n] unfolding n by (simp add: strtoll_def)
qed

lemma saturate_id: "in_i64 x \<Longrightarrow> saturate x = x"
  by (simp add: saturate_def in_i64_def)

lemma strtoll_int_string: "in_i64 x \<Longrightarrow> strtoll (int_string x) = Some x"
proof (cases "x < 0")
  case True
  assume "in_i64 x"
  then show ?thesis using True by (simp add: int_string_def strtoll_def isspace_def saturate_id)
next
  case False
  assume "in_i64 x"
  then show ?thesis using False by (simp add: int_string_def strtoll_nat_string saturate_id)
qed

lemma strtoll_word_string: "id_ok w \<Longrightarrow> strtoll (word_string w) = Some (int (unat w))"
  using saturate_id [of "int (unat w)"] by (simp add: word_string_def strtoll_nat_string id_ok_def in_i64_def del: of_nat_unat)


lemma uint_field_at:
  "after_name name payload = Some (CHR '':'' # word_string w @ d # s) \<Longrightarrow> d = CHR '','' \<or> d = CHR ''}'' \<Longrightarrow> id_ok w \<Longrightarrow>
   uint_field payload name = w"
  using value_text_number [of "word_string w" d s] numeral_text_numbers(1) [of w]
  by (simp add: uint_field_def json_get_uint_def json_get_int_def json_find_value_after blank_def [of "CHR '':''"] strtoll_word_string
      numeral_text_def)

lemma int_field_at:
  "after_name name payload = Some (CHR '':'' # int_string x @ d # s) \<Longrightarrow> d = CHR '','' \<or> d = CHR ''}'' \<Longrightarrow> in_i64 x \<Longrightarrow>
   int_field payload name = x"
  using value_text_number [of "int_string x" d s] numeral_text_numbers(2) [of x]
  by (simp add: int_field_def json_get_int_def json_find_value_after blank_def [of "CHR '':''"] strtoll_int_string numeral_text_def)

lemma json_find_value_string:
  "after_name name payload = Some (CHR '':'' # quote # w @ quote # s) \<Longrightarrow> quote \<notin> set w \<Longrightarrow> json_find_value payload name = Some w"
  by (simp add: json_find_value_after blank_def value_text_string)


lemma uint_field_int:
  "after_name name payload = Some (CHR '':'' # int_string x @ d # s) \<Longrightarrow> d = CHR '','' \<or> d = CHR ''}'' \<Longrightarrow> in_i64 x \<Longrightarrow> 0 \<le> x \<Longrightarrow>
   uint_field payload name = word_of_int x"
  using value_text_number [of "int_string x" d s] numeral_text_numbers(2) [of x]
  by (simp add: uint_field_def json_get_uint_def json_get_int_def json_find_value_after blank_def [of "CHR '':''"] strtoll_int_string numeral_text_def)

lemma quote_not_in_numbers [simp]: "quote \<notin> set (word_string w)" "quote \<notin> set (int_string x)"
  using numeral_text_chars numeral_text_numbers by blast+

lemmas dispatch_simps = dispatch_command_frame_def json_get_string_def json_get_req_def install_def

lemmas scan = after_name_other after_name_quote after_name_skip quoted_at_Cons quoted_at_word

lemma req_okD:
  assumes "req_ok r"
  shows "quote \<notin> set r" "r \<noteq> ''i''" "r \<noteq> ''trader''" "r \<noteq> ''side''" "r \<noteq> ''px''" "r \<noteq> ''qty''" "r \<noteq> ''tif''" "r \<noteq> ''id''"
  using assms by (auto simp: req_ok_def field_names_def)

lemma ping_roundtrip:
  assumes "req_ok req"
  shows "dispatch_command_frame install (command_text (WsPing req)) = Some (WsPing req)"
proof -
  let ?p = "command_text (WsPing req)"
  have "json_find_value ?p ''type'' = Some ''ping''"
    using json_find_value_string [of "''type''" ?p "''ping''"] by (simp add: command_text.simps scan)
  moreover have "json_find_value ?p ''req'' = Some req"
    using json_find_value_string [of "''req''" ?p req] by (simp add: command_text.simps scan req_okD [OF assms])
  ultimately show ?thesis by (simp add: dispatch_simps)
qed

lemma cancel_roundtrip:
  assumes "req_ok req" "id_ok i" "id_ok x"
  shows "dispatch_command_frame install (command_text (WsCancel req i x)) = Some (WsCancel req i x)"
proof -
  note r = req_okD [OF assms(1)]
  let ?p = "command_text (WsCancel req i x)"
  have "json_find_value ?p ''type'' = Some ''cancel''"
    using json_find_value_string [of "''type''" ?p "''cancel''"] by (simp add: command_text.simps scan)
  moreover have "json_find_value ?p ''req'' = Some req"
    using json_find_value_string [of "''req''" ?p req] by (simp add: command_text.simps scan r)
  moreover have "uint_field ?p ''i'' = i" using uint_field_at [of "''i''" ?p i] assms(2) by (simp add: command_text.simps scan r)
  moreover have "uint_field ?p ''id'' = x" using uint_field_at [of "''id''" ?p x] assms(3) by (simp add: command_text.simps scan r)
  ultimately show ?thesis by (simp add: dispatch_simps)
qed

lemma modify_roundtrip:
  assumes "req_ok req" "id_ok i" "id_ok x" "in_i64 q" "in_i64 px"
  shows "dispatch_command_frame install (command_text (WsModify req i x q px)) = Some (WsModify req i x q px)"
proof -
  note r = req_okD [OF assms(1)]
  let ?p = "command_text (WsModify req i x q px)"
  have "json_find_value ?p ''type'' = Some ''modify''"
    using json_find_value_string [of "''type''" ?p "''modify''"] by (simp add: command_text.simps scan)
  moreover have "json_find_value ?p ''req'' = Some req"
    using json_find_value_string [of "''req''" ?p req] by (simp add: command_text.simps scan r)
  moreover have "uint_field ?p ''i'' = i" "uint_field ?p ''id'' = x"
    using uint_field_at [of "''i''" ?p i] uint_field_at [of "''id''" ?p x] assms(2,3) by (simp_all add: command_text.simps scan r)
  moreover have "int_field ?p ''qty'' = q" "int_field ?p ''px'' = px"
    using int_field_at [of "''qty''" ?p q] int_field_at [of "''px''" ?p px] assms(4,5) by (simp_all add: command_text.simps scan r)
  ultimately show ?thesis by (simp add: dispatch_simps)
qed

lemma submit_roundtrip:
  assumes "req_ok req" "id_ok i" "id_ok trader" "side \<in> {0, 1}" "in_i64 px" "in_i64 q" "tif \<in> {''GTC'', ''IOC'', ''FOK''}"
  shows "dispatch_command_frame install (command_text (WsSubmit req i trader side px q tif)) =
    Some (WsSubmit req i trader side px q tif)"
proof -
  note r = req_okD [OF assms(1)]
  have tq: "quote \<notin> set tif" using assms(7) by auto
  have sd: "0 \<le> side" "in_i64 side" using assms(4) by (auto simp: in_i64_def)
  let ?p = "command_text (WsSubmit req i trader side px q tif)"
  have "json_find_value ?p ''type'' = Some ''submit''"
    using json_find_value_string [of "''type''" ?p "''submit''"] by (simp add: command_text.simps scan)
  moreover have "json_find_value ?p ''req'' = Some req"
    using json_find_value_string [of "''req''" ?p req] by (simp add: command_text.simps scan r)
  moreover have "uint_field ?p ''i'' = i" "uint_field ?p ''trader'' = trader"
    using uint_field_at [of "''i''" ?p i] uint_field_at [of "''trader''" ?p trader] assms(2,3)
    by (simp_all add: command_text.simps scan r)
  moreover have "uint_field ?p ''side'' = word_of_int side"
    using uint_field_int [of "''side''" ?p side] sd by (simp add: command_text.simps scan r)
  moreover have "int_field ?p ''px'' = px" "int_field ?p ''qty'' = q"
    using int_field_at [of "''px''" ?p px] int_field_at [of "''qty''" ?p q] assms(5,6) by (simp_all add: command_text.simps scan r)
  moreover have "json_find_value ?p ''tif'' = Some tif"
    using json_find_value_string [of "''tif''" ?p tif] tq by (simp add: command_text.simps scan r)
  moreover have "tif \<noteq> ''''" "to_int32 (word_of_int side) = side" using assms(4,7) by (auto simp: to_int32_def)
  ultimately show ?thesis by (simp add: dispatch_simps string_field_def)
qed

lemma command_roundtrip: "command_ok c \<Longrightarrow> dispatch_command_frame install (command_text c) = Some c"
  by (cases c) (simp_all add: ping_roundtrip cancel_roundtrip modify_roundtrip submit_roundtrip)

lemma serve_text_frames:
  assumes "\<forall>(k, p) \<in> set kps. length k = 4 \<and> length p + 14 < 2 ^ 64"
  shows "serve_frames (concat (map (\<lambda>(k, p). client_frame 1 k p) kps)) = (map (\<lambda>(k, p). OnText p) kps, [], Serving)"
  using assms
proof (induction kps)
  case Nil
  then show ?case by (simp add: serve_frames.simps next_frame_def)
next
  case (Cons kp kps)
  obtain k p where kp: "kp = (k, p)" by (cases kp)
  let ?rest = "concat (map (\<lambda>(k, p). client_frame 1 k p) kps)"
  have "next_frame (client_frame 1 k p @ ?rest) = NextFrame 1 p ?rest" using Cons.prems kp by (intro next_frame_client) simp_all
  moreover have "serve_frames ?rest = (map (\<lambda>(k, p). OnText p) kps, [], Serving)" using Cons by simp
  ultimately show ?case using serve_frames.simps [of "client_frame 1 k p @ ?rest"] by (simp add: kp frame_action_def)
qed

lemma serve_chunks_commands:
  assumes "concat chunks = concat (map (\<lambda>(k, c). client_frame 1 k (command_text c)) kcs)"
    and "\<forall>(k, c) \<in> set kcs. length k = 4 \<and> command_ok c \<and> length (command_text c) + 14 < 2 ^ 64"
  shows "\<exists>left. serve_chunks [] chunks = (map (OnText \<circ> command_text) (map snd kcs), left, Serving)"
proof -
  have "serve_frames (concat chunks) = (map (OnText \<circ> command_text) (map snd kcs), [], Serving)"
    using serve_text_frames [of "map (\<lambda>(k, c). (k, command_text c)) kcs"] assms
    by (simp add: comp_def case_prod_unfold)
  then show ?thesis
    using serve_chunks_concat [of "[]" chunks] by (auto simp: serve_frames.simps [of "[]"] next_frame_def split: prod.splits)
qed

section \<open>Properties\<close>

text \<open>
  End to end over the wire: a client sends commands, each as a masked text frame with a key of its
  own, and the transport cuts the bytes as it likes. The server sees exactly those texts in their
  order, stays in service, and the command dispatcher recovers every command with all its fields,
  provided the request ids contain no quote and are not themselves field names, ids are below
  \<open>2 ^ 63\<close> and the side is 0 or 1.
\<close>

theorem ws_commands_delivered:
  assumes "concat chunks = concat (map (\<lambda>(k, c). client_frame 1 k (command_text c)) kcs)"
    and "\<forall>(k, c) \<in> set kcs. length k = 4 \<and> command_ok c \<and> length (command_text c) + 14 < 2 ^ 64"
  shows "\<exists>texts left. serve_chunks [] chunks = (map OnText texts, left, Serving) \<and>
    map (dispatch_command_frame install) texts = map (\<lambda>(k, c). Some c) kcs"
proof -
  have "map (dispatch_command_frame install) (map command_text (map snd kcs)) = map (\<lambda>(k, c). Some c) kcs"
    using assms(2) by (auto simp: command_roundtrip)
  with serve_chunks_commands [OF assms] show ?thesis by (metis map_map)
qed

theorem ws_commands_delivered_witness:
  "\<exists>texts left. serve_chunks [] [take 3 (client_frame 1 ''k3y!'' (command_text (WsPing ''7''))),
       drop 3 (client_frame 1 ''k3y!'' (command_text (WsPing ''7'')))] = (map OnText texts, left, Serving) \<and>
     map (dispatch_command_frame install) texts = [Some (WsPing ''7'')]"
  using ws_commands_delivered [of "[take 3 (client_frame 1 ''k3y!'' (command_text (WsPing ''7''))),
       drop 3 (client_frame 1 ''k3y!'' (command_text (WsPing ''7'')))]" "[(''k3y!'', WsPing ''7'')]"]
  by (simp add: command_text.simps req_ok_def field_names_def)

text \<open>
  The lookup takes a value for a field name: a request whose request id is the text \<open>id\<close> loses its
  order id, and the cancel goes to order 0 instead of the order it names.
\<close>

theorem ws_request_id_shadows_field:
  assumes "id_ok i"
  shows "dispatch_command_frame install (command_text (WsCancel ''id'' i x)) = Some (WsCancel ''id'' i 0)"
proof -
  let ?p = "command_text (WsCancel ''id'' i x)"
  have "json_find_value ?p ''type'' = Some ''cancel''"
    using json_find_value_string [of "''type''" ?p "''cancel''"] by (simp add: command_text.simps scan)
  moreover have "json_find_value ?p ''req'' = Some ''id''"
    using json_find_value_string [of "''req''" ?p "''id''"] by (simp add: command_text.simps scan)
  moreover have "uint_field ?p ''i'' = i" using uint_field_at [of "''i''" ?p i] assms by (simp add: command_text.simps scan)
  moreover have "json_find_value ?p ''id'' = None"
    by (simp add: json_find_value_after command_text.simps scan blank_def)
  ultimately show ?thesis by (simp add: dispatch_simps uint_field_def [of _ "''id''"] json_get_uint_def json_get_int_def)
qed

theorem ws_request_id_shadows_field_witness:
  "dispatch_command_frame install (command_text (WsCancel ''id'' 1 42)) = Some (WsCancel ''id'' 1 0)"
  by (rule ws_request_id_shadows_field) (simp add: id_ok_def)

end
