(* ===== verification/Ws_Gateway.thy ===== *)
theory Ws_Gateway
  imports Gateway Ws_Commands
begin

text \<open>
  The peers of the WebSocket server (\<^verbatim>\<open>WsPeer\<close> and the tables of \<^verbatim>\<open>WsServer\<close> in
  \<^verbatim>\<open>networking/ws_server.hpp\<close>, \<^verbatim>\<open>networking/ws_server.cpp\<close>) and the WebSocket gateway
  (\<^verbatim>\<open>networking/ws_gateway.cpp\<close>), which runs the commands of the peers on the engine, answers the
  peer, and lets the publisher feed every peer.

  A shared pointer to a peer is a handle, the position of the peer among all peers ever created. What
  is handed to the socket of a peer is recorded with it; the callers ignore whether the transport
  took it. Every command holds the engine's mutex, so that commands of several peers happen one
  after the other, in some order.
\<close>

section \<open>Peers\<close>

record WsPeer =
  wp_id :: "64 word"
  wp_open :: bool
  wp_sent :: "string list"

type_synonym PeerHandle = nat

record WsServer =
  ws_running :: bool
  ws_objects :: "WsPeer list"
  ws_peer_ids :: "64 word list"
  ws_peers :: "(64 word \<times> PeerHandle) list"
  ws_listener :: ListenerId

definition new_WsPeer :: "64 word \<Rightarrow> WsPeer" where
  "new_WsPeer x = \<lparr>wp_id = x, wp_open = True, wp_sent = []\<rparr>"

definition new_WsServer :: "ListenerId \<Rightarrow> WsServer" where
  "new_WsServer l = \<lparr>ws_running = False, ws_objects = [], ws_peer_ids = [], ws_peers = [], ws_listener = l\<rparr>"

definition on_peer :: "(WsPeer \<Rightarrow> WsPeer) \<Rightarrow> PeerHandle \<Rightarrow> WsServer \<Rightarrow> WsServer" where
  "on_peer f h s = s\<lparr>ws_objects := (ws_objects s)[h := f (ws_objects s ! h)]\<rparr>"

text \<open>The bytes of \<^verbatim>\<open>send_all\<close> on the descriptor of a peer; a closed peer has none.\<close>

definition send_all :: "string \<Rightarrow> WsPeer \<Rightarrow> WsPeer" where
  "send_all bytes p = (if wp_open p then p\<lparr>wp_sent := wp_sent p @ [bytes]\<rparr> else p)"

definition send_text :: "string \<Rightarrow> WsPeer \<Rightarrow> WsPeer" where
  "send_text payload p = (if \<not> wp_open p then p else send_all (ws_encode_server_frame True payload) p)"

definition close_internal :: "WsPeer \<Rightarrow> WsPeer" where
  "close_internal p = p\<lparr>wp_open := False\<rparr>"

text \<open>
  \<open>close\<close>. Here and above, a send is the bytes handed over; that \<^verbatim>\<open>send\<close> blocks until the client takes them is looked at in Ws_Stop. The
  descriptor \<open>fd_\<close> is a plain integer that \<open>close_internal\<close> overwrites while other threads may read it: this data race is not modelled, a
  send sees a peer that is either open or closed.
\<close>

definition peer_close :: "nat \<Rightarrow> WsPeer \<Rightarrow> WsPeer" where
  "peer_close code p = close_internal (send_all (close_frame code) p)"

section \<open>The tables of the server\<close>

definition WsServer_start :: "Publisher \<Rightarrow> WsServer \<Rightarrow> Publisher \<times> WsServer" where
  "WsServer_start pub s = (subscribe (ws_listener s) pub, s\<lparr>ws_running := True\<rparr>)"

text \<open>
  One accepted connection: the new peer's id is the number of ids in use plus one; then the peer is created
  and registered, unless its id is registered already. The two tables have a mutex each, so that other threads may
  come in between; \<open>accept_peer\<close> is the case in which none does.
\<close>

definition take_id :: "WsServer \<Rightarrow> 64 word \<times> WsServer" where
  "take_id s = (let x = of_nat (length (ws_peer_ids s)) + 1 in (x, s\<lparr>ws_peer_ids := List.insert x (ws_peer_ids s)\<rparr>))"

definition register_peer :: "64 word \<Rightarrow> WsServer \<Rightarrow> PeerHandle \<times> WsServer" where
  "register_peer x s =
     (let h = length (ws_objects s)
      in (h, s\<lparr>ws_objects := ws_objects s @ [new_WsPeer x],
               ws_peers := if x \<in> fst ` set (ws_peers s) then ws_peers s else ws_peers s @ [(x, h)]\<rparr>))"

definition accept_peer :: "WsServer \<Rightarrow> WsServer" where
  "accept_peer s = (let (x, s1) = take_id s in snd (register_peer x s1))"

text \<open>The clean-up of a connection: its socket is closed, then its id leaves the two tables.\<close>

definition erase_peer :: "PeerHandle \<Rightarrow> WsServer \<Rightarrow> WsServer" where
  "erase_peer h s =
     (let x = wp_id (ws_objects s ! h)
      in s\<lparr>ws_peers := filter (\<lambda>(y, _). y \<noteq> x) (ws_peers s), ws_peer_ids := removeAll x (ws_peer_ids s)\<rparr>)"

definition cleanup_peer :: "PeerHandle \<Rightarrow> WsServer \<Rightarrow> WsServer" where
  "cleanup_peer h s = erase_peer h (on_peer close_internal h s)"

definition broadcast_text :: "string \<Rightarrow> WsServer \<Rightarrow> WsServer" where
  "broadcast_text payload s = fold (\<lambda>(_, h). on_peer (send_text payload) h) (ws_peers s) s"

text \<open>
  \<open>stop\<close>: the registered peers are closed, and the threads joined, which every thread with a closed
  peer lets happen. \<open>None\<close>: a thread whose peer is open and not registered is not woken, and the
  join waits for its client.
\<close>

definition WsServer_stop :: "Publisher \<Rightarrow> WsServer \<Rightarrow> (Publisher \<times> WsServer) option" where
  "WsServer_stop pub s =
     (let s1 = fold (\<lambda>(_, h). on_peer (peer_close 1001) h) (ws_peers s) (s\<lparr>ws_running := False\<rparr>)
      in if \<exists>p \<in> set (ws_objects s1). wp_open p then None
         else Some (unsubscribe (ws_listener s) pub, s1\<lparr>ws_peers := [], ws_peer_ids := []\<rparr>))"

section \<open>Market data for every peer\<close>

definition trade_text :: "Trade \<Rightarrow> string" where
  \<open>trade_text t = snprintf 256
     (''{"type":"trade","i":'' @ word_string (t_instrument_id t) @ '',"buy":'' @ word_string (buy_order_id t) @
      '',"sell":'' @ word_string (sell_order_id t) @ '',"px":'' @ int_string (ticks (t_price t)) @
      '',"qty":'' @ int_string (qty (t_quantity t)) @ '',"seq":'' @ word_string (t_sequence t) @ ''}'')\<close>

definition tob_text :: "TopOfBookSnapshot \<Rightarrow> string" where
  \<open>tob_text s = snprintf 256
     (''{"type":"tob","i":'' @ word_string (s_instrument s) @
      '',"b":'' @ int_string (if has_bid s then ticks (s_bid_price s) else 0) @
      '',"bq":'' @ int_string (if has_bid s then qty (s_bid_qty s) else 0) @
      '',"a":'' @ int_string (if has_ask s then ticks (s_ask_price s) else 0) @
      '',"aq":'' @ int_string (if has_ask s then qty (s_ask_qty s) else 0) @
      '',"hb":'' @ int_string (if has_bid s then 1 else 0) @ '',"ha":'' @ int_string (if has_ask s then 1 else 0) @ ''}'')\<close>

definition on_publisher_event :: "Event \<Rightarrow> WsServer \<Rightarrow> WsServer" where
  "on_publisher_event e s = (if e_kind e = TradeEvent then broadcast_text (trade_text (e_trade e)) s else s)"

definition on_publisher_tob :: "Engine \<Rightarrow> Publisher \<Rightarrow> InstrumentId \<Rightarrow> WsServer \<Rightarrow> WsServer option" where
  "on_publisher_tob eng pub i s =
     (case top_of_book eng i pub of None \<Rightarrow> None | Some tob \<Rightarrow> Some (broadcast_text (tob_text tob) s))"

text \<open>The listener of the server receives those of the publisher's calls that are addressed to it.\<close>

fun Listener_on :: "Engine \<Rightarrow> Publisher \<Rightarrow> ListenerId \<times> ListenerCall \<Rightarrow> WsServer \<Rightarrow> WsServer option" where
  "Listener_on eng pub (l, ListenerEvent e) s = Some (if l = ws_listener s then on_publisher_event e s else s)"
| "Listener_on eng pub (l, ListenerTob tob) s =
     (if l = ws_listener s then on_publisher_tob eng pub (s_instrument tob) s else Some s)"

section \<open>Commands\<close>

record WsGateway =
  wg_engine :: Engine
  wg_publisher :: Publisher
  wg_server :: WsServer
  wg_served :: nat

definition reply :: "PeerHandle \<Rightarrow> string \<Rightarrow> WsGateway \<Rightarrow> WsGateway" where
  "reply h payload g = g\<lparr>wg_server := on_peer (send_text payload) h (wg_server g)\<rparr>"

text \<open>The text of a status; a rejection has a reply of its own.\<close>

definition submit_reply :: "string \<Rightarrow> SubmitResult \<Rightarrow> string" where
  \<open>submit_reply req r =
     (if sr_status r = Rejected
      then snprintf 512 (''{"type":"submit_result","req":"'' @ c_str req @
             ''","status":"REJECTED","reason":"'' @ c_str (reject_reason r) @ ''"}'')
      else snprintf 512 (''{"type":"submit_result","req":"'' @ c_str req @ ''","status":"'' @ status_word (sr_status r) @
             ''","id":'' @ word_string (sr_order_id r) @ '',"i":'' @ word_string (sr_instrument_id r) @
             '',"seq":'' @ word_string (sr_sequence r) @ '',"filled":'' @ int_string (qty (filled_quantity r)) @
             '',"resting":'' @ int_string (qty (resting_quantity r)) @ ''}''))\<close>

definition PerPeerSink_on ::
    "PeerHandle \<Rightarrow> string \<Rightarrow> SinkEvent \<times> Engine \<Rightarrow> WsGateway \<Rightarrow> WsGateway option" where
  "PerPeerSink_on h req ev g =
     do { (pub, calls) \<leftarrow> publisher_on ev (wg_publisher g);
          s \<leftarrow> run_steps (Listener_on (snd ev) pub) calls (wg_server g);
          let g1 = g\<lparr>wg_publisher := pub, wg_server := s\<rparr>;
          Some (case fst ev of OnTrade t \<Rightarrow> g1 | OnSubmitResult r \<Rightarrow> reply h (submit_reply req r) g1) }"

definition tif_of :: "string \<Rightarrow> TimeInForce" where
  "tif_of tif = (if tif = ''IOC'' then IOC else if tif = ''FOK'' then FOK else GTC)"

definition cancel_reply :: "string \<Rightarrow> bool \<Rightarrow> InstrumentId \<Rightarrow> OrderId \<Rightarrow> string" where
  \<open>cancel_reply req ok i x = snprintf 256 (''{"type":"cancel_result","req":"'' @ c_str req @ ''","ok":'' @
     (if ok then ''true'' else ''false'') @ '',"i":'' @ word_string i @ '',"id":'' @ word_string x @ ''}'')\<close>

definition modify_word :: "ModifyResult \<Rightarrow> string" where
  "modify_word r = (case r of
     Modified \<Rightarrow> ''MODIFIED'' | Replaced \<Rightarrow> ''REPLACED'' | NotFound \<Rightarrow> ''NOT_FOUND'' | ModifyRejected \<Rightarrow> ''REJECTED'')"

definition modify_reply :: "string \<Rightarrow> ModifyResult \<Rightarrow> InstrumentId \<Rightarrow> OrderId \<Rightarrow> string" where
  \<open>modify_reply req r i x = snprintf 256 (''{"type":"modify_result","req":"'' @ c_str req @ ''","status":"'' @
     modify_word r @ ''","i":'' @ word_string i @ '',"id":'' @ word_string x @ ''}'')\<close>

definition ping_reply :: "string \<Rightarrow> string" where
  \<open>ping_reply req = snprintf 64 (''{"type":"pong","req":"'' @ c_str req @ ''"}'')\<close>

text \<open>
  The four callbacks. \<open>env\<close>, \<open>nows\<close> and \<open>stamps\<close> give the \<open>n\<close>-th command its environment, the clock
  of the risk checks and the time stamp of the order.
\<close>

fun on_command ::
    "(nat \<Rightarrow> Env) \<Rightarrow> (nat \<Rightarrow> nat \<Rightarrow> int) \<Rightarrow> (nat \<Rightarrow> Timestamp) \<Rightarrow> PeerHandle \<times> WsCommand \<Rightarrow> WsGateway \<Rightarrow> WsGateway option" where
  "on_command env nows stamps (h, WsSubmit req i trader side px q tif) g =
     do { (e', trace) \<leftarrow> submit_limit (env (wg_served g)) (nows (wg_served g)) (stamps (wg_served g)) i trader
            (if side = 0 then Buy else Sell) (Price px) (Quantity q) (tif_of tif) (wg_engine g);
          run_steps (PerPeerSink_on h req) trace (g\<lparr>wg_engine := e', wg_served := wg_served g + 1\<rparr>) }"
| "on_command env nows stamps (h, WsCancel req i x) g =
     do { (ok, e') \<leftarrow> engine_cancel i x (wg_engine g);
          Some (reply h (cancel_reply req ok i x) (g\<lparr>wg_engine := e', wg_served := wg_served g + 1\<rparr>)) }"
| "on_command env nows stamps (h, WsModify req i x q px) g =
     do { (r, e') \<leftarrow> engine_modify i x (Quantity q) (Price px) (wg_engine g);
          Some (reply h (modify_reply req r i x) (g\<lparr>wg_engine := e', wg_served := wg_served g + 1\<rparr>)) }"
| "on_command env nows stamps (h, WsPing req) g = Some (reply h (ping_reply req) (g\<lparr>wg_served := wg_served g + 1\<rparr>))"

section \<open>A connection\<close>

fun perform ::
    "(nat \<Rightarrow> Env) \<Rightarrow> (nat \<Rightarrow> nat \<Rightarrow> int) \<Rightarrow> (nat \<Rightarrow> Timestamp) \<Rightarrow> PeerHandle \<Rightarrow> WsAction \<Rightarrow> WsGateway \<Rightarrow> WsGateway option" where
  "perform env nows stamps h (SendBytes bytes) g = Some (g\<lparr>wg_server := on_peer (send_all bytes) h (wg_server g)\<rparr>)"
| "perform env nows stamps h (OnText payload) g =
     (case dispatch_command_frame install payload of None \<Rightarrow> Some g | Some c \<Rightarrow> on_command env nows stamps (h, c) g)"
| "perform env nows stamps h (OnBinary payload) g = Some g"
| "perform env nows stamps h (PeerClose code) g = Some (g\<lparr>wg_server := on_peer (peer_close code) h (wg_server g)\<rparr>)"

text \<open>
  The thread of a peer from the request to the end of its input, when no other peer is served in
  between. \<open>None\<close>: the process is gone, by undefined behaviour or by the exception of a wrapped length.
\<close>

definition serve_peer ::
    "(string \<Rightarrow> string) \<Rightarrow> (nat \<Rightarrow> Env) \<Rightarrow> (nat \<Rightarrow> nat \<Rightarrow> int) \<Rightarrow> (nat \<Rightarrow> Timestamp) \<Rightarrow> PeerHandle \<Rightarrow> string list \<Rightarrow>
     WsGateway \<Rightarrow> WsGateway option" where
  "serve_peer sha1 env nows stamps h chunks g =
     (let leave = (\<lambda>g. g\<lparr>wg_server := cleanup_peer h (wg_server g)\<rparr>);
          send = (\<lambda>bytes g. g\<lparr>wg_server := on_peer (send_all bytes) h (wg_server g)\<rparr>)
      in case read_upgrade [] chunks of
           None \<Rightarrow> Some (leave g)
         | Some (req, rest) \<Rightarrow>
             (case handshake sha1 req of
                Drop \<Rightarrow> Some (leave g)
              | Refuse resp \<Rightarrow> Some (leave (send resp g))
              | Upgrade resp \<Rightarrow>
                  (let (acts, _, status) = serve_chunks [] rest
                   in do { g' \<leftarrow> run_steps (perform env nows stamps h) acts (send resp g);
                           if status = Crashed then None else Some (leave g') })))"

section \<open>What a command should do\<close>

fun call_texts :: "Engine \<Rightarrow> Publisher \<Rightarrow> ListenerId \<Rightarrow> ListenerId \<times> ListenerCall \<Rightarrow> string list" where
  "call_texts eng pub l (l', ListenerEvent e) = (if l' = l \<and> e_kind e = TradeEvent then [trade_text (e_trade e)] else [])"
| "call_texts eng pub l (l', ListenerTob tob) =
     (if l' = l then [tob_text (the (top_of_book eng (s_instrument tob) pub))] else [])"

fun sink_texts :: "ListenerId \<Rightarrow> SinkTrace \<Rightarrow> Publisher \<Rightarrow> string list" where
  "sink_texts l [] pub = []"
| "sink_texts l (ev # evs) pub =
     (case publisher_on ev pub of
        None \<Rightarrow> []
      | Some (pub', calls) \<Rightarrow> concat (map (call_texts (snd ev) pub' l) calls) @ sink_texts l evs pub')"

definition final_result :: "SinkTrace \<Rightarrow> SubmitResult" where
  "final_result trace = (case fst (last trace) of OnSubmitResult r \<Rightarrow> r | OnTrade t \<Rightarrow> SubmitResult_init)"

text \<open>The engine command of a request.\<close>

fun ws_engine_command :: "Env \<Rightarrow> (nat \<Rightarrow> int) \<Rightarrow> Timestamp \<Rightarrow> WsCommand \<Rightarrow> EngineCommand option" where
  "ws_engine_command env nows stamp (WsSubmit req i trader side px q tif) =
     Some (SubmitCmd env nows (Some (Order_init\<lparr>o_id := 0, o_trader_id := trader, o_instrument_id := i,
       o_side := (if side = 0 then Buy else Sell), o_type := Limit, o_tif := tif_of tif, o_price := Price px, o_quantity := Quantity q,
       o_remaining := Quantity q, o_timestamp := stamp\<rparr>)))"
| "ws_engine_command env nows stamp (WsCancel req i x) = Some (CancelCmd i x)"
| "ws_engine_command env nows stamp (WsModify req i x q px) = Some (ModifyCmd i x (Quantity q) (Price px))"
| "ws_engine_command env nows stamp (WsPing req) = None"

text \<open>The texts for every registered peer, and the reply for the peer that asked.\<close>

fun ws_outcome :: "Env \<Rightarrow> (nat \<Rightarrow> int) \<Rightarrow> Timestamp \<Rightarrow> ListenerId \<Rightarrow> WsCommand \<Rightarrow> Engine \<Rightarrow> Publisher \<Rightarrow>
     (string list \<times> string) option" where
  "ws_outcome env nows stamp l (WsSubmit req i trader side px q tif) e pub =
     do { (_, trace) \<leftarrow> submit_limit env nows stamp i trader (if side = 0 then Buy else Sell) (Price px) (Quantity q) (tif_of tif) e;
          Some (sink_texts l trace pub, submit_reply req (final_result trace)) }"
| "ws_outcome env nows stamp l (WsCancel req i x) e pub =
     do { (ok, _) \<leftarrow> engine_cancel i x e; Some ([], cancel_reply req ok i x) }"
| "ws_outcome env nows stamp l (WsModify req i x q px) e pub =
     do { (r, _) \<leftarrow> engine_modify i x (Quantity q) (Price px) e; Some ([], modify_reply req r i x) }"
| "ws_outcome env nows stamp l (WsPing req) e pub = Some ([], ping_reply req)"

definition registered :: "WsServer \<Rightarrow> PeerHandle \<Rightarrow> bool" where
  "registered s h \<longleftrightarrow> h \<in> snd ` set (ws_peers s)"

definition server_inv :: "WsServer \<Rightarrow> bool" where
  "server_inv s \<longleftrightarrow> distinct (ws_peer_ids s) \<and> distinct (map fst (ws_peers s)) \<and>
     (\<forall>(x, h) \<in> set (ws_peers s). h < length (ws_objects s) \<and> wp_id (ws_objects s ! h) = x)"

text \<open>
  The texts sent to a peer; the invariants; what a command needs; what each peer is sent.
\<close>

definition send_texts :: "string list \<Rightarrow> WsPeer \<Rightarrow> WsPeer" where
  "send_texts ts p = (if wp_open p then p\<lparr>wp_sent := wp_sent p @ map (ws_encode_server_frame True) ts\<rparr> else p)"

definition books_inv :: "Engine \<Rightarrow> bool" where
  "books_inv e \<longleftrightarrow> (\<forall>i b. books e i = Some b \<longrightarrow> book_inv b)"

definition reply_of :: "PeerHandle \<Rightarrow> string \<Rightarrow> SinkEvent \<Rightarrow> WsGateway \<Rightarrow> WsGateway" where
  "reply_of h req ev g = (case ev of OnTrade t \<Rightarrow> g | OnSubmitResult r \<Rightarrow> reply h (submit_reply req r) g)"

definition ws_guard :: "(nat \<Rightarrow> Env) \<Rightarrow> (nat \<Rightarrow> nat \<Rightarrow> int) \<Rightarrow> (nat \<Rightarrow> Timestamp) \<Rightarrow> PeerHandle \<times> WsCommand \<Rightarrow> WsGateway \<Rightarrow> bool" where
  "ws_guard env nows stamps hc g \<longleftrightarrow> fst hc < length (ws_objects (wg_server g)) \<and>
     (case ws_engine_command (env (wg_served g)) (nows (wg_served g)) (stamps (wg_served g)) (snd hc) of
        None \<Rightarrow> True | Some c \<Rightarrow> engine_cmd_ok c (wg_engine g))"

definition ws_inv :: "WsGateway \<Rightarrow> bool" where
  "ws_inv g \<longleftrightarrow> engine_ok (wg_engine g) \<and> server_inv (wg_server g)"

definition delivered :: "PeerHandle \<Rightarrow> string list \<Rightarrow> string \<Rightarrow> WsServer \<Rightarrow> WsServer \<Rightarrow> bool" where
  "delivered h texts r s s' \<longleftrightarrow> length (ws_objects s') = length (ws_objects s) \<and> ws_peers s' = ws_peers s \<and>
     (\<forall>k < length (ws_objects s). ws_objects s' ! k =
        send_texts ((if registered s k then texts else []) @ (if k = h then [r] else [])) (ws_objects s ! k))"

definition example_gateway :: WsGateway where
  "example_gateway = \<lparr>wg_engine = demo_engine, wg_publisher = subscribe 7 new_Publisher,
     wg_server = accept_peer (accept_peer (new_WsServer 7)), wg_served = 0\<rparr>"

text \<open>What threads do to the peers and the tables, one operation at a time.\<close>

datatype PeerOp =
  TakeId | RegisterPeer "64 word" | LeavePeer PeerHandle | BroadcastText string | SendTo PeerHandle string | ClosePeer PeerHandle nat

fun peer_op :: "PeerOp \<Rightarrow> WsServer \<Rightarrow> WsServer option" where
  "peer_op TakeId s = Some (snd (take_id s))"
| "peer_op (RegisterPeer x) s = Some (snd (register_peer x s))"
| "peer_op (LeavePeer h) s = Some (cleanup_peer h s)"
| "peer_op (BroadcastText t) s = Some (broadcast_text t s)"
| "peer_op (SendTo h t) s = Some (on_peer (send_text t) h s)"
| "peer_op (ClosePeer h code) s = Some (on_peer (peer_close code) h s)"

fun peer_op_ok :: "PeerOp \<Rightarrow> WsServer \<Rightarrow> bool" where
  "peer_op_ok (LeavePeer h) s \<longleftrightarrow> h < length (ws_objects s)"
| "peer_op_ok (SendTo h t) s \<longleftrightarrow> h < length (ws_objects s)"
| "peer_op_ok (ClosePeer h code) s \<longleftrightarrow> h < length (ws_objects s)"
| "peer_op_ok _ s \<longleftrightarrow> True"

section \<open>Peers: lemmas\<close>

lemma on_peer_fields [simp]:
  "ws_peers (on_peer f h s) = ws_peers s" "ws_peer_ids (on_peer f h s) = ws_peer_ids s"
  "ws_listener (on_peer f h s) = ws_listener s" "length (ws_objects (on_peer f h s)) = length (ws_objects s)"
  "ws_running (on_peer f h s) = ws_running s"
  by (simp_all add: on_peer_def)

lemma on_peer_nth: "k < length (ws_objects s) \<Longrightarrow> ws_objects (on_peer f h s) ! k = (if k = h then f (ws_objects s ! k) else ws_objects s ! k)"
  by (simp add: on_peer_def nth_list_update)

lemma fold_on_peer_fields [simp]:
  "ws_peers (fold (\<lambda>(_, h). on_peer f h) ps s) = ws_peers s" "ws_peer_ids (fold (\<lambda>(_, h). on_peer f h) ps s) = ws_peer_ids s"
  "ws_listener (fold (\<lambda>(_, h). on_peer f h) ps s) = ws_listener s"
  "length (ws_objects (fold (\<lambda>(_, h). on_peer f h) ps s)) = length (ws_objects s)"
  "ws_running (fold (\<lambda>(_, h). on_peer f h) ps s) = ws_running s"
  by (induction ps arbitrary: s) (auto split: prod.splits)

lemma fold_on_peer_nth:
  "distinct (map snd ps) \<Longrightarrow> k < length (ws_objects s) \<Longrightarrow>
   ws_objects (fold (\<lambda>(_, h). on_peer f h) ps s) ! k = (if k \<in> snd ` set ps then f (ws_objects s ! k) else ws_objects s ! k)"
  by (induction ps arbitrary: s) (force simp: on_peer_nth image_iff split: prod.splits)+

lemma handles_distinct: "server_inv s \<Longrightarrow> distinct (map snd (ws_peers s))"
proof -
  assume s: "server_inv s"
  then have "(x, h) \<in> set (ws_peers s) \<Longrightarrow> x = wp_id (ws_objects s ! h)" for x h by (auto simp: server_inv_def)
  then have "inj_on snd (set (ws_peers s))" by (intro inj_onI) (metis prod.collapse)
  moreover have "distinct (ws_peers s)" using s by (auto simp: server_inv_def distinct_map)
  ultimately show ?thesis by (simp add: distinct_map)
qed

lemma send_fields [simp]: "wp_id (send_all b p) = wp_id p" "wp_open (send_all b p) = wp_open p"
  "wp_id (send_text b p) = wp_id p" "wp_open (send_text b p) = wp_open p"
  "wp_id (close_internal p) = wp_id p" "\<not> wp_open (close_internal p)"
  by (simp_all add: send_all_def send_text_def close_internal_def)

lemma send_texts_simps [simp]: "send_texts [] p = p" "send_texts us (send_texts ts p) = send_texts (ts @ us) p"
  "send_text t p = send_texts [t] p"
  by (simp_all add: send_texts_def send_text_def send_all_def)

lemma send_texts_fields [simp]: "wp_id (send_texts ts p) = wp_id p" "wp_open (send_texts ts p) = wp_open p"
  by (simp_all add: send_texts_def)

lemma broadcast_fields [simp]:
  "ws_peers (broadcast_text t s) = ws_peers s" "ws_peer_ids (broadcast_text t s) = ws_peer_ids s"
  "ws_listener (broadcast_text t s) = ws_listener s" "length (ws_objects (broadcast_text t s)) = length (ws_objects s)"
  "ws_running (broadcast_text t s) = ws_running s"
  by (simp_all add: broadcast_text_def)

lemma broadcast_nth:
  "server_inv s \<Longrightarrow> k < length (ws_objects s) \<Longrightarrow>
   ws_objects (broadcast_text t s) ! k = (if registered s k then send_texts [t] (ws_objects s ! k) else ws_objects s ! k)"
  by (simp add: broadcast_text_def fold_on_peer_nth handles_distinct registered_def)

text \<open>An operation that changes peers but not their ids keeps the tables in order.\<close>

lemma server_inv_frame:
  assumes "server_inv s" "ws_peers s' = ws_peers s" "ws_peer_ids s' = ws_peer_ids s"
    and "length (ws_objects s') = length (ws_objects s)"
    and "\<And>k. k < length (ws_objects s) \<Longrightarrow> wp_id (ws_objects s' ! k) = wp_id (ws_objects s ! k)"
  shows "server_inv s'"
  using assms unfolding server_inv_def by (simp add: case_prod_unfold)

lemma server_inv_broadcast: "server_inv s \<Longrightarrow> server_inv (broadcast_text t s)"
  by (rule server_inv_frame [of s]) (simp_all add: broadcast_nth)

lemma fold_broadcast_fields [simp]:
  "ws_peers (fold broadcast_text ts s) = ws_peers s" "ws_peer_ids (fold broadcast_text ts s) = ws_peer_ids s"
  "ws_listener (fold broadcast_text ts s) = ws_listener s" "length (ws_objects (fold broadcast_text ts s)) = length (ws_objects s)"
  "ws_running (fold broadcast_text ts s) = ws_running s"
  by (induction ts arbitrary: s) simp_all

lemma fold_broadcast_nth:
  "server_inv s \<Longrightarrow> k < length (ws_objects s) \<Longrightarrow>
   ws_objects (fold broadcast_text ts s) ! k = (if registered s k then send_texts ts (ws_objects s ! k) else ws_objects s ! k)"
proof (induction ts arbitrary: s)
  case (Cons t ts)
  then show ?case using server_inv_broadcast [of s t] by (simp add: broadcast_nth registered_def)
qed simp

lemma server_inv_fold: "server_inv s \<Longrightarrow> server_inv (fold broadcast_text ts s)"
  by (rule server_inv_frame [of s]) (simp_all add: fold_broadcast_nth)

section \<open>The sink of a submission: lemmas\<close>

lemma top_of_book_total: "books_inv e \<Longrightarrow> \<exists>s. top_of_book e i p = Some s"
proof (cases "books e i")
  case None
  then show ?thesis by (cases "snapshots p i") (simp_all add: top_of_book_def book_def snapshot_of_def)
next
  case (Some b)
  assume "books_inv e"
  with Some have "book_inv b" by (simp add: books_inv_def)
  from snapshot_total [OF this] Some show ?thesis by (cases "snapshots p i") (auto simp: top_of_book_def book_def)
qed

lemma Listener_on_texts: "books_inv e \<Longrightarrow> Listener_on e pub call s = Some (fold broadcast_text (call_texts e pub (ws_listener s) call) s)"
proof (cases "snd call")
  case (ListenerTob tob)
  assume "books_inv e"
  from top_of_book_total [OF this, of "s_instrument tob" pub] ListenerTob show ?thesis
    by (cases call) (auto simp: on_publisher_tob_def)
qed (cases call, simp add: on_publisher_event_def)

lemma listener_calls:
  "books_inv e \<Longrightarrow> run_steps (Listener_on e pub) calls s =
     Some (fold broadcast_text (concat (map (call_texts e pub (ws_listener s)) calls)) s)"
  by (induction calls arbitrary: s) (simp_all add: Listener_on_texts)

lemma PerPeerSink_step:
  assumes "publisher_on ev (wg_publisher g) = Some (pub, calls)" "books_inv (snd ev)"
  shows "PerPeerSink_on h req ev g = Some (reply_of h req (fst ev) (g\<lparr>wg_publisher := pub, wg_server :=
    fold broadcast_text (concat (map (call_texts (snd ev) pub (ws_listener (wg_server g))) calls)) (wg_server g)\<rparr>))"
  using assms by (simp add: PerPeerSink_on_def listener_calls reply_of_def Let_def)

lemma PerPeerSink_trades:
  assumes "publish trades (wg_publisher g) = Some (pub, calls)" "\<forall>(a, en) \<in> set trades. (\<exists>t. a = OnTrade t) \<and> books_inv en"
  shows "run_steps (PerPeerSink_on h req) trades g = Some (g\<lparr>wg_publisher := pub, wg_server :=
    fold broadcast_text (sink_texts (ws_listener (wg_server g)) trades (wg_publisher g)) (wg_server g)\<rparr>)"
  using assms
proof (induction trades arbitrary: g calls)
  case (Cons ev trades)
  obtain t en where ev: "ev = (OnTrade t, en)" "books_inv en" using Cons.prems(2) by (cases ev) auto
  from Cons.prems(1) obtain p1 c1 c2 where p1: "publisher_on ev (wg_publisher g) = Some (p1, c1)" "publish trades p1 = Some (pub, c2)"
    by (auto split: bind_splits Option.bind_splits)
  let ?g = "g\<lparr>wg_publisher := p1, wg_server :=
    fold broadcast_text (concat (map (call_texts en p1 (ws_listener (wg_server g))) c1)) (wg_server g)\<rparr>"
  have "PerPeerSink_on h req ev g = Some ?g" using PerPeerSink_step [OF p1(1), of h req] ev by (simp add: reply_of_def)
  with Cons.IH [of ?g c2] Cons.prems(2) p1 ev(1) show ?case by simp
qed simp

lemma sink_texts_append:
  "publish evs pub = Some (pub', calls) \<Longrightarrow> sink_texts l (evs @ evs') pub = sink_texts l evs pub @ sink_texts l evs' pub'"
  by (induction evs arbitrary: pub calls) (auto split: bind_splits Option.bind_splits option.splits)

lemma submit_trace:
  assumes "engine_ok e" "engine_cmd_ok (SubmitCmd env nows order) e"
  obtains e' trades r where "submit env nows order e = Some (e', trades @ [(OnSubmitResult r, e')])"
    "\<forall>(a, en) \<in> set trades. (\<exists>t. a = OnTrade t) \<and> books_inv en" "books_inv e'"
    "publish (trades @ [(OnSubmitResult r, e')]) pub \<noteq> None"
proof -
  have inv: "books_inv e" using assms(1) by (auto simp: books_inv_def engine_ok_def book_ok_def)
  have "in_sync new_Publisher e" by (simp add: in_sync_def new_Publisher_def)
  from publish_submit_sync [OF assms this] obtain e1 trace where
    s: "submit env nows order e = Some (e1, trace)" "publish trace new_Publisher \<noteq> None" by auto
  with publish_success [of trace pub new_Publisher] have p: "publish trace pub \<noteq> None" by simp
  from assms show thesis
  proof (cases rule: submit_shape)
    case (rejected e' r)
    then have "books_inv e'" using inv by (simp add: books_inv_def)
    with rejected s p show thesis by (intro that [of e' "[]" r]) auto
  next
    case (accepted i b b1 b' e' trades r)
    have upd: "books_inv en" if "books en = (books e)(i \<mapsto> c)" "book_inv c" for en c using that inv by (auto simp: books_inv_def)
    have "\<forall>(a, en) \<in> set trades. (\<exists>t. a = OnTrade t) \<and> books_inv en"
      using accepted(3) upd unfolding callbacks_ok_def by blast
    moreover have "books_inv e'" using upd accepted(4,5) by blast
    ultimately show thesis using accepted(1) s p by (intro that [of e' trades r]) auto
  qed
qed

lemma submit_command:
  assumes "engine_ok (wg_engine g)" "engine_cmd_ok (SubmitCmd env nows order) (wg_engine g)"
  shows "\<exists>e' trace pub. submit env nows order (wg_engine g) = Some (e', trace) \<and>
    run_steps (PerPeerSink_on h req) trace (g\<lparr>wg_engine := e', wg_served := n\<rparr>) =
      Some (g\<lparr>wg_engine := e', wg_served := n, wg_publisher := pub,
        wg_server := on_peer (send_text (submit_reply req (final_result trace))) h
          (fold broadcast_text (sink_texts (ws_listener (wg_server g)) trace (wg_publisher g)) (wg_server g))\<rparr>)"
proof -
  obtain e' trades r where s: "submit env nows order (wg_engine g) = Some (e', trades @ [(OnSubmitResult r, e')])"
    and t: "\<forall>(a, en) \<in> set trades. (\<exists>t. a = OnTrade t) \<and> books_inv en" "books_inv e'"
    and p: "publish (trades @ [(OnSubmitResult r, e')]) (wg_publisher g) \<noteq> None"
    by (rule submit_trace [OF assms, where pub = "wg_publisher g"])
  from p obtain p1 c1 p2 c2 where p1: "publish trades (wg_publisher g) = Some (p1, c1)"
    "publisher_on (OnSubmitResult r, e') p1 = Some (p2, c2)"
    by (auto simp: publish_append split: bind_splits Option.bind_splits)
  let ?g = "g\<lparr>wg_engine := e', wg_served := n\<rparr>"
  let ?s = "fold broadcast_text (sink_texts (ws_listener (wg_server g)) trades (wg_publisher g)) (wg_server g)"
  have run: "run_steps (PerPeerSink_on h req) trades ?g = Some (?g\<lparr>wg_publisher := p1, wg_server := ?s\<rparr>)"
    using PerPeerSink_trades [of trades ?g p1 c1 h req] p1(1) t(1) by simp
  have "sink_texts (ws_listener (wg_server g)) (trades @ [(OnSubmitResult r, e')]) (wg_publisher g) =
    sink_texts (ws_listener (wg_server g)) trades (wg_publisher g) @ concat (map (call_texts e' p2 (ws_listener (wg_server g))) c2)"
    using sink_texts_append [OF p1(1)] p1(2) by simp
  then show ?thesis using s run PerPeerSink_step [of "(OnSubmitResult r, e')" "?g\<lparr>wg_publisher := p1, wg_server := ?s\<rparr>" p2 c2 h req] p1(2) t(2)
    by (auto simp: run_steps_append reply_of_def reply_def final_result_def)
qed

section \<open>Commands and tables: lemmas\<close>

lemma delivered_reply:
  assumes "server_inv s"
  shows "delivered h texts r s (on_peer (send_text r) h (fold broadcast_text texts s)) \<and>
    server_inv (on_peer (send_text r) h (fold broadcast_text texts s))"
proof
  show "delivered h texts r s (on_peer (send_text r) h (fold broadcast_text texts s))"
    using assms by (simp add: delivered_def on_peer_nth fold_broadcast_nth)
  show "server_inv (on_peer (send_text r) h (fold broadcast_text texts s))"
    using server_inv_fold [OF assms, of texts] by (rule server_inv_frame) (simp_all add: on_peer_nth)
qed

lemma on_command_refines:
  assumes "ws_inv g" "ws_guard env nows stamps (h, c) g"
  shows "\<exists>g' texts r. on_command env nows stamps (h, c) g = Some g' \<and> ws_inv g' \<and> wg_served g' = Suc (wg_served g) \<and>
    ws_outcome (env (wg_served g)) (nows (wg_served g)) (stamps (wg_served g)) (ws_listener (wg_server g)) c
      (wg_engine g) (wg_publisher g) = Some (texts, r) \<and>
    delivered h texts r (wg_server g) (wg_server g') \<and>
    (case ws_engine_command (env (wg_served g)) (nows (wg_served g)) (stamps (wg_served g)) c of
       None \<Rightarrow> wg_engine g' = wg_engine g | Some k \<Rightarrow> engine_step k (wg_engine g) = Some (wg_engine g'))"
proof -
  have ok: "engine_ok (wg_engine g)" and s: "server_inv (wg_server g)" using assms(1) by (simp_all add: ws_inv_def)
  note del = delivered_reply [OF s]
  show ?thesis
  proof (cases c)
    case (WsSubmit req i trader side px q tif)
    then obtain order where k: "ws_engine_command (env (wg_served g)) (nows (wg_served g)) (stamps (wg_served g)) c =
        Some (SubmitCmd (env (wg_served g)) (nows (wg_served g)) order)"
      and o: "order = Some (Order_init\<lparr>o_id := 0, o_trader_id := trader, o_instrument_id := i,
       o_side := (if side = 0 then Buy else Sell), o_type := Limit, o_tif := tif_of tif, o_price := Price px, o_quantity := Quantity q,
       o_remaining := Quantity q, o_timestamp := stamps (wg_served g)\<rparr>)" by simp
    then have cmd: "engine_cmd_ok (SubmitCmd (env (wg_served g)) (nows (wg_served g)) order) (wg_engine g)"
      using assms(2) by (simp add: ws_guard_def)
    from submit_command [OF ok cmd, of h req "wg_served g + 1"] obtain e' trace pub where
      sub: "submit (env (wg_served g)) (nows (wg_served g)) order (wg_engine g) = Some (e', trace)"
        "run_steps (PerPeerSink_on h req) trace (g\<lparr>wg_engine := e', wg_served := wg_served g + 1\<rparr>) =
          Some (g\<lparr>wg_engine := e', wg_served := wg_served g + 1, wg_publisher := pub,
        wg_server := on_peer (send_text (submit_reply req (final_result trace))) h
          (fold broadcast_text (sink_texts (ws_listener (wg_server g)) trace (wg_publisher g)) (wg_server g))\<rparr>)" by blast
    have "engine_ok e'" using engine.step_ok [OF ok cmd] sub(1) by auto
    then show ?thesis using sub k o WsSubmit del by (simp add: submit_limit_def ws_inv_def)
  next
    case (WsCancel req i x)
    then have cmd: "engine_cmd_ok (CancelCmd i x) (wg_engine g)" by simp
    from engine.step_ok [OF ok cmd] WsCancel show ?thesis using del [of h "[]"] by (auto simp: reply_def ws_inv_def)
  next
    case (WsModify req i x q px)
    then have cmd: "engine_cmd_ok (ModifyCmd i x (Quantity q) (Price px)) (wg_engine g)"
      using assms(2) by (simp add: ws_guard_def)
    from engine.step_ok [OF ok cmd] WsModify show ?thesis using del [of h "[]"] by (auto simp: reply_def ws_inv_def)
  next
    case (WsPing req)
    then show ?thesis using del [of h "[]"] assms(1) by (simp add: reply_def ws_inv_def)
  qed
qed

interpretation ws: guarded_machine "on_command env nows stamps" "ws_guard env nows stamps" ws_inv for env nows stamps
proof unfold_locales
  fix g hc assume "ws_inv g" "ws_guard env nows stamps hc g"
  then show "\<exists>g'. on_command env nows stamps hc g = Some g' \<and> ws_inv g'"
    using on_command_refines [of g env nows stamps "fst hc" "snd hc"] by auto
qed

lemma server_inv_new: "server_inv (new_WsServer l)"
  by (simp add: server_inv_def new_WsServer_def)

lemma server_inv_take_id: "server_inv s \<Longrightarrow> server_inv (snd (take_id s))"
  by (simp add: server_inv_def take_id_def Let_def)

lemma server_inv_register: "server_inv s \<Longrightarrow> server_inv (snd (register_peer x s))"
  by (auto simp: server_inv_def register_peer_def Let_def nth_append new_WsPeer_def)

lemma server_inv_accept: "server_inv s \<Longrightarrow> server_inv (accept_peer s)"
  using server_inv_take_id server_inv_register by (simp add: accept_peer_def split: prod.splits) (metis snd_conv)

lemma server_inv_erase: "server_inv s \<Longrightarrow> server_inv (erase_peer h s)"
  by (auto simp: server_inv_def erase_peer_def Let_def distinct_map_filter distinct_removeAll)

lemma server_inv_cleanup: "server_inv s \<Longrightarrow> h < length (ws_objects s) \<Longrightarrow> server_inv (cleanup_peer h s)"
  unfolding cleanup_peer_def by (rule server_inv_erase) (auto simp: server_inv_def on_peer_nth)

lemma server_inv_on_peer: "server_inv s \<Longrightarrow> (\<And>p. wp_id (f p) = wp_id p) \<Longrightarrow> server_inv (on_peer f h s)"
  by (rule server_inv_frame [of s]) (simp_all add: on_peer_nth)

interpretation tables: guarded_machine peer_op peer_op_ok server_inv
proof unfold_locales
  fix s a assume "server_inv s" "peer_op_ok a s"
  then show "\<exists>s'. peer_op a s = Some s' \<and> server_inv s'"
    by (cases a) (simp_all add: server_inv_take_id server_inv_register server_inv_cleanup server_inv_broadcast server_inv_on_peer peer_close_def)
qed

lemma WsServer_stop_returns:
  assumes "server_inv s" "\<forall>k < length (ws_objects s). wp_open (ws_objects s ! k) \<longrightarrow> registered s k"
  shows "\<exists>pub' s'. WsServer_stop pub s = Some (pub', s') \<and> ws_peers s' = [] \<and> (\<forall>p \<in> set (ws_objects s'). \<not> wp_open p)"
proof -
  let ?s = "fold (\<lambda>(_, h). on_peer (peer_close 1001) h) (ws_peers s) (s\<lparr>ws_running := False\<rparr>)"
  have "\<not> wp_open (ws_objects ?s ! k)" if "k < length (ws_objects s)" for k
    using that assms fold_on_peer_nth [OF handles_distinct [OF assms(1)], of k "s\<lparr>ws_running := False\<rparr>" "peer_close 1001"]
    by (auto simp: registered_def peer_close_def)
  then have "\<forall>p \<in> set (ws_objects ?s). \<not> wp_open p" by (auto simp: in_set_conv_nth)
  then show ?thesis by (simp add: WsServer_stop_def Let_def)
qed

lemma perform_command: "command_ok c \<Longrightarrow> perform env nows stamps h (OnText (command_text c)) g = on_command env nows stamps (h, c) g"
  by (simp add: command_roundtrip)

lemma perform_commands:
  "list_all command_ok cs \<Longrightarrow>
   run_steps (perform env nows stamps h) (map (OnText \<circ> command_text) cs) g = run_steps (on_command env nows stamps) (map (Pair h) cs) g"
  by (induction cs arbitrary: g) (simp_all add: perform_command del: perform.simps split: option.splits)

lemma example_gateway_inv: "ws_inv example_gateway"
  by (simp add: ws_inv_def example_gateway_def demo_engine_ok server_inv_accept server_inv_new)

lemma example_gateway_peers: "length (ws_objects (wg_server example_gateway)) = 2"
  by (simp add: example_gateway_def accept_peer_def take_id_def register_peer_def Let_def new_WsServer_def)

section \<open>Properties\<close>

text \<open>
  C32. A WebSocket command that is safe for the engine when it is run (\<^const>\<open>ws_guard\<close>: it does not modify an order into the
  other side, and the freed orders that full fills read are unchanged; otherwise the command may be undefined) returns. It does one step of the engine and
  nothing else to it, and every peer is sent what it should be: the registered peers receive, in order, the trade and top-of-book texts that the
  publisher's calls give rise to, and the peer that asked receives exactly one reply behind them, made
  from the engine's own answer; a closed peer is sent nothing, and the tables stay in order.
\<close>

theorem ws_command_refines:
  assumes "ws_inv g" "ws_guard env nows stamps (h, c) g"
  shows "\<exists>g' texts r. on_command env nows stamps (h, c) g = Some g' \<and> ws_inv g' \<and>
    ws_outcome (env (wg_served g)) (nows (wg_served g)) (stamps (wg_served g)) (ws_listener (wg_server g)) c
      (wg_engine g) (wg_publisher g) = Some (texts, r) \<and>
    (\<forall>k < length (ws_objects (wg_server g)). ws_objects (wg_server g') ! k =
       send_texts ((if registered (wg_server g) k then texts else []) @ (if k = h then [r] else []))
         (ws_objects (wg_server g) ! k)) \<and>
    (case ws_engine_command (env (wg_served g)) (nows (wg_served g)) (stamps (wg_served g)) c of
       None \<Rightarrow> wg_engine g' = wg_engine g | Some k \<Rightarrow> engine_step k (wg_engine g) = Some (wg_engine g'))"
  using on_command_refines [OF assms] unfolding delivered_def by blast

theorem ws_command_refines_witness:
  "\<exists>g' texts r. on_command (\<lambda>_. demo_env) (\<lambda>_ _. 1) (\<lambda>_. 0) (0, WsSubmit ''42'' 1 7 0 100 20 ''IOC'') example_gateway = Some g' \<and>
    ws_inv g' \<and> ws_outcome demo_env (\<lambda>_. 1) 0 7 (WsSubmit ''42'' 1 7 0 100 20 ''IOC'') demo_engine
      (subscribe 7 new_Publisher) = Some (texts, r)"
  using ws_command_refines [OF example_gateway_inv, of "\<lambda>_. demo_env" "\<lambda>_ _. 1" "\<lambda>_. 0" 0 "WsSubmit ''42'' 1 7 0 100 20 ''IOC''"]
  by (auto simp: ws_guard_def example_gateway_peers is_open_def Order_init_def in_i64_def)
    (auto simp: example_gateway_def accept_peer_def take_id_def register_peer_def Let_def new_WsServer_def)



text \<open>
  However the threads that accept, leave, send and close take turns, also between the two tables, every entry of the
  table of peers leads from an id to a peer object that carries this id. (Several objects may carry the same id, see below.)
\<close>

theorem ws_tables_well_formed:
  assumes "admissible peer_op peer_op_ok ops (new_WsServer l)"
  shows "\<exists>s. run_steps peer_op ops (new_WsServer l) = Some s \<and> distinct (ws_peer_ids s) \<and> distinct (map fst (ws_peers s)) \<and>
    (\<forall>(x, h) \<in> set (ws_peers s). h < length (ws_objects s) \<and> wp_id (ws_objects s ! h) = x)"
  using tables.run_ok [OF server_inv_new assms] by (simp add: server_inv_def)

theorem ws_tables_well_formed_witness:
  "\<exists>s. run_steps peer_op [TakeId, RegisterPeer 1, TakeId, RegisterPeer 2, TakeId, LeavePeer 0, RegisterPeer 3, ClosePeer 2 1000] (new_WsServer 7) = Some s \<and>
     distinct (map fst (ws_peers s))"
  using ws_tables_well_formed [of "[TakeId, RegisterPeer 1, TakeId, RegisterPeer 2, TakeId, LeavePeer 0, RegisterPeer 3, ClosePeer 2 1000]" 7]
  by (auto simp: take_id_def register_peer_def cleanup_peer_def erase_peer_def on_peer_def Let_def new_WsServer_def)

text \<open>
  Peer ids are not unique once a client has left: with two peers connected, the first leaves and a
  third arrives, which is given the id of the second. It is not registered, so that no market data
  reaches it and stopping the server waits for its client; and when it leaves, the second peer is
  removed from the tables in its place, and receives no market data any more.
\<close>

theorem ws_peer_ids_collide:
  "let s2 = accept_peer (accept_peer (new_WsServer l)); s3 = accept_peer (cleanup_peer 0 s2); s4 = cleanup_peer 2 s3
   in wp_id (ws_objects s3 ! 2) = wp_id (ws_objects s3 ! 1) \<and> wp_open (ws_objects s3 ! 2) \<and> \<not> registered s3 2 \<and>
      WsServer_stop pub s3 = None \<and>
      registered s3 1 \<and> wp_open (ws_objects s4 ! 1) \<and> \<not> registered s4 1"
  by (simp add: Let_def accept_peer_def take_id_def register_peer_def cleanup_peer_def erase_peer_def new_WsServer_def new_WsPeer_def on_peer_def registered_def
      close_internal_def WsServer_stop_def peer_close_def send_all_def) force

end
