(* ===== verification/Server_Lifecycle.thy ===== *)
theory Server_Lifecycle
  imports Ws_Gateway "HOL-Library.Multiset"
begin

text \<open>
  The life of the TCP gateway's sockets and threads (\<^verbatim>\<open>Gateway::start\<close>, \<open>stop\<close>, \<open>accept_loop\<close> and the
  frame of \<open>client_loop\<close> in \<^verbatim>\<open>networking/gateway.cpp\<close>) and the socket part of the WebSocket server's
  \<open>start\<close> and writes (\<^verbatim>\<open>networking/ws_server.cpp\<close>).

  The threads interleave: an action is either one thread running from one blocking call to the next, or a
  blocking call returning with the system's answer, or the next statement of \<open>stop\<close>. What a client thread
  does with the bytes it receives is \<open>client_chunk\<close> of Gateway; it is part of the action in which \<^verbatim>\<open>recv\<close> returns, with the writes of the replies,
  which block until the client takes them.
\<close>

section \<open>Opening the listening socket\<close>

text \<open>The answers of \<^verbatim>\<open>socket\<close>, \<^verbatim>\<open>bind\<close> and \<^verbatim>\<open>listen\<close>.\<close>

record ListenAnswers =
  socket_answer :: int
  bind_answer :: int
  listen_answer :: int

text \<open>The descriptor to keep, and those closed again.\<close>

definition open_listener :: "ListenAnswers \<Rightarrow> int \<times> int list" where
  "open_listener a =
     (let fd = socket_answer a
      in if fd < 0 then (fd, [])
         else if bind_answer a < 0 then (- 1, [fd])
         else if listen_answer a < 0 then (- 1, [fd])
         else (fd, []))"

section \<open>The gateway\<close>

datatype Thread =
    AcceptHead
  | InAccept
  | AcceptReturned int
  | ClientHead int
  | InRecv int
  | Finished

datatype StopPhase = NotStopping | ListenerClosed | FlagCleared | Joining nat nat | Stopped | Aborting

record GatewayServer =
  gs_listen_fd :: int
  gs_running :: bool
  gs_threads :: "Thread list"
  gs_phase :: StopPhase
  gs_opened :: "int list"
  gs_closed :: "int list"
  gs_raced :: bool

definition new_GatewayServer :: GatewayServer where
  "new_GatewayServer = \<lparr>gs_listen_fd = - 1, gs_running = False, gs_threads = [], gs_phase = NotStopping,
     gs_opened = [], gs_closed = [], gs_raced = False\<rparr>"

definition Gateway_start :: "ListenAnswers \<Rightarrow> GatewayServer \<Rightarrow> bool \<times> GatewayServer" where
  "Gateway_start a s =
     (let (fd, closed) = open_listener a;
          s1 = s\<lparr>gs_listen_fd := fd, gs_opened := gs_opened s @ (if socket_answer a < 0 then [] else [socket_answer a]),
                 gs_closed := gs_closed s @ closed\<rparr>
      in if fd < 0 then (False, s1)
         else (True, s1\<lparr>gs_running := True, gs_threads := gs_threads s1 @ [AcceptHead]\<rparr>))"

datatype GatewayAction = Run nat | AcceptReturns nat int | RecvReturns nat int | StopRuns

definition set_thread :: "nat \<Rightarrow> Thread \<Rightarrow> GatewayServer \<Rightarrow> GatewayServer" where
  "set_thread i t s = s\<lparr>gs_threads := (gs_threads s)[i := t]\<rparr>"

text \<open>The end of \<open>client_loop\<close>: what is left of the log is written, the descriptor closed.\<close>

definition leave_client :: "nat \<Rightarrow> int \<Rightarrow> GatewayServer \<Rightarrow> GatewayServer" where
  "leave_client i fd s = (set_thread i Finished s)\<lparr>gs_closed := gs_closed s @ [fd]\<rparr>"

text \<open>
  A new thread appended to the vector while \<open>stop\<close> iterates over it is a data race.
\<close>

definition spawn_client :: "int \<Rightarrow> GatewayServer \<Rightarrow> GatewayServer" where
  "spawn_client cfd s =
     s\<lparr>gs_threads := gs_threads s @ [ClientHead cfd],
       gs_raced := gs_raced s \<or> (case gs_phase s of Joining k n \<Rightarrow> True | _ \<Rightarrow> False)\<rparr>"

fun run_thread :: "nat \<Rightarrow> Thread \<Rightarrow> GatewayServer \<Rightarrow> GatewayServer option" where
  "run_thread i AcceptHead s = Some (set_thread i (if gs_running s then InAccept else Finished) s)"
| "run_thread i (AcceptReturned cfd) s =
     (if cfd < 0 then Some (set_thread i (if \<not> gs_running s then Finished else AcceptHead) s)
      else Some (set_thread i AcceptHead (spawn_client cfd s)))"
| "run_thread i (ClientHead fd) s =
     (if gs_running s then Some (set_thread i (InRecv fd) s) else Some (leave_client i fd s))"
| "run_thread i _ s = None"

definition accept_returns :: "nat \<Rightarrow> int \<Rightarrow> GatewayServer \<Rightarrow> GatewayServer option" where
  "accept_returns i cfd s =
     (if gs_threads s ! i \<noteq> InAccept \<or> (0 \<le> cfd \<and> gs_listen_fd s < 0) then None
      else Some (set_thread i (AcceptReturned cfd) (s\<lparr>gs_opened := gs_opened s @ (if cfd < 0 then [] else [cfd])\<rparr>)))"

text \<open>
  \<^verbatim>\<open>recv\<close> returns with \<open>n\<close> bytes, or with an end or an error. When it does so is up to the client; the step says what follows, not that it comes.
\<close>

definition recv_returns :: "nat \<Rightarrow> int \<Rightarrow> GatewayServer \<Rightarrow> GatewayServer option" where
  "recv_returns i n s =
     (case gs_threads s ! i of
        InRecv fd \<Rightarrow> Some (if n \<le> 0 then leave_client i fd s else set_thread i (ClientHead fd) s)
      | _ \<Rightarrow> None)"

text \<open>
  The statements of \<open>stop\<close>. The loop over the threads reads the ends of the vector once. Clearing the
  vector destroys its threads; destroying one that was not joined ends the process.
\<close>

fun stop_runs :: "StopPhase \<Rightarrow> GatewayServer \<Rightarrow> GatewayServer option" where
  "stop_runs NotStopping s =
     Some (if 0 \<le> gs_listen_fd s
           then s\<lparr>gs_listen_fd := - 1, gs_closed := gs_closed s @ [gs_listen_fd s], gs_phase := ListenerClosed\<rparr>
           else s\<lparr>gs_phase := ListenerClosed\<rparr>)"
| "stop_runs ListenerClosed s = Some (s\<lparr>gs_running := False, gs_phase := FlagCleared\<rparr>)"
| "stop_runs FlagCleared s = Some (s\<lparr>gs_phase := Joining 0 (length (gs_threads s))\<rparr>)"
| "stop_runs (Joining k n) s =
     (if k < n
      then (if gs_threads s ! k = Finished then Some (s\<lparr>gs_phase := Joining (Suc k) n\<rparr>) else None)
      else Some (if length (gs_threads s) = n then s\<lparr>gs_threads := [], gs_phase := Stopped\<rparr>
                 else s\<lparr>gs_phase := Aborting\<rparr>))"
| "stop_runs _ s = None"

text \<open>An action that is not possible in a state gives \<open>None\<close>.\<close>

fun gateway_step :: "GatewayAction \<Rightarrow> GatewayServer \<Rightarrow> GatewayServer option" where
  "gateway_step (Run i) s = (if i < length (gs_threads s) \<and> gs_phase s \<noteq> Aborting then run_thread i (gs_threads s ! i) s else None)"
| "gateway_step (AcceptReturns i cfd) s = (if i < length (gs_threads s) \<and> gs_phase s \<noteq> Aborting then accept_returns i cfd s else None)"
| "gateway_step (RecvReturns i n) s = (if i < length (gs_threads s) \<and> gs_phase s \<noteq> Aborting then recv_returns i n s else None)"
| "gateway_step StopRuns s = stop_runs (gs_phase s) s"

section \<open>The WebSocket server's socket calls\<close>

definition WsServer_listen :: "ListenAnswers \<Rightarrow> Publisher \<Rightarrow> WsServer \<Rightarrow> bool \<times> Publisher \<times> WsServer" where
  "WsServer_listen a pub s =
     (if fst (open_listener a) < 0 then (False, pub, s)
      else let (pub', s') = WsServer_start pub s in (True, pub', s'))"

text \<open>
  Its \<open>write_all\<close>: the result and the number of bytes handed over, for \<open>n\<close> bytes of which \<open>sent\<close> are gone.
  The \<open>k\<close>-th call of \<^verbatim>\<open>send\<close> answers \<open>send k m\<close> when \<open>m\<close> bytes are offered.
\<close>

function ws_write_all :: "(nat \<Rightarrow> nat \<Rightarrow> int) \<Rightarrow> nat \<Rightarrow> nat \<Rightarrow> nat \<Rightarrow> int \<times> nat" where
  "ws_write_all send k n sent =
     (if sent < n
      then let r = send k (n - sent) in if r \<le> 0 then (r, sent) else ws_write_all send (Suc k) n (sent + nat r)
      else (int sent, sent))"
  by pat_completeness auto
termination
  by (relation "measure (\<lambda>(send, k, n, sent). n - sent)") auto

declare ws_write_all.simps [simp del]

definition ws_send_all :: "(nat \<Rightarrow> nat \<Rightarrow> int) \<Rightarrow> string \<Rightarrow> bool" where
  "ws_send_all send s \<longleftrightarrow> fst (ws_write_all send 0 (length s) 0) = int (length s)"

section \<open>Descriptors\<close>

fun thread_fds :: "Thread \<Rightarrow> int list" where
  "thread_fds (AcceptReturned cfd) = (if cfd < 0 then [] else [cfd])"
| "thread_fds (ClientHead fd) = [fd]"
| "thread_fds (InRecv fd) = [fd]"
| "thread_fds _ = []"

text \<open>Every descriptor obtained from the system is closed or held, once: by the gateway or by one thread.\<close>

definition fds_accounted :: "GatewayServer \<Rightarrow> bool" where
  "fds_accounted s \<longleftrightarrow> mset (gs_opened s) =
     mset (gs_closed s) + mset (if gs_listen_fd s < 0 then [] else [gs_listen_fd s]) + sum_list (map (\<lambda>t. mset (thread_fds t)) (gs_threads s))"

section \<open>The invariant\<close>

text \<open>
  Only the first thread accepts, so that the others come from it; \<open>stop\<close> has joined the threads before the
  one it waits for, and has closed the listener and cleared the flag by then.
\<close>

fun is_acceptor :: "Thread \<Rightarrow> bool" where
  "is_acceptor AcceptHead \<longleftrightarrow> True"
| "is_acceptor InAccept \<longleftrightarrow> True"
| "is_acceptor (AcceptReturned cfd) \<longleftrightarrow> True"
| "is_acceptor _ \<longleftrightarrow> False"

fun phase_ok :: "StopPhase \<Rightarrow> GatewayServer \<Rightarrow> bool" where
  "phase_ok NotStopping s \<longleftrightarrow> True"
| "phase_ok ListenerClosed s \<longleftrightarrow> gs_listen_fd s < 0"
| "phase_ok FlagCleared s \<longleftrightarrow> gs_listen_fd s < 0 \<and> \<not> gs_running s"
| "phase_ok (Joining k n) s \<longleftrightarrow> gs_listen_fd s < 0 \<and> \<not> gs_running s \<and> k \<le> n \<and> n \<le> length (gs_threads s) \<and>
     (\<forall>j<k. gs_threads s ! j = Finished) \<and> (length (gs_threads s) = n \<or> gs_raced s)"
| "phase_ok Stopped s \<longleftrightarrow> gs_listen_fd s < 0 \<and> \<not> gs_running s \<and> gs_threads s = []"
| "phase_ok Aborting s \<longleftrightarrow> gs_raced s"

definition gateway_inv :: "GatewayServer \<Rightarrow> bool" where
  "gateway_inv s \<longleftrightarrow> fds_accounted s \<and> phase_ok (gs_phase s) s \<and> (\<forall>i < length (gs_threads s). 0 < i \<longrightarrow> \<not> is_acceptor (gs_threads s ! i))"

text \<open>The states a gateway can get into after a successful start.\<close>

definition gateway_reachable :: "GatewayServer \<Rightarrow> bool" where
  "gateway_reachable s \<longleftrightarrow> (\<exists>a acts. fst (Gateway_start a new_GatewayServer) \<and>
     run_steps gateway_step acts (snd (Gateway_start a new_GatewayServer)) = Some s)"

text \<open>How much is left to do once the flag is cleared, if no connection is waiting to be handed to a thread.\<close>

fun thread_work :: "Thread \<Rightarrow> nat" where
  "thread_work AcceptHead = 1"
| "thread_work InAccept = 2"
| "thread_work (AcceptReturned cfd) = 1"
| "thread_work (ClientHead fd) = 1"
| "thread_work (InRecv fd) = 2"
| "thread_work Finished = 0"

fun phase_work :: "StopPhase \<Rightarrow> nat \<Rightarrow> nat" where
  "phase_work FlagCleared m = m + 2"
| "phase_work (Joining k n) m = n - k + 1"
| "phase_work _ m = 0"

definition stop_work :: "GatewayServer \<Rightarrow> nat" where
  "stop_work s = phase_work (gs_phase s) (length (gs_threads s)) + sum_list (map thread_work (gs_threads s))"

definition stopping :: "GatewayServer \<Rightarrow> bool" where
  "stopping s \<longleftrightarrow> gateway_inv s \<and> \<not> gs_raced s \<and> (case gs_phase s of FlagCleared \<Rightarrow> True | Joining k n \<Rightarrow> True | Stopped \<Rightarrow> True | _ \<Rightarrow> False) \<and>
     (\<forall>cfd. 0 \<le> cfd \<longrightarrow> AcceptReturned cfd \<notin> set (gs_threads s))"

text \<open>
  What happens without a client: a thread runs, \<^verbatim>\<open>accept\<close> fails on a closed listener, \<open>stop\<close> goes on. And what \<open>stop\<close> may wait for: the thread it
  joins next is in \<^verbatim>\<open>recv\<close>.
\<close>

fun own_action :: "GatewayServer \<Rightarrow> GatewayAction \<Rightarrow> bool" where
  "own_action s (AcceptReturns i cfd) \<longleftrightarrow> cfd < 0 \<and> gs_listen_fd s < 0"
| "own_action s (RecvReturns i n) \<longleftrightarrow> False"
| "own_action s _ \<longleftrightarrow> True"

definition joins_client :: "GatewayServer \<Rightarrow> bool" where
  "joins_client s \<longleftrightarrow> (case gs_phase s of
     Joining k n \<Rightarrow> k < n \<and> (case gs_threads s ! k of InRecv fd \<Rightarrow> True | _ \<Rightarrow> False) | _ \<Rightarrow> False)"

text \<open>What a thread action is: thread \<open>i\<close> goes from its state to another, and may add a client.\<close>

definition thread_change :: "GatewayServer \<Rightarrow> nat \<Rightarrow> Thread \<Rightarrow> Thread list \<Rightarrow> GatewayServer \<Rightarrow> bool" where
  "thread_change s i t ts s' \<longleftrightarrow>
     i < length (gs_threads s) \<and> gs_threads s' = (gs_threads s)[i := t] @ ts \<and> gs_threads s ! i \<noteq> Finished \<and>
     gs_phase s' = gs_phase s \<and> gs_listen_fd s' = gs_listen_fd s \<and> gs_running s' = gs_running s \<and> gs_phase s \<noteq> Aborting \<and>
     (is_acceptor t \<longrightarrow> is_acceptor (gs_threads s ! i)) \<and> (\<forall>u \<in> set ts. \<not> is_acceptor u) \<and>
     (ts \<noteq> [] \<longrightarrow> (\<exists>cfd \<ge> 0. gs_threads s ! i = AcceptReturned cfd)) \<and>
     (gs_raced s' \<longleftrightarrow> gs_raced s \<or> ts \<noteq> [] \<and> (\<exists>k n. gs_phase s = Joining k n)) \<and>
     mset (gs_opened s') + mset (gs_closed s) + mset (thread_fds (gs_threads s ! i)) =
       mset (gs_opened s) + mset (gs_closed s') + mset (thread_fds t) + sum_list (map (\<lambda>t. mset (thread_fds t)) ts) \<and>
     (\<forall>cfd. t = AcceptReturned cfd \<longrightarrow> 0 \<le> cfd \<longrightarrow> 0 \<le> gs_listen_fd s) \<and>
     (\<not> gs_running s \<longrightarrow> ts = [] \<longrightarrow> thread_work t < thread_work (gs_threads s ! i))"

text \<open>A connection accepted just before \<open>stop\<close>, and handed to a thread while \<open>stop\<close> waits for the accepting one.\<close>

definition race_actions :: "GatewayAction list" where
  "race_actions = [Run 0, AcceptReturns 0 7, StopRuns, StopRuns, StopRuns, Run 0, Run 0, StopRuns, StopRuns]"

definition sample_listen :: ListenAnswers where
  "sample_listen = \<lparr>socket_answer = 3, bind_answer = 0, listen_answer = 0\<rparr>"

definition sample_gateway :: GatewayServer where
  "sample_gateway = snd (Gateway_start sample_listen new_GatewayServer)"

text \<open>One client connected and waiting for input when \<open>stop\<close> has cleared the flag.\<close>

definition one_client :: "GatewayAction list" where
  "one_client = [Run 0, AcceptReturns 0 7, Run 0, Run 1, Run 0, StopRuns, StopRuns]"

definition stopping_gateway :: GatewayServer where
  "stopping_gateway = \<lparr>gs_listen_fd = - 1, gs_running = False, gs_threads = [InAccept, InRecv 7], gs_phase = FlagCleared,
     gs_opened = [3, 7], gs_closed = [3], gs_raced = False\<rparr>"

section \<open>Machines that come to an end\<close>

locale ending_machine =
  fixes step :: "'c \<Rightarrow> 's \<Rightarrow> 's option"
    and inv :: "'s \<Rightarrow> bool"
    and final :: "'s \<Rightarrow> bool"
    and work :: "'s \<Rightarrow> nat"
  assumes keeps: "inv s \<Longrightarrow> step c s = Some s' \<Longrightarrow> inv s'"
    and works: "inv s \<Longrightarrow> step c s = Some s' \<Longrightarrow> work s' < work s"
    and progress: "inv s \<Longrightarrow> \<not> final s \<Longrightarrow> \<exists>c s'. step c s = Some s'"
begin

lemma run_bounded: "inv s \<Longrightarrow> run_steps step cs s = Some s' \<Longrightarrow> inv s' \<and> length cs + work s' \<le> work s"
proof (induction cs arbitrary: s)
  case (Cons c cs)
  then obtain s1 where s1: "step c s = Some s1" "run_steps step cs s1 = Some s'" by (auto split: option.splits)
  with keeps [OF Cons.prems(1)] works [OF Cons.prems(1) s1(1)] Cons.IH [of s1] show ?case by fastforce
qed simp

lemma run_to_end: "inv s \<Longrightarrow> \<exists>cs s'. run_steps step cs s = Some s' \<and> final s'"
proof (induction "work s" arbitrary: s rule: less_induct)
  case less
  show ?case
  proof (cases "final s")
    case True
    then show ?thesis by (intro exI [of _ "[]"] exI [of _ s]) simp
  next
    case False
    with progress [OF less.prems] obtain c s1 where "step c s = Some s1" by blast
    with less.hyps [OF works [OF less.prems this] keeps [OF less.prems this]] obtain cs s' where
      "run_steps step (c # cs) s = Some s'" "final s'" by auto
    then show ?thesis by blast
  qed
qed

lemma stuck_final: "inv s \<Longrightarrow> run_steps step cs s = Some s' \<Longrightarrow> (\<And>c. step c s' = None) \<Longrightarrow> final s'"
  using run_bounded progress by fastforce

end

section \<open>Steps\<close>

lemma sum_list_upd:
  fixes f :: "'a \<Rightarrow> 'b :: comm_monoid_add"
  shows "i < length xs \<Longrightarrow> sum_list (map f (xs[i := t])) + f (xs ! i) = sum_list (map f xs) + f t"
proof (induction xs arbitrary: i)
  case (Cons x xs)
  show ?case
  proof (cases i)
    case 0
    then show ?thesis by (simp add: ac_simps)
  next
    case (Suc j)
    have "f x + (sum_list (map f (xs[j := t])) + f (xs ! j)) = f x + (sum_list (map f xs) + f t)"
      using Cons.IH [of j] Cons.prems Suc by simp
    then show ?thesis using Suc by (simp add: ac_simps)
  qed
qed simp

lemma sum_list_zero: "\<forall>t \<in> set xs. g t = [] \<Longrightarrow> sum_list (map (\<lambda>t. mset (g t)) xs) = {#}"
  by (induction xs) simp_all

lemma set_thread_simps [simp]:
  "gs_threads (set_thread i t s) = (gs_threads s)[i := t]" "gs_listen_fd (set_thread i t s) = gs_listen_fd s"
  "gs_running (set_thread i t s) = gs_running s" "gs_phase (set_thread i t s) = gs_phase s"
  "gs_opened (set_thread i t s) = gs_opened s" "gs_closed (set_thread i t s) = gs_closed s" "gs_raced (set_thread i t s) = gs_raced s"
  by (simp_all add: set_thread_def)

lemma leave_client_simps [simp]:
  "gs_threads (leave_client i fd s) = (gs_threads s)[i := Finished]" "gs_listen_fd (leave_client i fd s) = gs_listen_fd s"
  "gs_running (leave_client i fd s) = gs_running s" "gs_phase (leave_client i fd s) = gs_phase s"
  "gs_opened (leave_client i fd s) = gs_opened s" "gs_closed (leave_client i fd s) = gs_closed s @ [fd]" "gs_raced (leave_client i fd s) = gs_raced s"
  by (simp_all add: leave_client_def)

lemma spawn_client_simps [simp]:
  "gs_threads (spawn_client cfd s) = gs_threads s @ [ClientHead cfd]" "gs_listen_fd (spawn_client cfd s) = gs_listen_fd s"
  "gs_running (spawn_client cfd s) = gs_running s" "gs_phase (spawn_client cfd s) = gs_phase s"
  "gs_opened (spawn_client cfd s) = gs_opened s" "gs_closed (spawn_client cfd s) = gs_closed s"
  "gs_raced (spawn_client cfd s) \<longleftrightarrow> gs_raced s \<or> (\<exists>k n. gs_phase s = Joining k n)"
  by (simp_all add: spawn_client_def split: StopPhase.splits)

lemma thread_action:
  assumes "gateway_step a s = Some s'" "a \<noteq> StopRuns"
  shows "\<exists>i t ts. thread_change s i t ts s'"
proof (cases a)
  case (Run i)
  then have i: "i < length (gs_threads s)" "gs_phase s \<noteq> Aborting" "run_thread i (gs_threads s ! i) s = Some s'"
    using assms by (auto split: if_splits)
  show ?thesis
  proof (cases "gs_threads s ! i")
    case AcceptHead
    with i show ?thesis by (intro exI [of _ i] exI [of _ "if gs_running s then InAccept else Finished"] exI [of _ "[]"]) (auto simp: thread_change_def split: if_splits)
  next
    case (AcceptReturned cfd)
    show ?thesis
    proof (cases "cfd < 0")
      case True
      with i AcceptReturned show ?thesis by (intro exI [of _ i] exI [of _ "if \<not> gs_running s then Finished else AcceptHead"] exI [of _ "[]"]) (auto simp: thread_change_def split: if_splits)
    next
      case False
      with i AcceptReturned show ?thesis
        by (intro exI [of _ i] exI [of _ AcceptHead] exI [of _ "[ClientHead cfd]"]) (auto simp: thread_change_def list_update_append)
    qed
  next
    case (ClientHead fd)
    with i show ?thesis by (intro exI [of _ i] exI [of _ "if gs_running s then InRecv fd else Finished"] exI [of _ "[]"]) (auto simp: thread_change_def split: if_splits)
  qed (use i in auto)
next
  case (AcceptReturns i cfd)
  with assms show ?thesis
    by (intro exI [of _ i] exI [of _ "AcceptReturned cfd"] exI [of _ "[]"]) (auto simp: thread_change_def accept_returns_def split: if_splits)
next
  case (RecvReturns i n)
  then obtain fd where i: "i < length (gs_threads s)" "gs_phase s \<noteq> Aborting" "gs_threads s ! i = InRecv fd"
    "s' = (if n \<le> 0 then leave_client i fd s else set_thread i (ClientHead fd) s)"
    using assms by (auto simp: recv_returns_def split: if_splits Thread.splits)
  then show ?thesis by (intro exI [of _ i] exI [of _ "if n \<le> 0 then Finished else ClientHead fd"] exI [of _ "[]"]) (auto simp: thread_change_def split: if_splits)
qed (use assms in simp)

lemma fds_accounted_step:
  assumes acc: "fds_accounted s" and i: "i < length (gs_threads s)" "gs_threads s' = (gs_threads s)[i := t] @ ts" "gs_listen_fd s' = gs_listen_fd s"
    "mset (gs_opened s') + mset (gs_closed s) + mset (thread_fds (gs_threads s ! i)) =
       mset (gs_opened s) + mset (gs_closed s') + mset (thread_fds t) + sum_list (map (\<lambda>t. mset (thread_fds t)) ts)"
  shows "fds_accounted s'"
proof -
  let ?f = "\<lambda>t. mset (thread_fds t)"
  let ?c = "mset (gs_closed s) + ?f (gs_threads s ! i)" and ?l = "mset (if gs_listen_fd s < 0 then [] else [gs_listen_fd s])"
  have "mset (gs_opened s') + ?c = mset (gs_closed s') + ?l + (sum_list (map ?f (gs_threads s)) + ?f t) + sum_list (map ?f ts) + mset (gs_closed s)"
    using i(4) acc unfolding fds_accounted_def by (simp only: ac_simps)
  also have "\<dots> = (mset (gs_closed s') + ?l + sum_list (map ?f (gs_threads s'))) + ?c"
    unfolding sum_list_upd [OF i(1), of ?f t, symmetric] i(2) by (simp add: ac_simps)
  finally show ?thesis unfolding fds_accounted_def i(3) by (simp only: add_right_cancel)
qed

lemma gateway_inv_step:
  assumes inv: "gateway_inv s" and step: "gateway_step a s = Some s'"
  shows "gateway_inv s'"
proof (cases "a = StopRuns")
  case False
  from thread_action [OF step False] obtain i t ts where c: "thread_change s i t ts s'" by blast
  then have i: "i < length (gs_threads s)" "gs_threads s' = (gs_threads s)[i := t] @ ts" "gs_listen_fd s' = gs_listen_fd s" and
    fds: "mset (gs_opened s') + mset (gs_closed s) + mset (thread_fds (gs_threads s ! i)) =
       mset (gs_opened s) + mset (gs_closed s') + mset (thread_fds t) + sum_list (map (\<lambda>t. mset (thread_fds t)) ts)"
    by (simp_all add: thread_change_def)
  have "fds_accounted s'" using inv fds_accounted_step [OF _ i fds] by (simp add: gateway_inv_def)
  moreover have "phase_ok (gs_phase s') s'"
    using inv c by (cases "gs_phase s") (auto simp: gateway_inv_def thread_change_def nth_append nth_list_update)
  moreover have "\<forall>j < length (gs_threads s'). 0 < j \<longrightarrow> \<not> is_acceptor (gs_threads s' ! j)"
  proof (intro allI impI)
    fix j assume j: "j < length (gs_threads s')" "0 < j"
    show "\<not> is_acceptor (gs_threads s' ! j)"
      using inv c j by (cases "j = i") (auto simp: gateway_inv_def thread_change_def nth_append)
  qed
  ultimately show ?thesis by (simp add: gateway_inv_def)
next
  case True
  have all: "\<forall>j < length (gs_threads s). gs_threads s ! j = Finished \<Longrightarrow> sum_list (map (\<lambda>t. mset (thread_fds t)) (gs_threads s)) = {#}"
  proof -
    assume "\<forall>j < length (gs_threads s). gs_threads s ! j = Finished"
    then have "\<forall>t \<in> set (gs_threads s). thread_fds t = []" by (auto simp: in_set_conv_nth)
    then show "sum_list (map (\<lambda>t. mset (thread_fds t)) (gs_threads s)) = {#}" by (rule sum_list_zero)
  qed
  show ?thesis using inv step True all
    by (cases "gs_phase s") (auto simp: gateway_inv_def fds_accounted_def less_Suc_eq split: if_splits)
qed


lemma gateway_started: "fst (Gateway_start a new_GatewayServer) \<Longrightarrow> gateway_inv (snd (Gateway_start a new_GatewayServer))"
  by (auto simp: Gateway_start_def new_GatewayServer_def open_listener_def gateway_inv_def fds_accounted_def Let_def split: if_splits)

lemma gateway_reachable_inv:
  assumes "gateway_reachable s" shows "gateway_inv s"
proof -
  have "gateway_inv s0 \<Longrightarrow> run_steps gateway_step acts s0 = Some s \<Longrightarrow> gateway_inv s" for s0 acts
    by (induction acts arbitrary: s0) (auto split: option.splits intro: gateway_inv_step)
  with assms gateway_started show ?thesis by (auto simp: gateway_reachable_def)
qed

section \<open>Stopping\<close>

lemma thread_work_zero: "thread_work t = 0 \<longleftrightarrow> t = Finished"
  by (cases t) simp_all

lemma stopping_thread_step:
  assumes inv: "stopping s" and step: "gateway_step a s = Some s'" and a: "a \<noteq> StopRuns"
  shows "stopping s' \<and> stop_work s' < stop_work s"
proof -
  from thread_action [OF step a] obtain i t ts where c: "thread_change s i t ts s'" by blast
  then have i: "i < length (gs_threads s)" "gs_threads s' = (gs_threads s)[i := t] @ ts" "gs_phase s' = gs_phase s" by (simp_all add: thread_change_def)
  have cleared: "gs_listen_fd s < 0" "\<not> gs_running s"
    using inv by (auto simp: stopping_def gateway_inv_def split: StopPhase.splits)
  have none: "\<forall>cfd. 0 \<le> cfd \<longrightarrow> AcceptReturned cfd \<notin> set (gs_threads s)" using inv by (simp add: stopping_def)
  have ts: "ts = []"
  proof (rule ccontr)
    assume "ts \<noteq> []"
    then obtain cfd where "0 \<le> cfd" "gs_threads s ! i = AcceptReturned cfd" using c by (auto simp: thread_change_def)
    with none nth_mem [OF i(1)] show False by simp
  qed
  have "\<forall>cfd. 0 \<le> cfd \<longrightarrow> AcceptReturned cfd \<notin> set (gs_threads s')"
    using none c cleared(1) set_update_subset_insert [of "gs_threads s" i t] by (fastforce simp: thread_change_def ts)
  then have "stopping s'" using inv gateway_inv_step [OF _ step] c ts by (auto simp: stopping_def thread_change_def)
  moreover have "sum_list (map thread_work (gs_threads s')) < sum_list (map thread_work (gs_threads s))"
    using sum_list_upd [OF i(1), of thread_work t] c cleared(2) by (auto simp: ts thread_change_def)
  then have "stop_work s' < stop_work s" by (simp add: stop_work_def i(2,3) ts)
  ultimately show ?thesis by blast
qed

lemma stopping_stop_step:
  assumes inv: "stopping s" and step: "gateway_step StopRuns s = Some s'"
  shows "stopping s' \<and> stop_work s' < stop_work s"
  using assms gateway_inv_step [OF _ step]
  by (cases "gs_phase s") (auto simp: stopping_def stop_work_def gateway_inv_def split: if_splits)

lemma stopping_progress:
  assumes inv: "stopping s" and "gs_phase s \<noteq> Stopped"
  shows "(\<exists>a s'. own_action s a \<and> gateway_step a s = Some s') \<or> joins_client s"
proof (cases "gs_phase s")
  case (Joining k n)
  have closed: "gs_listen_fd s < 0" using inv Joining by (simp add: stopping_def gateway_inv_def)
  show ?thesis
  proof (cases "k < n \<and> gs_threads s ! k \<noteq> Finished")
    case True
    then have k: "k < length (gs_threads s)" using inv Joining by (simp add: stopping_def gateway_inv_def)
    show ?thesis
    proof (cases "gs_threads s ! k")
      case InAccept
      then have "gateway_step (AcceptReturns k (- 1)) s \<noteq> None" "own_action s (AcceptReturns k (- 1))"
        using k Joining closed by (simp_all add: accept_returns_def)
      then show ?thesis by blast
    next
      case (InRecv fd)
      then show ?thesis using Joining True by (simp add: joins_client_def)
    next
      case AcceptHead
      then have "gateway_step (Run k) s \<noteq> None" "own_action s (Run k)" using k Joining by simp_all
      then show ?thesis by blast
    next
      case (AcceptReturned cfd)
      then have "gateway_step (Run k) s \<noteq> None" "own_action s (Run k)" using k Joining by simp_all
      then show ?thesis by blast
    next
      case (ClientHead fd)
      then have "gateway_step (Run k) s \<noteq> None" "own_action s (Run k)" using k Joining by simp_all
      then show ?thesis by blast
    qed (use True in simp)
  next
    case False
    then have "gateway_step StopRuns s \<noteq> None" "own_action s StopRuns" using Joining by auto
    then show ?thesis by blast
  qed
next
  case FlagCleared
  then have "gateway_step StopRuns s \<noteq> None" "own_action s StopRuns" by simp_all
  then show ?thesis by blast
qed (use assms in \<open>auto simp: stopping_def\<close>)

lemma joins_client_step:
  assumes "stopping s" "joins_client s" shows "\<exists>a s'. gateway_step a s = Some s'"
proof -
  obtain k n fd where k: "gs_phase s = Joining k n" "k < n" "gs_threads s ! k = InRecv fd"
    using assms(2) by (auto simp: joins_client_def split: StopPhase.splits Thread.splits)
  then have "k < length (gs_threads s)" using assms(1) by (simp add: stopping_def gateway_inv_def)
  then have "gateway_step (RecvReturns k 0) s \<noteq> None" using k by (simp add: recv_returns_def)
  then show ?thesis by blast
qed

interpretation gateway_stop: ending_machine gateway_step stopping "\<lambda>s. gs_phase s = Stopped" stop_work
  using stopping_thread_step stopping_stop_step stopping_progress joins_client_step by unfold_locales blast+

section \<open>Writes\<close>

lemma ws_write_all_bound:
  assumes "\<forall>k m. send k m \<le> int m" "sent \<le> n"
  shows "snd (ws_write_all send k n sent) \<le> n \<and> sent \<le> snd (ws_write_all send k n sent) \<and>
    (fst (ws_write_all send k n sent) = int n \<longleftrightarrow> snd (ws_write_all send k n sent) = n \<or> (n = 0 \<and> sent = 0))"
  using assms
proof (induction send k n sent rule: ws_write_all.induct)
  case (1 send k n sent)
  let ?r = "send k (n - sent)"
  show ?case
  proof (cases "sent < n \<and> 0 < ?r")
    case True
    have "?r \<le> int (n - sent)" using 1(2) by blast
    then have "sent + nat ?r \<le> n" using True by linarith
    with 1 True show ?thesis by (subst (1 2 3 4) ws_write_all.simps) (auto simp: Let_def)
  next
    case False
    with 1(3) show ?thesis by (subst (1 2 3 4) ws_write_all.simps) (auto simp: Let_def)
  qed
qed

text \<open>
  A text counts as sent exactly when every byte of it was handed to the system, if \<^verbatim>\<open>send\<close> never takes more than
  it is offered.
\<close>

theorem ws_send_all_complete:
  assumes "\<forall>k m. send k m \<le> int m"
  shows "ws_send_all send s \<longleftrightarrow> snd (ws_write_all send 0 (length s) 0) = length s"
  using ws_write_all_bound [OF assms, of 0 "length s" 0] by (auto simp: ws_send_all_def)

lemma sample_gateway_run: "run_steps gateway_step one_client sample_gateway = Some stopping_gateway"
  by (simp add: one_client_def sample_gateway_def sample_listen_def Gateway_start_def open_listener_def new_GatewayServer_def
      accept_returns_def stopping_gateway_def set_thread_def spawn_client_def)

lemma stopping_gateway_reachable: "gateway_reachable stopping_gateway"
proof -
  have "fst (Gateway_start sample_listen new_GatewayServer)" by (simp add: Gateway_start_def open_listener_def sample_listen_def)
  then show ?thesis using sample_gateway_run unfolding gateway_reachable_def sample_gateway_def by blast
qed

lemma silent_thread_stays:
  assumes inv: "gateway_inv s" and i: "i < length (gs_threads s)" "gs_threads s ! i = InRecv fd"
    and step: "gateway_step a s = Some s'" and a: "\<forall>n. a \<noteq> RecvReturns i n"
  shows "i < length (gs_threads s') \<and> gs_threads s' ! i = InRecv fd"
proof (cases a)
  case (Run j)
  with step i have "j \<noteq> i" "j < length (gs_threads s)" by (auto split: if_splits)
  with step i Run show ?thesis by (cases "gs_threads s ! j") (auto simp: nth_append split: if_splits)
next
  case (AcceptReturns j cfd)
  with step i show ?thesis by (auto simp: accept_returns_def nth_list_update split: if_splits)
next
  case (RecvReturns j n)
  with a have "j \<noteq> i" by auto
  with step i RecvReturns show ?thesis by (auto simp: recv_returns_def split: if_splits Thread.splits)
next
  case StopRuns
  show ?thesis
  proof (cases "gs_phase s")
    case (Joining k n)
    with inv have p: "k \<le> n" "\<forall>j<k. gs_threads s ! j = Finished" by (auto simp: gateway_inv_def)
    have "k < n \<or> length (gs_threads s) \<noteq> n"
    proof (rule ccontr)
      assume "\<not> ?thesis"
      then have "i < k" using i(1) p(1) by simp
      with p(2) i(2) show False by simp
    qed
    with step StopRuns Joining i show ?thesis by (auto split: if_splits)
  qed (use step StopRuns i in \<open>auto split: if_splits\<close>)
qed

lemma silent_thread_run:
  assumes "gateway_inv s" "i < length (gs_threads s)" "gs_threads s ! i = InRecv fd"
    "run_steps gateway_step acts s = Some s'" "\<forall>n. RecvReturns i n \<notin> set acts"
  shows "gateway_inv s' \<and> i < length (gs_threads s') \<and> gs_threads s' ! i = InRecv fd"
  using assms
proof (induction acts arbitrary: s)
  case (Cons a acts)
  then obtain s1 where s1: "gateway_step a s = Some s1" "run_steps gateway_step acts s1 = Some s'" by (auto split: option.splits)
  have "\<forall>n. a \<noteq> RecvReturns i n" using Cons.prems(5) by auto
  from silent_thread_stays [OF Cons.prems(1-3) s1(1) this] gateway_inv_step [OF Cons.prems(1) s1(1)] Cons.IH [of s1] Cons.prems(5) s1(2)
  show ?case by simp
qed simp

section \<open>Properties\<close>



text \<open>
  \<open>stop\<close> waits for silent clients. It does not shut down the sockets of the clients: while a client keeps
  its connection open and sends nothing, its thread stays in \<^verbatim>\<open>recv\<close>, and no interleaving lets \<open>stop\<close> return.
\<close>

theorem gateway_stop_waits_for_silent_client:
  assumes "gateway_reachable s" "i < length (gs_threads s)" "gs_threads s ! i = InRecv fd"
    and "run_steps gateway_step acts s = Some s'" "\<forall>n. RecvReturns i n \<notin> set acts"
  shows "gs_phase s' \<noteq> Stopped \<and> gs_threads s' ! i = InRecv fd"
  using silent_thread_run [OF gateway_reachable_inv [OF assms(1)] assms(2-5)] by (auto simp: gateway_inv_def)

theorem gateway_stop_waits_for_silent_client_witness:
  "\<exists>s'. run_steps gateway_step [StopRuns, AcceptReturns 0 (- 1), Run 0, StopRuns] stopping_gateway = Some s' \<and>
     gs_phase s' \<noteq> Stopped \<and> gs_threads s' ! 1 = InRecv 7"
proof -
  obtain s' where s': "run_steps gateway_step [StopRuns, AcceptReturns 0 (- 1), Run 0, StopRuns] stopping_gateway = Some s'"
    by (simp add: stopping_gateway_def accept_returns_def)
  have "1 < length (gs_threads stopping_gateway)" "gs_threads stopping_gateway ! 1 = InRecv 7" by (simp_all add: stopping_gateway_def)
  from gateway_stop_waits_for_silent_client [OF stopping_gateway_reachable this s'] s' show ?thesis by simp
qed

text \<open>
  A connection accepted just before \<open>stop\<close> can end the process: its thread is appended to the vector that
  \<open>stop\<close> is iterating over, a data race, is not among the threads joined, and is destroyed while it runs.
\<close>

theorem gateway_stop_can_abort:
  "\<exists>s. run_steps gateway_step race_actions sample_gateway = Some s \<and>
     gs_raced s \<and> gs_phase s = Aborting \<and> ClientHead 7 \<in> set (gs_threads s)"
  by (simp add: race_actions_def sample_gateway_def sample_listen_def Gateway_start_def open_listener_def new_GatewayServer_def accept_returns_def)

end
