(* ===== verification/Ws_Threads.thy ===== *)
theory Ws_Threads
  imports Server_Lifecycle
begin

text \<open>
  The WebSocket server with all its threads (\<^verbatim>\<open>WsServer::accept_loop\<close>, \<open>serve_peer\<close> and \<open>stop\<close> in
  \<^verbatim>\<open>networking/ws_server.cpp\<close>, with the callbacks of \<^verbatim>\<open>networking/ws_gateway.cpp\<close>): one thread accepts, one serves each
  peer, and another one may stop the server. An action is a thread running to its next blocking call or lock, a blocking
  call returning with the system's answer, or the next statement of \<open>stop\<close>. A submission holds the mutex of the engine
  until its reply is written; a cancellation and a modification release it before, so that their replies are actions
  of their own.
\<close>

section \<open>The threads\<close>

datatype Acceptor =
    AtLoop
  | InAcceptCall
  | AcceptAnswered bool
  | HasId "64 word"
  | HasPeer PeerHandle
  | AcceptorDone

text \<open>
  Where the thread of a peer is: in \<^verbatim>\<open>recv\<close> for the request, with the bytes so far; at the handshake; at the head of the
  frame loop or in \<^verbatim>\<open>recv\<close> there, with the bytes not yet used; at the actions of the frames just received, or at the reply of
  one of them; at the clean-up, before its socket is closed or before its id is erased; finished.
\<close>

datatype PeerThread =
    AwaitUpgrade (handle: PeerHandle) string
  | Handshaking (handle: PeerHandle) string
  | FrameHead (handle: PeerHandle) string
  | AwaitFrame (handle: PeerHandle) string
  | Performing (handle: PeerHandle) "WsAction list" string WsStatus
  | Replying (handle: PeerHandle) string "WsAction list" string WsStatus
  | LeavingPeer (handle: PeerHandle)
  | ErasingPeer (handle: PeerHandle)
  | PeerDone (handle: PeerHandle)

text \<open>
  Where \<open>stop\<close> is. In \<open>WsClosing ps\<close> it holds the mutex of the table of peers and has still to close the peers \<open>ps\<close>, one after the other: each
  gets a close frame, by a \<^verbatim>\<open>send\<close> that returns when the system has taken the bytes, and then its socket is shut down.
\<close>

datatype WsStopPhase =
    WsNotStopping
  | WsFlagCleared
  | WsListenerClosed
  | WsClosing "(64 word \<times> PeerHandle) list"
  | WsPeersClosed
  | WsJoining nat nat
  | WsStopped

record WsWorld =
  x_sha1 :: "string \<Rightarrow> string"
  x_env :: "nat \<Rightarrow> Env"
  x_nows :: "nat \<Rightarrow> nat \<Rightarrow> int"
  x_stamps :: "nat \<Rightarrow> Timestamp"

text \<open>
  The state, with a history: the chunks each peer's frame loop received, the actions it has done, and the
  commands of all peers in the order in which they were run. \<open>wx_gone\<close>: the process has ended, by undefined behaviour or
  by an exception.
\<close>

record WsSystem =
  wx_gateway :: WsGateway
  wx_listening :: bool
  wx_acceptor :: Acceptor
  wx_threads :: "PeerThread list"
  wx_phase :: WsStopPhase
  wx_raced :: bool
  wx_gone :: bool
  wx_chunks :: "PeerHandle \<Rightarrow> string list"
  wx_done :: "PeerHandle \<Rightarrow> WsAction list"
  wx_log :: "(PeerHandle \<times> WsCommand) list"

datatype WsSysAction =
    RunAcceptor
  | AcceptAnswers bool
  | RunPeer nat bool
  | PeerRecv nat "string option"
  | StopStep

section \<open>Accepting\<close>

definition on_server :: "(WsServer \<Rightarrow> WsServer) \<Rightarrow> WsSystem \<Rightarrow> WsSystem" where
  "on_server f s = s\<lparr>wx_gateway := (wx_gateway s)\<lparr>wg_server := f (wg_server (wx_gateway s))\<rparr>\<rparr>"

abbreviation server :: "WsSystem \<Rightarrow> WsServer" where "server s \<equiv> wg_server (wx_gateway s)"

definition joining :: "WsStopPhase \<Rightarrow> bool" where
  "joining p \<longleftrightarrow> (case p of WsJoining k n \<Rightarrow> True | _ \<Rightarrow> False)"

fun run_acceptor :: "Acceptor \<Rightarrow> WsSystem \<Rightarrow> WsSystem option" where
  "run_acceptor AtLoop s = Some (s\<lparr>wx_acceptor := if ws_running (server s) then InAcceptCall else AcceptorDone\<rparr>)"
| "run_acceptor (AcceptAnswered False) s = Some (s\<lparr>wx_acceptor := if \<not> ws_running (server s) then AcceptorDone else AtLoop\<rparr>)"
| "run_acceptor (AcceptAnswered True) s =
     (let (x, sv) = take_id (server s) in Some ((on_server (\<lambda>_. sv) s)\<lparr>wx_acceptor := HasId x\<rparr>))"
| "run_acceptor (HasId x) s =
     (let (h, sv) = register_peer x (server s) in Some ((on_server (\<lambda>_. sv) s)\<lparr>wx_acceptor := HasPeer h\<rparr>))"
| "run_acceptor (HasPeer h) s =
     Some (s\<lparr>wx_acceptor := AtLoop, wx_threads := wx_threads s @ [AwaitUpgrade h []], wx_raced := wx_raced s \<or> joining (wx_phase s)\<rparr>)"
| "run_acceptor _ s = None"

definition accept_answers :: "bool \<Rightarrow> WsSystem \<Rightarrow> WsSystem option" where
  "accept_answers ok s =
     (if wx_acceptor s \<noteq> InAcceptCall \<or> ok \<and> \<not> wx_listening s then None else Some (s\<lparr>wx_acceptor := AcceptAnswered ok\<rparr>))"

section \<open>Serving a peer\<close>

definition set_peer_thread :: "nat \<Rightarrow> PeerThread \<Rightarrow> WsSystem \<Rightarrow> WsSystem" where
  "set_peer_thread i t s = s\<lparr>wx_threads := (wx_threads s)[i := t]\<rparr>"

text \<open>A command up to the release of the engine's mutex, and the reply that is written afterwards.\<close>

fun start_command :: "WsWorld \<Rightarrow> PeerHandle \<times> WsCommand \<Rightarrow> WsGateway \<Rightarrow> (string option \<times> WsGateway) option" where
  "start_command w (h, WsCancel req i x) g =
     do { (ok, e') \<leftarrow> engine_cancel i x (wg_engine g);
          Some (Some (cancel_reply req ok i x), g\<lparr>wg_engine := e', wg_served := wg_served g + 1\<rparr>) }"
| "start_command w (h, WsModify req i x q px) g =
     do { (r, e') \<leftarrow> engine_modify i x (Quantity q) (Price px) (wg_engine g);
          Some (Some (modify_reply req r i x), g\<lparr>wg_engine := e', wg_served := wg_served g + 1\<rparr>) }"
| "start_command w (h, WsPing req) g = Some (Some (ping_reply req), g\<lparr>wg_served := wg_served g + 1\<rparr>)"
| "start_command w (h, c) g = do { g' \<leftarrow> on_command (x_env w) (x_nows w) (x_stamps w) (h, c) g; Some (None, g') }"

definition frame_command :: "WsAction \<Rightarrow> WsCommand option" where
  "frame_command a = (case a of OnText payload \<Rightarrow> dispatch_command_frame install payload | _ \<Rightarrow> None)"

definition did :: "PeerHandle \<Rightarrow> WsAction \<Rightarrow> WsSystem \<Rightarrow> WsSystem" where
  "did h a s = s\<lparr>wx_done := (wx_done s)(h := wx_done s h @ [a])\<rparr>"

definition run_command :: "WsWorld \<Rightarrow> nat \<Rightarrow> PeerHandle \<Rightarrow> WsCommand \<Rightarrow> WsAction list \<Rightarrow> string \<Rightarrow> WsStatus \<Rightarrow> WsSystem \<Rightarrow> WsSystem" where
  "run_command w i h c acts left st s =
     (case start_command w (h, c) (wx_gateway s) of
        None \<Rightarrow> s\<lparr>wx_gone := True\<rparr>
      | Some (r, g') \<Rightarrow>
          set_peer_thread i (case r of None \<Rightarrow> Performing h acts left st | Some payload \<Rightarrow> Replying h payload acts left st)
            (s\<lparr>wx_gateway := g', wx_log := wx_log s @ [(h, c)]\<rparr>))"

text \<open>
  An action of the frame loop that is not a command: bytes for the peer, or the close of the peer; texts that are no command
  and binary frames have no callback.
\<close>

fun other_action :: "PeerHandle \<Rightarrow> WsAction \<Rightarrow> WsSystem \<Rightarrow> WsSystem" where
  "other_action h (SendBytes bytes) s = on_server (on_peer (send_all bytes) h) s"
| "other_action h (PeerClose code) s = on_server (on_peer (peer_close code) h) s"
| "other_action h _ s = s"

fun run_peer :: "WsWorld \<Rightarrow> nat \<Rightarrow> bool \<Rightarrow> PeerThread \<Rightarrow> WsSystem \<Rightarrow> WsSystem option" where
  "run_peer w i sent (Handshaking h req) s =
     Some (case handshake (x_sha1 w) req of
       Drop \<Rightarrow> set_peer_thread i (LeavingPeer h) s
     | Refuse resp \<Rightarrow> set_peer_thread i (LeavingPeer h) (on_server (on_peer (send_all resp) h) s)
     | Upgrade resp \<Rightarrow> set_peer_thread i (if sent then FrameHead h [] else LeavingPeer h) (on_server (on_peer (send_all resp) h) s))"
| "run_peer w i sent (FrameHead h buf) s =
     Some (set_peer_thread i (if ws_running (server s) \<and> wp_open (ws_objects (server s) ! h) then AwaitFrame h buf else LeavingPeer h) s)"
| "run_peer w i sent (Performing h [] left st) s =
     Some (if st = Crashed then s\<lparr>wx_gone := True\<rparr> else set_peer_thread i (FrameHead h left) s)"
| "run_peer w i sent (Performing h (a # acts) left st) s =
     Some (case frame_command a of
       None \<Rightarrow> set_peer_thread i (Performing h acts left st) (other_action h a (did h a s))
     | Some c \<Rightarrow> run_command w i h c acts left st (did h a s))"
| "run_peer w i sent (Replying h payload acts left st) s =
     Some (set_peer_thread i (Performing h acts left st) (on_server (on_peer (send_text payload) h) s))"
| "run_peer w i sent (LeavingPeer h) s = Some (set_peer_thread i (ErasingPeer h) (on_server (on_peer close_internal h) s))"
| "run_peer w i sent (ErasingPeer h) s = Some (set_peer_thread i (PeerDone h) (on_server (erase_peer h) s))"
| "run_peer w i sent _ s = None"

text \<open>\<^verbatim>\<open>recv\<close> returns: with an end or an error, or with at most 1024 bytes.\<close>

fun recv_chunk :: "nat \<Rightarrow> PeerThread \<Rightarrow> string option \<Rightarrow> WsSystem \<Rightarrow> WsSystem option" where
  "recv_chunk i (AwaitUpgrade h req) None s = Some (set_peer_thread i (LeavingPeer h) s)"
| "recv_chunk i (AwaitUpgrade h req) (Some c) s =
     (if c = [] \<or> 1024 < length c then None
      else Some (set_peer_thread i
        (if length (req @ c) > 16 * 1024 then LeavingPeer h
         else if str_find (crlf @ crlf) (req @ c) \<noteq> None then Handshaking h (req @ c) else AwaitUpgrade h (req @ c)) s))"
| "recv_chunk i (AwaitFrame h buf) None s = Some (set_peer_thread i (LeavingPeer h) s)"
| "recv_chunk i (AwaitFrame h buf) (Some c) s =
     (if c = [] \<or> 1024 < length c then None
      else let (acts, left, st) = serve_frames (buf @ c)
           in Some (set_peer_thread i (Performing h acts left st) (s\<lparr>wx_chunks := (wx_chunks s)(h := wx_chunks s h @ [c])\<rparr>)))"
| "recv_chunk i _ r s = None"

section \<open>Stopping\<close>

definition joinable_done :: "nat \<Rightarrow> WsSystem \<Rightarrow> bool" where
  "joinable_done k s \<longleftrightarrow>
     (case k of 0 \<Rightarrow> wx_acceptor s = AcceptorDone | Suc j \<Rightarrow> is_PeerDone (wx_threads s ! j))"

text \<open>
  The statements of \<open>stop\<close>. The code overwrites the plain integer \<open>listen_fd_\<close> while the accept thread may read it for its next
  \<^verbatim>\<open>accept\<close>: the model takes the descriptor to be read either before or after, and the data race itself is not modelled.
\<close>

fun ws_stop_step :: "WsStopPhase \<Rightarrow> WsSystem \<Rightarrow> WsSystem option" where
  "ws_stop_step WsNotStopping s = Some ((on_server (\<lambda>sv. sv\<lparr>ws_running := False\<rparr>) s)\<lparr>wx_phase := WsFlagCleared\<rparr>)"
| "ws_stop_step WsFlagCleared s = Some (s\<lparr>wx_listening := False, wx_phase := WsListenerClosed\<rparr>)"
| "ws_stop_step WsListenerClosed s = Some (s\<lparr>wx_phase := WsClosing (ws_peers (server s))\<rparr>)"
| "ws_stop_step (WsClosing ((x, h) # ps)) s = Some ((on_server (on_peer (peer_close 1001) h) s)\<lparr>wx_phase := WsClosing ps\<rparr>)"
| "ws_stop_step (WsClosing []) s = Some (s\<lparr>wx_phase := WsPeersClosed\<rparr>)"
| "ws_stop_step WsPeersClosed s = Some (s\<lparr>wx_phase := WsJoining 0 (Suc (length (wx_threads s)))\<rparr>)"
| "ws_stop_step (WsJoining k n) s =
     (if k < n then (if joinable_done k s then Some (s\<lparr>wx_phase := WsJoining (Suc k) n\<rparr>) else None)
      else Some (if Suc (length (wx_threads s)) = n
        then s\<lparr>wx_threads := [], wx_phase := WsStopped,
               wx_gateway := (wx_gateway s)\<lparr>wg_server := (server s)\<lparr>ws_peers := [], ws_peer_ids := []\<rparr>,
                 wg_publisher := unsubscribe (ws_listener (server s)) (wg_publisher (wx_gateway s))\<rparr>\<rparr>
        else s\<lparr>wx_gone := True\<rparr>))"
| "ws_stop_step WsStopped s = None"

text \<open>
  The actions that take the mutex of the table of peers: registering and erasing a peer, and a submission, which broadcasts. They wait while
  \<open>stop\<close> holds it; every other holder releases it within its action.
\<close>

definition takes_peers_mutex :: "WsSysAction \<Rightarrow> WsSystem \<Rightarrow> bool" where
  "takes_peers_mutex a s \<longleftrightarrow>
     (case a of
        RunAcceptor \<Rightarrow> (case wx_acceptor s of HasId x \<Rightarrow> True | _ \<Rightarrow> False)
      | RunPeer i sent \<Rightarrow>
          (case wx_threads s ! i of
             ErasingPeer h \<Rightarrow> True
           | Performing h (act # acts) left st \<Rightarrow> (case frame_command act of Some (WsSubmit req j trader side px q tif) \<Rightarrow> True | _ \<Rightarrow> False)
           | _ \<Rightarrow> False)
      | _ \<Rightarrow> False)"

definition waits_for_stop :: "WsSysAction \<Rightarrow> WsSystem \<Rightarrow> bool" where
  "waits_for_stop a s \<longleftrightarrow> (case wx_phase s of WsClosing ps \<Rightarrow> takes_peers_mutex a s | _ \<Rightarrow> False)"

fun ws_step :: "WsWorld \<Rightarrow> WsSysAction \<Rightarrow> WsSystem \<Rightarrow> WsSystem option" where
  "ws_step w RunAcceptor s = (if wx_gone s \<or> waits_for_stop RunAcceptor s then None else run_acceptor (wx_acceptor s) s)"
| "ws_step w (AcceptAnswers ok) s = (if wx_gone s then None else accept_answers ok s)"
| "ws_step w (RunPeer i sent) s =
     (if wx_gone s \<or> length (wx_threads s) \<le> i \<or> waits_for_stop (RunPeer i sent) s then None else run_peer w i sent (wx_threads s ! i) s)"
| "ws_step w (PeerRecv i r) s = (if wx_gone s \<or> length (wx_threads s) \<le> i then None else recv_chunk i (wx_threads s ! i) r s)"
| "ws_step w StopStep s = (if wx_gone s then None else ws_stop_step (wx_phase s) s)"

definition ws_system :: "Engine \<Rightarrow> Publisher \<Rightarrow> ListenerId \<Rightarrow> WsSystem" where
  "ws_system e pub l =
     (let (pub', sv) = WsServer_start pub (new_WsServer l)
      in \<lparr>wx_gateway = \<lparr>wg_engine = e, wg_publisher = pub', wg_server = sv, wg_served = 0\<rparr>, wx_listening = True,
          wx_acceptor = AtLoop, wx_threads = [], wx_phase = WsNotStopping, wx_raced = False, wx_gone = False,
          wx_chunks = (\<lambda>_. []), wx_done = (\<lambda>_. []), wx_log = []\<rparr>)"

text \<open>A run: a client connects, upgrades and sends a ping, while the server is being stopped.\<close>

definition sample_world_ws :: WsWorld where
  "sample_world_ws = \<lparr>x_sha1 = take 20, x_env = (\<lambda>_. demo_env), x_nows = (\<lambda>_ _. 1), x_stamps = (\<lambda>_. 0)\<rparr>"

definition sample_connection :: "string \<Rightarrow> string \<Rightarrow> WsSysAction list" where
  "sample_connection upgrade frame =
     [RunAcceptor, AcceptAnswers True, RunAcceptor, RunAcceptor, RunAcceptor, PeerRecv 0 (Some upgrade), RunPeer 0 True, RunPeer 0 True,
      PeerRecv 0 (Some frame), RunPeer 0 True, StopStep, RunPeer 0 True, StopStep]"

definition sample_actions :: "WsSysAction list" where
  "sample_actions = sample_connection example_upgrade (client_frame 1 ''k3y!'' (command_text (WsPing ''7'')))"

section \<open>What the threads should do\<close>

text \<open>The engine after commands that run one after the other.\<close>

fun commands_engine :: "WsWorld \<Rightarrow> nat \<Rightarrow> WsCommand list \<Rightarrow> Engine \<Rightarrow> Engine option" where
  "commands_engine w n [] e = Some e"
| "commands_engine w n (c # cs) e =
     (case ws_engine_command (x_env w n) (x_nows w n) (x_stamps w n) c of
        None \<Rightarrow> commands_engine w (Suc n) cs e
      | Some k \<Rightarrow> Option.bind (engine_step k e) (commands_engine w (Suc n) cs))"

text \<open>What a run may contain: commands that are safe for the engine, no frame with a wrapped length, no lost thread.\<close>

fun ws_ok :: "WsWorld \<Rightarrow> WsSysAction \<Rightarrow> WsSystem \<Rightarrow> bool" where
  "ws_ok w (RunPeer i sent) s \<longleftrightarrow> i < length (wx_threads s) \<longrightarrow>
     (case wx_threads s ! i of
        Performing h (a # acts) left st \<Rightarrow>
          (case frame_command a of None \<Rightarrow> True | Some c \<Rightarrow> ws_guard (x_env w) (x_nows w) (x_stamps w) (h, c) (wx_gateway s))
      | _ \<Rightarrow> True)"
| "ws_ok w (PeerRecv i (Some c)) s \<longleftrightarrow> i < length (wx_threads s) \<longrightarrow>
     (case wx_threads s ! i of AwaitFrame h buf \<Rightarrow> snd (snd (serve_frames (buf @ c))) \<noteq> Crashed | _ \<Rightarrow> True)"
| "ws_ok w StopStep s \<longleftrightarrow> (case wx_phase s of WsJoining k n \<Rightarrow> Suc (length (wx_threads s)) = n | _ \<Rightarrow> True)"
| "ws_ok w _ s \<longleftrightarrow> True"

abbreviation peer_open :: "WsSystem \<Rightarrow> PeerHandle \<Rightarrow> bool" where
  "peer_open s h \<equiv> wp_open (ws_objects (server s) ! h)"

definition close_pending :: "WsAction list \<Rightarrow> bool \<Rightarrow> bool" where
  "close_pending acts opn \<longleftrightarrow> (if acts = [] then \<not> opn else last acts = PeerClose 1000)"

text \<open>
  How far a thread is with what its peer sent: the chunks its frame loop received, the actions it has done.
\<close>

fun conn_ok :: "string list \<Rightarrow> WsAction list \<Rightarrow> bool \<Rightarrow> PeerThread \<Rightarrow> bool" where
  "conn_ok chunks acted opn (AwaitUpgrade h req) \<longleftrightarrow> chunks = [] \<and> acted = []"
| "conn_ok chunks acted opn (Handshaking h req) \<longleftrightarrow> chunks = [] \<and> acted = []"
| "conn_ok chunks acted opn (FrameHead h buf) \<longleftrightarrow>
     (\<exists>left st. serve_chunks [] chunks = (acted, left, st) \<and> (st = Serving \<and> left = buf \<or> st = Closing \<and> \<not> opn))"
| "conn_ok chunks acted opn (AwaitFrame h buf) \<longleftrightarrow> serve_chunks [] chunks = (acted, buf, Serving)"
| "conn_ok chunks acted opn (Performing h acts left st) \<longleftrightarrow>
     serve_chunks [] chunks = (acted @ acts, left, st) \<and> st \<noteq> Crashed \<and> (st = Closing \<longrightarrow> close_pending acts opn)"
| "conn_ok chunks acted opn (Replying h payload acts left st) \<longleftrightarrow>
     serve_chunks [] chunks = (acted @ acts, left, st) \<and> st \<noteq> Crashed \<and> (st = Closing \<longrightarrow> close_pending acts opn)"
| "conn_ok chunks acted opn (LeavingPeer h) \<longleftrightarrow> acted = fst (serve_chunks [] chunks)"
| "conn_ok chunks acted opn (ErasingPeer h) \<longleftrightarrow> acted = fst (serve_chunks [] chunks)"
| "conn_ok chunks acted opn (PeerDone h) \<longleftrightarrow> acted = fst (serve_chunks [] chunks)"

text \<open>Peers stay, keep their ids, and are not opened again.\<close>

definition objects_frame :: "WsServer \<Rightarrow> WsServer \<Rightarrow> bool" where
  "objects_frame s s' \<longleftrightarrow> length (ws_objects s') = length (ws_objects s) \<and>
     (\<forall>k < length (ws_objects s). wp_id (ws_objects s' ! k) = wp_id (ws_objects s ! k) \<and>
        (wp_open (ws_objects s' ! k) \<longrightarrow> wp_open (ws_objects s ! k)))"

definition server_frame :: "WsServer \<Rightarrow> WsServer \<Rightarrow> bool" where
  "server_frame s s' \<longleftrightarrow> objects_frame s s' \<and> ws_peers s' = ws_peers s \<and> ws_peer_ids s' = ws_peer_ids s \<and> ws_running s' = ws_running s"

definition conns_ok :: "WsSystem \<Rightarrow> bool" where
  "conns_ok s \<longleftrightarrow> distinct (map handle (wx_threads s)) \<and>
     (\<forall>t \<in> set (wx_threads s). handle t < length (ws_objects (server s)) \<and>
        conn_ok (wx_chunks s (handle t)) (wx_done s (handle t)) (peer_open s (handle t)) t) \<and>
     (\<forall>h. wx_acceptor s = HasPeer h \<longrightarrow> h < length (ws_objects (server s)) \<and> h \<notin> handle ` set (wx_threads s) \<and>
        wx_chunks s h = [] \<and> wx_done s h = []) \<and>
     (\<forall>h \<ge> length (ws_objects (server s)). wx_chunks s h = [] \<and> wx_done s h = []) \<and>
     (\<forall>h. prefix (wx_done s h) (fst (serve_chunks [] (wx_chunks s h))))"

definition log_ok :: "WsWorld \<Rightarrow> Engine \<Rightarrow> WsSystem \<Rightarrow> bool" where
  "log_ok w e s \<longleftrightarrow> wg_served (wx_gateway s) = length (wx_log s) \<and>
     commands_engine w 0 (map snd (wx_log s)) e = Some (wg_engine (wx_gateway s)) \<and>
     (\<forall>h. map snd (filter (\<lambda>(k, _). k = h) (wx_log s)) = List.map_filter frame_command (wx_done s h))"

definition sys_inv :: "WsWorld \<Rightarrow> Engine \<Rightarrow> WsSystem \<Rightarrow> bool" where
  "sys_inv w e s \<longleftrightarrow> \<not> wx_gone s \<and> ws_inv (wx_gateway s) \<and> conns_ok s \<and> log_ok w e s"

section \<open>Frames: lemmas\<close>

lemma objects_frame_refl [simp]: "objects_frame s s"
  by (simp add: objects_frame_def)

lemma objects_frame_trans: "objects_frame s s1 \<Longrightarrow> objects_frame s1 s2 \<Longrightarrow> objects_frame s s2"
  by (simp add: objects_frame_def)

lemma objects_frame_on_peer:
  "(\<And>p. wp_id (f p) = wp_id p) \<Longrightarrow> (\<And>p. wp_open (f p) \<Longrightarrow> wp_open p) \<Longrightarrow> objects_frame s (on_peer f h s)"
  by (simp add: objects_frame_def on_peer_nth)

lemma server_frame_refl [simp]: "server_frame s s"
  by (simp add: server_frame_def)

lemma server_frame_trans: "server_frame s s1 \<Longrightarrow> server_frame s1 s2 \<Longrightarrow> server_frame s s2"
  by (auto simp: server_frame_def intro: objects_frame_trans)

lemma server_frame_on_peer:
  "(\<And>p. wp_id (f p) = wp_id p) \<Longrightarrow> (\<And>p. wp_open (f p) \<Longrightarrow> wp_open p) \<Longrightarrow> server_frame s (on_peer f h s)"
  by (simp add: server_frame_def objects_frame_on_peer)

lemma server_frame_sends:
  "server_frame s (on_peer (send_all b) h s)" "server_frame s (on_peer (send_text t) h s)" "server_frame s (on_peer (peer_close code) h s)"
  "server_frame s (on_peer close_internal h s)"
  by (rule server_frame_on_peer; simp add: peer_close_def)+

lemma server_frame_fold:
  "(\<And>x s. server_frame s (f x s)) \<Longrightarrow> server_frame s (fold f xs s)"
  by (induction xs arbitrary: s) (auto intro: server_frame_trans)

lemma server_frame_broadcast: "server_frame s (broadcast_text t s)"
  unfolding broadcast_text_def by (rule server_frame_fold) (simp add: server_frame_sends split: prod.splits del: send_texts_simps)

lemma server_frame_listener: "Listener_on e pub call s = Some s' \<Longrightarrow> server_frame s s'"
  by (cases "snd call"; cases call)
    (auto simp: on_publisher_event_def on_publisher_tob_def server_frame_broadcast split: if_splits option.splits)

lemma server_frame_run: "(\<And>c s s'. step c s = Some s' \<Longrightarrow> server_frame (f s) (f s')) \<Longrightarrow> run_steps step cs s = Some s' \<Longrightarrow> server_frame (f s) (f s')"
proof (induction cs arbitrary: s)
  case (Cons c cs)
  then obtain s1 where "step c s = Some s1" "run_steps step cs s1 = Some s'" by (auto split: option.splits)
  with Cons show ?case using server_frame_trans by blast
qed simp

lemma server_frame_sink: "PerPeerSink_on h req ev g = Some g' \<Longrightarrow> server_frame (wg_server g) (wg_server g')"
proof -
  assume "PerPeerSink_on h req ev g = Some g'"
  then obtain pub calls s where s: "run_steps (Listener_on (snd ev) pub) calls (wg_server g) = Some s"
    "g' = (case fst ev of OnTrade t \<Rightarrow> g\<lparr>wg_publisher := pub, wg_server := s\<rparr>
       | OnSubmitResult r \<Rightarrow> reply h (submit_reply req r) (g\<lparr>wg_publisher := pub, wg_server := s\<rparr>))"
    by (auto simp: PerPeerSink_on_def bind_eq_Some_conv Let_def)
  from server_frame_run [of _ "\<lambda>s. s", OF server_frame_listener s(1)] have "server_frame (wg_server g) s" by simp
  then show ?thesis using s(2) server_frame_trans [OF _ server_frame_sends(2)]
    by (auto simp: reply_def simp del: send_texts_simps split: SinkEvent.splits)
qed

lemma start_command_frame: "start_command w (h, c) g = Some (r, g') \<Longrightarrow> server_frame (wg_server g) (wg_server g')"
proof (cases c)
  case (WsSubmit req i trader side px q tif)
  assume "start_command w (h, c) g = Some (r, g')"
  with WsSubmit obtain e' trace g0 where "run_steps (PerPeerSink_on h req) trace g0 = Some g'" "wg_server g0 = wg_server g"
    by (auto simp: bind_eq_Some_conv)
  with server_frame_run [of _ wg_server, OF server_frame_sink this(1)] show ?thesis by simp
qed (auto simp: bind_eq_Some_conv)

lemma objects_frame_open: "objects_frame s s' \<Longrightarrow> h < length (ws_objects s) \<Longrightarrow> wp_open (ws_objects s' ! h) \<Longrightarrow> wp_open (ws_objects s ! h)"
  by (simp add: objects_frame_def)

lemma objects_frame_erase: "objects_frame s (erase_peer h s)"
  by (auto simp: erase_peer_def Let_def objects_frame_def)

section \<open>Connections: lemmas\<close>

lemma serve_chunks_snoc:
  "serve_chunks f cs = (acts, left, Serving) \<Longrightarrow> serve_frames (left @ c) = (acts', left', st) \<Longrightarrow>
   serve_chunks f (cs @ [c]) = (acts @ acts', left', st)"
proof (induction cs arbitrary: f acts)
  case Nil
  then show ?case by (cases st) simp_all
next
  case (Cons d cs)
  obtain a1 l1 s1 where d: "serve_frames (f @ d) = (a1, l1, s1)" by (cases "serve_frames (f @ d)") auto
  with Cons.prems(1) have "s1 = Serving" by (cases s1) auto
  moreover obtain a2 where "serve_chunks l1 cs = (a2, left, Serving)" "acts = a1 @ a2"
    using Cons.prems(1) d \<open>s1 = Serving\<close> by (auto split: prod.splits)
  ultimately show ?case using Cons.IH [of l1 a2] Cons.prems(2) d by simp
qed

lemma serve_frames_close: "serve_frames f = (acts, left, Closing) \<Longrightarrow> acts \<noteq> [] \<and> last acts = PeerClose 1000"
proof (induction f arbitrary: acts left rule: serve_frames.induct)
  case (1 frame)
  then show ?case
    by (subst (asm) (2) serve_frames.simps) (auto split: NextFrame.splits if_splits prod.splits)
qed

lemma serve_frames_length: "serve_frames f = (acts, left, st) \<Longrightarrow> length acts \<le> length f"
proof (induction f arbitrary: acts left rule: serve_frames.induct)
  case (1 frame)
  show ?case
  proof (cases "next_frame frame")
    case (NextFrame opc payload rest)
    then have less: "length rest < length frame" by (rule next_frame_rest)
    show ?thesis
    proof (cases "opc = 0x8")
      case True
      with NextFrame 1(2) less show ?thesis by (subst (asm) serve_frames.simps) auto
    next
      case False
      obtain a l s where r: "serve_frames rest = (a, l, s)" by (cases "serve_frames rest") auto
      with 1(1) [OF NextFrame False] less have "Suc (length a) \<le> length frame" using 1(2) NextFrame False
        by (subst (asm) serve_frames.simps) auto
      with r NextFrame False 1(2) show ?thesis by (subst (asm) serve_frames.simps) (auto simp: frame_action_def)
    qed
  qed (use 1(2) in \<open>(subst (asm) serve_frames.simps, simp)+\<close>)
qed

lemma conn_ok_antitone: "conn_ok chunks acted opn t \<Longrightarrow> (opn' \<Longrightarrow> opn) \<Longrightarrow> conn_ok chunks acted opn' t"
  by (cases t) (auto simp: close_pending_def split: if_splits)

lemma conn_ok_prefix: "conn_ok chunks acted opn t \<Longrightarrow> prefix acted (fst (serve_chunks [] chunks))"
  by (cases t) auto

text \<open>One thread takes a step: everything about the other connections stays.\<close>

lemma conns_ok_move:
  assumes inv: "conns_ok s" and i: "i < length (wx_threads s)" and h: "handle (wx_threads s ! i) = h"
    and t: "wx_threads s' = (wx_threads s)[i := t]" "handle t = h" "wx_acceptor s' = wx_acceptor s"
    and frame: "objects_frame (server s) (server s')"
    and other: "\<forall>k. k \<noteq> h \<longrightarrow> wx_chunks s' k = wx_chunks s k \<and> wx_done s' k = wx_done s k"
    and ok: "conn_ok (wx_chunks s' h) (wx_done s' h) (peer_open s' h) t"
  shows "conns_ok s'"
proof -
  have hs: "map handle (wx_threads s') = map handle (wx_threads s)"
    using i h t(2) by (simp add: t(1) map_update list_update_same_conv)
  then have set: "handle ` set (wx_threads s') = handle ` set (wx_threads s)" by (metis set_map)
  have len: "length (ws_objects (server s')) = length (ws_objects (server s))" using frame by (simp add: objects_frame_def)
  have hl: "h < length (ws_objects (server s))" "h \<in> handle ` set (wx_threads s)" using inv i h by (auto simp: conns_ok_def)
  have th: "handle u < length (ws_objects (server s')) \<and> conn_ok (wx_chunks s' (handle u)) (wx_done s' (handle u)) (peer_open s' (handle u)) u"
    if u: "u \<in> set (wx_threads s')" for u
  proof (cases "u = t")
    case True
    with ok t(2) hl len show ?thesis by simp
  next
    case False
    then obtain j where j: "j < length (wx_threads s)" "u = wx_threads s ! j" "j \<noteq> i"
      using u i by (auto simp: t(1) in_set_conv_nth nth_list_update split: if_splits)
    have "handle u \<noteq> h"
      using inv j i h nth_eq_iff_index_eq [of "map handle (wx_threads s)" j i] by (auto simp: conns_ok_def)
    moreover have "handle u < length (ws_objects (server s))" "conn_ok (wx_chunks s (handle u)) (wx_done s (handle u)) (peer_open s (handle u)) u"
      using inv j by (auto simp: conns_ok_def)
    ultimately show ?thesis using other len objects_frame_open [OF frame, of "handle u"] conn_ok_antitone by auto
  qed
  have "prefix (wx_done s' k) (fst (serve_chunks [] (wx_chunks s' k)))" for k
    using inv other conn_ok_prefix [OF ok] by (cases "k = h") (auto simp: conns_ok_def)
  moreover have "wx_chunks s' k = [] \<and> wx_done s' k = []" if "wx_acceptor s = HasPeer k" for k
  proof -
    have "k \<notin> handle ` set (wx_threads s)" "wx_chunks s k = []" "wx_done s k = []" using inv that by (simp_all add: conns_ok_def)
    moreover from this(1) hl(2) have "k \<noteq> h" by metis
    ultimately show ?thesis using other by simp
  qed
  moreover have "wx_chunks s' k = [] \<and> wx_done s' k = []" if "length (ws_objects (server s)) \<le> k" for k
    using inv other hl(1) that by (auto simp: conns_ok_def)
  ultimately show ?thesis using inv th hl unfolding conns_ok_def hs set len t(3) by (simp add: len)
qed

section \<open>Commands: lemmas\<close>

lemma commands_engine_snoc:
  "commands_engine w n cs e = Some e1 \<Longrightarrow>
   commands_engine w n (cs @ [c]) e = (case ws_engine_command (x_env w (n + length cs)) (x_nows w (n + length cs)) (x_stamps w (n + length cs)) c of
     None \<Rightarrow> Some e1 | Some k \<Rightarrow> engine_step k e1)"
proof (induction cs arbitrary: n e)
  case Nil
  then show ?case by (auto split: option.splits) (metis Option.bind.bind_lunit bind_runit commands_engine.simps(1) ext)
next
  case (Cons d cs)
  then show ?case by (auto split: option.splits simp: bind_eq_Some_conv)
qed

lemma start_command_ok:
  assumes "ws_inv g" "ws_guard (x_env w) (x_nows w) (x_stamps w) (h, c) g"
  shows "\<exists>r g'. start_command w (h, c) g = Some (r, g') \<and> ws_inv g' \<and> wg_served g' = Suc (wg_served g) \<and>
    (case ws_engine_command (x_env w (wg_served g)) (x_nows w (wg_served g)) (x_stamps w (wg_served g)) c of
       None \<Rightarrow> wg_engine g' = wg_engine g | Some k \<Rightarrow> engine_step k (wg_engine g) = Some (wg_engine g'))"
proof -
  from on_command_refines [OF assms] obtain g' where g': "on_command (x_env w) (x_nows w) (x_stamps w) (h, c) g = Some g'" "ws_inv g'"
    "wg_served g' = Suc (wg_served g)"
    "case ws_engine_command (x_env w (wg_served g)) (x_nows w (wg_served g)) (x_stamps w (wg_served g)) c of
       None \<Rightarrow> wg_engine g' = wg_engine g | Some k \<Rightarrow> engine_step k (wg_engine g) = Some (wg_engine g')" by blast
  then show ?thesis using assms(1)
    by (cases c) (auto simp: bind_eq_Some_conv ws_inv_def reply_def simp del: send_texts_simps)
qed

lemma log_ok_frame:
  assumes "log_ok w e s" "wx_log s' = wx_log s" "wg_engine (wx_gateway s') = wg_engine (wx_gateway s)"
    "wg_served (wx_gateway s') = wg_served (wx_gateway s)"
    "\<And>h. List.map_filter frame_command (wx_done s' h) = List.map_filter frame_command (wx_done s h)"
  shows "log_ok w e s'"
  using assms by (simp add: log_ok_def)

lemma log_ok_command:
  assumes "log_ok w e s" "start_command w (h, c) (wx_gateway s) = Some (r, g')" "wg_served g' = Suc (wg_served (wx_gateway s))"
    "case ws_engine_command (x_env w (wg_served (wx_gateway s))) (x_nows w (wg_served (wx_gateway s))) (x_stamps w (wg_served (wx_gateway s))) c of
       None \<Rightarrow> wg_engine g' = wg_engine (wx_gateway s) | Some k \<Rightarrow> engine_step k (wg_engine (wx_gateway s)) = Some (wg_engine g')"
    "wx_log s' = wx_log s @ [(h, c)]" "wx_gateway s' = g'" "wx_done s' = (wx_done s)(h := wx_done s h @ [a])" "frame_command a = Some c"
  shows "log_ok w e s'"
proof -
  have "commands_engine w 0 (map snd (wx_log s) @ [c]) e = Some (wg_engine g')"
    using assms(1,4) commands_engine_snoc [of w 0 "map snd (wx_log s)" e "wg_engine (wx_gateway s)" c]
    by (auto simp: log_ok_def split: option.splits)
  moreover have "map snd (filter (\<lambda>(k, _). k = j) (wx_log s')) = List.map_filter frame_command (wx_done s' j)" for j
    using assms(1) by (simp add: assms(5,7,8) log_ok_def List.map_filter_simps)
  ultimately show ?thesis using assms(1,3) by (simp add: log_ok_def assms(5,6))
qed

lemma on_server_simps [simp]:
  "wx_gateway (on_server f s) = (wx_gateway s)\<lparr>wg_server := f (server s)\<rparr>" "wx_threads (on_server f s) = wx_threads s"
  "wx_acceptor (on_server f s) = wx_acceptor s" "wx_chunks (on_server f s) = wx_chunks s" "wx_done (on_server f s) = wx_done s"
  "wx_log (on_server f s) = wx_log s" "wx_gone (on_server f s) = wx_gone s" "wx_phase (on_server f s) = wx_phase s"
  "wx_raced (on_server f s) = wx_raced s" "wx_listening (on_server f s) = wx_listening s"
  by (simp_all add: on_server_def)

lemma set_peer_thread_simps [simp]:
  "wx_gateway (set_peer_thread i t s) = wx_gateway s" "wx_threads (set_peer_thread i t s) = (wx_threads s)[i := t]"
  "wx_acceptor (set_peer_thread i t s) = wx_acceptor s" "wx_chunks (set_peer_thread i t s) = wx_chunks s"
  "wx_done (set_peer_thread i t s) = wx_done s" "wx_log (set_peer_thread i t s) = wx_log s" "wx_gone (set_peer_thread i t s) = wx_gone s"
  "wx_phase (set_peer_thread i t s) = wx_phase s" "wx_raced (set_peer_thread i t s) = wx_raced s"
  "wx_listening (set_peer_thread i t s) = wx_listening s"
  by (simp_all add: set_peer_thread_def)

lemma did_simps [simp]:
  "wx_gateway (did h a s) = wx_gateway s" "wx_threads (did h a s) = wx_threads s" "wx_acceptor (did h a s) = wx_acceptor s"
  "wx_chunks (did h a s) = wx_chunks s" "wx_done (did h a s) = (wx_done s)(h := wx_done s h @ [a])" "wx_log (did h a s) = wx_log s"
  "wx_gone (did h a s) = wx_gone s" "wx_phase (did h a s) = wx_phase s" "wx_raced (did h a s) = wx_raced s"
  "wx_listening (did h a s) = wx_listening s"
  by (simp_all add: did_def)

text \<open>A step that does no command: the tables and the engine are looked after as follows.\<close>

lemma sys_inv_move:
  assumes inv: "sys_inv w e s" and i: "i < length (wx_threads s)" "handle (wx_threads s ! i) = h"
    and t: "wx_threads s' = (wx_threads s)[i := t]" "handle t = h" "wx_acceptor s' = wx_acceptor s" "wx_gone s' = wx_gone s" "wx_log s' = wx_log s"
    and g: "wx_gateway s' = (wx_gateway s)\<lparr>wg_server := sv\<rparr>" "objects_frame (server s) sv" "server_inv (server s) \<longrightarrow> server_inv sv"
    and other: "\<forall>k. k \<noteq> h \<longrightarrow> wx_chunks s' k = wx_chunks s k \<and> wx_done s' k = wx_done s k"
    and acts: "List.map_filter frame_command (wx_done s' h) = List.map_filter frame_command (wx_done s h)"
    and ok: "conn_ok (wx_chunks s' h) (wx_done s' h) (peer_open s' h) t"
  shows "sys_inv w e s'"
proof -
  have "conns_ok s'" by (rule conns_ok_move [of s i h s' t]) (use inv i t g other ok in \<open>simp_all add: sys_inv_def\<close>)
  moreover have "List.map_filter frame_command (wx_done s' k) = List.map_filter frame_command (wx_done s k)" for k
    using other acts by (cases "k = h") simp_all
  then have "log_ok w e s'" using inv t g by (intro log_ok_frame [of w e s s']) (simp_all add: sys_inv_def)
  ultimately show ?thesis using inv t g by (simp add: sys_inv_def ws_inv_def)
qed

section \<open>Steps: lemmas\<close>

lemma thread_conn:
  assumes "sys_inv w e s" "i < length (wx_threads s)" "wx_threads s ! i = t"
  shows "handle t < length (ws_objects (server s))" "conn_ok (wx_chunks s (handle t)) (wx_done s (handle t)) (peer_open s (handle t)) t"
  using assms nth_mem [of i "wx_threads s"] by (auto simp: sys_inv_def conns_ok_def)

lemma other_action_gateway: "\<exists>sv. wx_gateway (other_action h a s) = (wx_gateway s)\<lparr>wg_server := sv\<rparr> \<and> server_frame (server s) sv \<and>
    (server_inv (server s) \<longrightarrow> server_inv sv) \<and> (\<forall>code. a = PeerClose code \<and> h < length (ws_objects (server s)) \<longrightarrow> \<not> wp_open (ws_objects sv ! h))"
proof (cases a)
  case (SendBytes bytes)
  then show ?thesis using server_frame_sends(1) [of "server s"] server_inv_on_peer [of "server s" "send_all bytes"]
    by (intro exI [of _ "on_peer (send_all bytes) h (server s)"]) simp
next
  case (PeerClose code)
  then show ?thesis using server_frame_sends(3) [of "server s"] server_inv_on_peer [of "server s" "peer_close code"]
    by (intro exI [of _ "on_peer (peer_close code) h (server s)"]) (simp add: on_peer_nth peer_close_def)
qed (auto intro: exI [of _ "server s"])

lemma other_action_simps [simp]:
  "wx_threads (other_action h a s) = wx_threads s" "wx_acceptor (other_action h a s) = wx_acceptor s"
  "wx_chunks (other_action h a s) = wx_chunks s" "wx_done (other_action h a s) = wx_done s" "wx_log (other_action h a s) = wx_log s"
  "wx_gone (other_action h a s) = wx_gone s" "wx_phase (other_action h a s) = wx_phase s" "wx_raced (other_action h a s) = wx_raced s"
  "wx_listening (other_action h a s) = wx_listening s"
  by (cases a; simp)+

lemma perform_inv:
  assumes inv: "sys_inv w e s" and i: "i < length (wx_threads s)" and t: "wx_threads s ! i = Performing h (a # acts) left st"
    and ok: "ws_ok w (RunPeer i sent) s" and step: "run_peer w i sent (Performing h (a # acts) left st) s = Some s'"
  shows "sys_inv w e s'"
proof -
  from thread_conn [OF inv i t] have h: "h < length (ws_objects (server s))" and
    c: "serve_chunks [] (wx_chunks s h) = (wx_done s h @ a # acts, left, st)" "st \<noteq> Crashed" "st = Closing \<longrightarrow> close_pending (a # acts) (peer_open s h)"
    by simp_all
  show ?thesis
  proof (cases "frame_command a")
    case None
    obtain sv where sv: "wx_gateway (other_action h a (did h a s)) = (wx_gateway s)\<lparr>wg_server := sv\<rparr>" "server_frame (server s) sv"
      "server_inv (server s) \<longrightarrow> server_inv sv" "\<forall>code. a = PeerClose code \<and> h < length (ws_objects (server s)) \<longrightarrow> \<not> wp_open (ws_objects sv ! h)"
      using other_action_gateway [of h a "did h a s"] by auto
    have "s' = set_peer_thread i (Performing h acts left st) (other_action h a (did h a s))" using step None by simp
    moreover have "st = Closing \<longrightarrow> close_pending acts (wp_open (ws_objects sv ! h))"
      using c(3) sv(4) h by (auto simp: close_pending_def split: if_splits)
    ultimately show ?thesis using sv c h
      by (intro sys_inv_move [OF inv i, of h s' "Performing h acts left st" sv])
        (simp_all add: t None List.map_filter_simps server_frame_def)
  next
    case (Some c)
    with ok i t have "ws_guard (x_env w) (x_nows w) (x_stamps w) (h, c) (wx_gateway s)" by simp
    from start_command_ok [OF _ this] inv obtain r g' where g': "start_command w (h, c) (wx_gateway s) = Some (r, g')" "ws_inv g'"
      "wg_served g' = Suc (wg_served (wx_gateway s))"
      "case ws_engine_command (x_env w (wg_served (wx_gateway s))) (x_nows w (wg_served (wx_gateway s))) (x_stamps w (wg_served (wx_gateway s))) c of
         None \<Rightarrow> wg_engine g' = wg_engine (wx_gateway s) | Some k \<Rightarrow> engine_step k (wg_engine (wx_gateway s)) = Some (wg_engine g')"
      by (auto simp: sys_inv_def)
    have frame: "objects_frame (server s) (wg_server g')" using start_command_frame [OF g'(1)] by (simp add: server_frame_def)
    let ?t = "case r of None \<Rightarrow> Performing h acts left st | Some payload \<Rightarrow> Replying h payload acts left st"
    have s': "s' = set_peer_thread i ?t ((did h a s)\<lparr>wx_gateway := g', wx_log := wx_log s @ [(h, c)]\<rparr>)"
      using step Some g'(1) by (simp add: run_command_def)
    have "acts \<noteq> []" if "st = Closing" using c(3) Some that by (auto simp: close_pending_def frame_command_def split: if_splits)
    then have "conn_ok (wx_chunks s' h) (wx_done s' h) (peer_open s' h) ?t"
      using c by (auto simp: s' close_pending_def split: option.splits)
    then have "conns_ok s'" using inv i frame
      by (intro conns_ok_move [of s i h s' ?t]) (simp_all add: sys_inv_def t s' split: option.splits)
    moreover have "log_ok w e s'" using inv by (intro log_ok_command [OF _ g'(1,3,4), of _ s' a]) (simp_all add: sys_inv_def s' Some)
    ultimately show ?thesis using inv g'(2) by (simp add: sys_inv_def s')
  qed
qed

lemma handshake_inv:
  assumes inv: "sys_inv w e s" and i: "i < length (wx_threads s)" and Handshaking: "wx_threads s ! i = Handshaking h req"
    and step: "run_peer w i sent (wx_threads s ! i) s = Some s'"
  shows "sys_inv w e s'"
proof -
  note c = thread_conn [OF inv i Handshaking]
  have sends: "server_inv (server s) \<longrightarrow> server_inv (on_peer (send_all b) h (server s))" "objects_frame (server s) (on_peer (send_all b) h (server s))" for b
    using server_frame_sends(1) [of "server s" b h] by (auto simp: server_frame_def server_inv_on_peer)
  show ?thesis
  proof (cases "handshake (x_sha1 w) req")
    case Drop
    with step Handshaking c show ?thesis by (intro sys_inv_move [OF inv i, of h s' "LeavingPeer h" "server s"]) auto
  next
    case (Refuse resp)
    with step Handshaking c sends [of resp] show ?thesis
      by (intro sys_inv_move [OF inv i, of h s' "LeavingPeer h" "on_peer (send_all resp) h (server s)"]) auto
  next
    case (Upgrade resp)
    with step Handshaking c sends [of resp] show ?thesis
      by (intro sys_inv_move [OF inv i, of h s' "if sent then FrameHead h [] else LeavingPeer h" "on_peer (send_all resp) h (server s)"]) auto
  qed
qed

lemma run_peer_inv:
  assumes inv: "sys_inv w e s" and i: "i < length (wx_threads s)" and ok: "ws_ok w (RunPeer i sent) s"
    and step: "run_peer w i sent (wx_threads s ! i) s = Some s'"
  shows "sys_inv w e s'"
proof (cases "wx_threads s ! i")
  case (Handshaking h req)
  then show ?thesis using handshake_inv [OF inv i] step by blast
next
  case (FrameHead h buf)
  note c = thread_conn [OF inv i FrameHead]
  from step FrameHead c show ?thesis
    by (intro sys_inv_move [OF inv i, of h s' "if ws_running (server s) \<and> peer_open s h then AwaitFrame h buf else LeavingPeer h" "server s"]) auto
next
  case (Performing h acts left st)
  note c = thread_conn [OF inv i Performing]
  show ?thesis
  proof (cases acts)
    case Nil
    have "st = Serving \<or> st = Closing" using c(2) by (cases st) simp_all
    with step Performing c Nil show ?thesis
      by (intro sys_inv_move [OF inv i, of h s' "FrameHead h left" "server s"]) (auto simp: close_pending_def)
  next
    case (Cons a as)
    with perform_inv [OF inv i] Performing ok step show ?thesis by simp
  qed
next
  case (Replying h payload acts left st)
  note c = thread_conn [OF inv i Replying]
  have "wp_open (ws_objects (on_peer (send_text payload) h (server s)) ! h) = peer_open s h" using c(1) by (simp add: on_peer_nth)
  with step Replying c server_frame_sends(2) [of "server s" payload h] show ?thesis
    by (intro sys_inv_move [OF inv i, of h s' "Performing h acts left st" "on_peer (send_text payload) h (server s)"])
      (auto simp: server_frame_def server_inv_on_peer simp del: send_texts_simps)
next
  case (LeavingPeer h)
  note c = thread_conn [OF inv i LeavingPeer]
  with step LeavingPeer server_frame_sends(4) [of "server s" h] show ?thesis
    by (intro sys_inv_move [OF inv i, of h s' "ErasingPeer h" "on_peer close_internal h (server s)"])
      (auto simp: server_frame_def server_inv_on_peer)
next
  case (ErasingPeer h)
  note c = thread_conn [OF inv i ErasingPeer]
  with step ErasingPeer show ?thesis
    by (intro sys_inv_move [OF inv i, of h s' "PeerDone h" "erase_peer h (server s)"])
      (auto simp: objects_frame_erase server_inv_erase)
qed (use step in simp_all)

lemma recv_chunk_inv:
  assumes inv: "sys_inv w e s" and i: "i < length (wx_threads s)" and ok: "ws_ok w (PeerRecv i r) s"
    and step: "recv_chunk i (wx_threads s ! i) r s = Some s'"
  shows "sys_inv w e s'"
proof (cases "wx_threads s ! i")
  case (AwaitUpgrade h req)
  note c = thread_conn [OF inv i AwaitUpgrade]
  obtain t where "s' = set_peer_thread i t s" "t = LeavingPeer h \<or> (\<exists>q. t = Handshaking h q \<or> t = AwaitUpgrade h q)"
    using step AwaitUpgrade by (cases r) (auto split: if_splits)
  with AwaitUpgrade c show ?thesis by (intro sys_inv_move [OF inv i, of h s' t "server s"]) auto
next
  case (AwaitFrame h buf)
  note c = thread_conn [OF inv i AwaitFrame]
  show ?thesis
  proof (cases r)
    case None
    with step AwaitFrame c show ?thesis by (intro sys_inv_move [OF inv i, of h s' "LeavingPeer h" "server s"]) auto
  next
    case (Some d)
    obtain acts left st where f: "serve_frames (buf @ d) = (acts, left, st)" by (cases "serve_frames (buf @ d)") auto
    have "st \<noteq> Crashed" using ok i AwaitFrame Some f by simp
    moreover have "serve_chunks [] (wx_chunks s h @ [d]) = (wx_done s h @ acts, left, st)" using c(2) f serve_chunks_snoc by simp
    moreover have "st = Closing \<longrightarrow> close_pending acts opn" for opn using serve_frames_close f by (auto simp: close_pending_def)
    ultimately show ?thesis using step AwaitFrame Some f
      by (intro sys_inv_move [OF inv i, of h s' "Performing h acts left st" "server s"]) (auto split: if_splits)
  qed
qed (use step in simp_all)

text \<open>Steps that leave the threads and their connections alone.\<close>

lemma sys_inv_idle:
  assumes inv: "sys_inv w e s" and same: "wx_threads s' = wx_threads s" "wx_chunks s' = wx_chunks s" "wx_done s' = wx_done s"
    "wx_log s' = wx_log s" "wx_gone s' = wx_gone s" "wx_gateway s' = (wx_gateway s)\<lparr>wg_server := sv\<rparr>"
    and acc: "\<forall>h. wx_acceptor s' = HasPeer h \<longrightarrow> wx_acceptor s = HasPeer h"
    and sv: "objects_frame (server s) sv" "server_inv (server s) \<longrightarrow> server_inv sv"
  shows "sys_inv w e s'"
proof -
  have len: "length (ws_objects sv) = length (ws_objects (server s))" using sv(1) by (simp add: objects_frame_def)
  have "conn_ok (wx_chunks s (handle t)) (wx_done s (handle t)) (wp_open (ws_objects sv ! handle t)) t" if "t \<in> set (wx_threads s)" for t
    using inv that objects_frame_open [OF sv(1), of "handle t"] by (auto simp: sys_inv_def conns_ok_def intro: conn_ok_antitone)
  then have "conns_ok s'" using inv acc by (simp add: sys_inv_def conns_ok_def same len)
  moreover have "log_ok w e s'" using inv same by (intro log_ok_frame [of w e s s']) (simp_all add: sys_inv_def)
  ultimately show ?thesis using inv same sv(2) by (simp add: sys_inv_def ws_inv_def)
qed

lemma take_id_frame: "take_id s = (x, s') \<Longrightarrow> objects_frame s s' \<and> (server_inv s \<longrightarrow> server_inv s')"
  using server_inv_take_id [of s] by (auto simp: take_id_def Let_def objects_frame_def)

lemma register_inv:
  assumes inv: "sys_inv w e s" and acc: "wx_acceptor s = HasId x" and step: "run_acceptor (HasId x) s = Some s'"
  shows "sys_inv w e s'"
proof -
  obtain h sv where r: "register_peer x (server s) = (h, sv)" by fastforce
  have sv: "h = length (ws_objects (server s))" "ws_objects sv = ws_objects (server s) @ [new_WsPeer x]"
    using r by (auto simp: register_peer_def Let_def)
  have s': "s' = (on_server (\<lambda>_. sv) s)\<lparr>wx_acceptor := HasPeer h\<rparr>" using step r by simp
  have old: "wp_open (ws_objects sv ! k) = peer_open s k" if "k < length (ws_objects (server s))" for k
    using that by (simp add: sv nth_append)
  have "conns_ok s'" using inv by (auto simp: sys_inv_def conns_ok_def s' sv(1) old) (auto simp: sv(2) less_SucI)
  moreover have "log_ok w e s'" using inv by (intro log_ok_frame [of w e s s']) (simp_all add: sys_inv_def s')
  moreover have "server_inv sv" using inv server_inv_register [of "server s" x] r by (simp add: sys_inv_def ws_inv_def)
  ultimately show ?thesis using inv by (simp add: sys_inv_def ws_inv_def s')
qed

lemma spawn_inv:
  assumes inv: "sys_inv w e s" and acc: "wx_acceptor s = HasPeer h" and step: "run_acceptor (HasPeer h) s = Some s'"
  shows "sys_inv w e s'"
proof -
  have "conns_ok s'" using inv acc step by (auto simp: sys_inv_def conns_ok_def)
  moreover have "log_ok w e s'" using inv step by (intro log_ok_frame [of w e s s']) (auto simp: sys_inv_def)
  ultimately show ?thesis using inv step by (auto simp: sys_inv_def)
qed

lemma run_acceptor_inv:
  assumes inv: "sys_inv w e s" and step: "run_acceptor (wx_acceptor s) s = Some s'"
  shows "sys_inv w e s'"
proof (cases "wx_acceptor s")
  case (AcceptAnswered ok)
  show ?thesis
  proof (cases ok)
    case True
    obtain x sv where "take_id (server s) = (x, sv)" by fastforce
    with step AcceptAnswered True take_id_frame show ?thesis by (intro sys_inv_idle [OF inv, of s' sv]) auto
  next
    case False
    with step AcceptAnswered show ?thesis by (intro sys_inv_idle [OF inv, of s' "server s"]) (auto split: if_splits)
  qed
next
  case AtLoop
  with step show ?thesis by (intro sys_inv_idle [OF inv, of s' "server s"]) (auto split: if_splits)
qed (use step register_inv [OF inv] spawn_inv [OF inv] in \<open>simp_all del: run_acceptor.simps(4,5)\<close>)

lemma server_inv_close: "server_inv s \<Longrightarrow> server_inv (on_peer (peer_close code) h s)"
  by (rule server_inv_on_peer) (simp_all add: peer_close_def)

lemma ws_stop_inv:
  assumes inv: "sys_inv w e s" and ok: "ws_ok w StopStep s" and step: "ws_stop_step (wx_phase s) s = Some s'"
  shows "sys_inv w e s'"
proof (cases "wx_phase s")
  case WsNotStopping
  have "server_inv (server s) \<longrightarrow> server_inv ((server s)\<lparr>ws_running := False\<rparr>)" by (simp add: server_inv_def)
  with WsNotStopping step show ?thesis
    by (intro sys_inv_idle [OF inv, of s' "(server s)\<lparr>ws_running := False\<rparr>"]) (auto simp: objects_frame_def)
next
  case WsFlagCleared
  with step show ?thesis by (intro sys_inv_idle [OF inv, of s' "server s"]) auto
next
  case WsListenerClosed
  with step show ?thesis by (intro sys_inv_idle [OF inv, of s' "server s"]) auto
next
  case (WsClosing ps)
  show ?thesis
  proof (cases ps)
    case Nil
    with WsClosing step show ?thesis by (intro sys_inv_idle [OF inv, of s' "server s"]) auto
  next
    case (Cons p qs)
    obtain x h where "p = (x, h)" by fastforce
    with WsClosing Cons step server_frame_sends(3) [of "server s" 1001 h] show ?thesis
      by (intro sys_inv_idle [OF inv, of s' "on_peer (peer_close 1001) h (server s)"])
        (auto simp: server_frame_def server_inv_close)
  qed
next
  case WsPeersClosed
  with step show ?thesis by (intro sys_inv_idle [OF inv, of s' "server s"]) auto
next
  case (WsJoining k n)
  show ?thesis
  proof (cases "k < n")
    case True
    with WsJoining step show ?thesis by (intro sys_inv_idle [OF inv, of s' "server s"]) (auto split: if_splits)
  next
    case False
    with WsJoining step ok have s': "s' = s\<lparr>wx_threads := [], wx_phase := WsStopped,
       wx_gateway := (wx_gateway s)\<lparr>wg_server := (server s)\<lparr>ws_peers := [], ws_peer_ids := []\<rparr>,
         wg_publisher := unsubscribe (ws_listener (server s)) (wg_publisher (wx_gateway s))\<rparr>\<rparr>" by simp
    have "conns_ok s'" using inv by (auto simp: s' sys_inv_def conns_ok_def)
    moreover have "log_ok w e s'" using inv by (intro log_ok_frame [of w e s s']) (simp_all add: s' sys_inv_def)
    ultimately show ?thesis using inv by (simp add: s' sys_inv_def ws_inv_def server_inv_def)
  qed
qed (use step in simp_all)

lemma ws_step_inv: "sys_inv w e s \<Longrightarrow> ws_ok w a s \<Longrightarrow> ws_step w a s = Some s' \<Longrightarrow> sys_inv w e s'"
proof (cases a)
  case (AcceptAnswers ok)
  assume "sys_inv w e s" "ws_step w a s = Some s'"
  with AcceptAnswers show ?thesis
    by (intro sys_inv_idle [of w e s s' "server s"]) (auto simp: accept_answers_def split: if_splits)
qed (auto split: if_splits simp: not_le simp del: ws_ok.simps intro: run_acceptor_inv run_peer_inv recv_chunk_inv ws_stop_inv)

lemma ws_system_inv: "engine_ok e \<Longrightarrow> sys_inv w e (ws_system e pub l)"
  by (simp add: sys_inv_def ws_system_def WsServer_start_def Let_def ws_inv_def server_inv_def new_WsServer_def conns_ok_def log_ok_def
      List.map_filter_simps)

lemma ws_run_inv:
  "sys_inv w e s \<Longrightarrow> admissible (ws_step w) (ws_ok w) acts s \<Longrightarrow> run_steps (ws_step w) acts s = Some s' \<Longrightarrow> sys_inv w e s'"
  by (induction acts arbitrary: s) (auto split: option.splits intro: ws_step_inv)

section \<open>Properties\<close>

text \<open>
  C6. Many connections at once. Take any interleaving of the threads of the WebSocket server, with each other and with
  a stop, in which each step is one of \<^const>\<open>ws_ok\<close>: each command is safe for the engine when its turn comes (no modification into the
  other side, freed orders that read unchanged), no frame announces a length that wraps, and no thread is added while \<open>stop\<close>
  joins. (Each of the three can happen and ends the process; and the unsynchronised accesses to the descriptors \<open>fd_\<close> and
  \<open>listen_fd_\<close> are outside this model.) Then the process goes on; the engine is in the
  state in which the commands, run one after the other in the order of the mutex, leave it; the commands
  run for a connection are those of the actions its thread has done, in order; and these actions are a beginning of what the
  bytes received on that connection mean, and all of it once the thread has finished.
\<close>

theorem ws_server_linearizes:
  assumes "engine_ok e" "admissible (ws_step w) (ws_ok w) acts (ws_system e pub l)"
    "run_steps (ws_step w) acts (ws_system e pub l) = Some s"
  shows "\<not> wx_gone s \<and> engine_ok (wg_engine (wx_gateway s)) \<and>
    commands_engine w 0 (map snd (wx_log s)) e = Some (wg_engine (wx_gateway s)) \<and>
    (\<forall>h. map snd (filter (\<lambda>(k, _). k = h) (wx_log s)) = List.map_filter frame_command (wx_done s h) \<and>
      prefix (wx_done s h) (fst (serve_chunks [] (wx_chunks s h)))) \<and>
    (\<forall>t \<in> set (wx_threads s). is_PeerDone t \<longrightarrow> wx_done s (handle t) = fst (serve_chunks [] (wx_chunks s (handle t))))"
proof -
  have inv: "sys_inv w e s" using ws_run_inv [OF ws_system_inv [OF assms(1)] assms(2,3)] .
  then have "wx_done s (handle t) = fst (serve_chunks [] (wx_chunks s (handle t)))" if "t \<in> set (wx_threads s)" "is_PeerDone t" for t
    using that by (cases t) (auto simp: sys_inv_def conns_ok_def)
  with inv show ?thesis by (simp add: sys_inv_def ws_inv_def conns_ok_def log_ok_def)
qed


lemma sample_ping:
  "serve_frames (client_frame 1 ''k3y!'' (command_text (WsPing ''7''))) = ([OnText (command_text (WsPing ''7''))], [], Serving)"
  "dispatch_command_frame install (command_text (WsPing ''7'')) = Some (WsPing ''7'')"
  "client_frame 1 ''k3y!'' (command_text (WsPing ''7'')) \<noteq> []" "length (client_frame 1 ''k3y!'' (command_text (WsPing ''7''))) \<le> 1024"
proof -
  have ok: "command_ok (WsPing ''7'')" by (simp add: req_ok_def field_names_def)
  show "dispatch_command_frame install (command_text (WsPing ''7'')) = Some (WsPing ''7'')" by (rule command_roundtrip [OF ok])
  show "serve_frames (client_frame 1 ''k3y!'' (command_text (WsPing ''7''))) = ([OnText (command_text (WsPing ''7''))], [], Serving)"
    using serve_text_frames [of "[(''k3y!'', command_text (WsPing ''7''))]"] by (simp add: command_text.simps)
  show "client_frame 1 ''k3y!'' (command_text (WsPing ''7'')) \<noteq> []" "length (client_frame 1 ''k3y!'' (command_text (WsPing ''7''))) \<le> 1024"
    by (simp_all add: client_frame_def frame_header_def command_text.simps)
qed

lemma sample_connection_run:
  assumes "handshake (x_sha1 w) u = Upgrade resp" "str_find (crlf @ crlf) u \<noteq> None" "u \<noteq> []" "length u \<le> 1024"
    "serve_frames f = ([OnText t], [], Serving)" "dispatch_command_frame install t = Some (WsPing r)" "f \<noteq> []" "length f \<le> 1024"
  shows "admissible (ws_step w) (ws_ok w) (sample_connection u f) (ws_system e pub l) \<and>
    map_option (\<lambda>s. (wx_log s, wx_phase s, wx_acceptor s, map handle (wx_threads s), ws_peers (server s)))
      (run_steps (ws_step w) (sample_connection u f) (ws_system e pub l)) = Some ([(0, WsPing r)], WsListenerClosed, AtLoop, [0], [(1, 0)])"
  using assms by (simp add: sample_connection_def ws_system_def WsServer_start_def new_WsServer_def accept_answers_def Let_def take_id_def register_peer_def
      new_WsPeer_def frame_command_def run_command_def ws_guard_def on_peer_def send_all_def waits_for_stop_def)

lemma sample_actions_run:
  "\<exists>s. admissible (ws_step sample_world_ws) (ws_ok sample_world_ws) sample_actions (ws_system demo_engine new_Publisher 7) \<and>
     run_steps (ws_step sample_world_ws) sample_actions (ws_system demo_engine new_Publisher 7) = Some s \<and> wx_log s = [(0, WsPing ''7'')] \<and>
     wx_phase s = WsListenerClosed \<and> wx_acceptor s = AtLoop \<and> map handle (wx_threads s) = [0] \<and> ws_peers (server s) = [(1, 0)]"
proof -
  obtain resp where "handshake (x_sha1 sample_world_ws) example_upgrade = Upgrade resp" using example_handshake by (auto simp: sample_world_ws_def)
  moreover have "str_find (crlf @ crlf) example_upgrade \<noteq> None" by code_simp
  moreover have "example_upgrade \<noteq> []" "length example_upgrade \<le> 1024" by (simp_all add: example_upgrade_def crlf_def)
  ultimately show ?thesis
    using sample_connection_run [of sample_world_ws _ resp, OF _ _ _ _ sample_ping, of example_upgrade demo_engine new_Publisher 7]
    unfolding sample_actions_def [symmetric] by auto
qed

theorem ws_server_linearizes_witness:
  "\<exists>s. run_steps (ws_step sample_world_ws) sample_actions (ws_system demo_engine new_Publisher 7) = Some s \<and> wx_log s = [(0, WsPing ''7'')] \<and>
     \<not> wx_gone s \<and> commands_engine sample_world_ws 0 (map snd (wx_log s)) demo_engine = Some (wg_engine (wx_gateway s))"
proof -
  obtain s where s: "admissible (ws_step sample_world_ws) (ws_ok sample_world_ws) sample_actions (ws_system demo_engine new_Publisher 7)"
    "run_steps (ws_step sample_world_ws) sample_actions (ws_system demo_engine new_Publisher 7) = Some s" "wx_log s = [(0, WsPing ''7'')]"
    using sample_actions_run by blast
  with ws_server_linearizes [OF demo_engine_ok s(1,2)] show ?thesis by blast
qed

end
