(* ===== verification/Ws_Stop.thy ===== *)
theory Ws_Stop
  imports Ws_Threads
begin

text \<open>
  Stopping the WebSocket server (\<^verbatim>\<open>WsServer::stop\<close> in \<^verbatim>\<open>networking/ws_server.cpp\<close>) while its threads run: what \<open>stop\<close> needs in order to
  return. The sockets block: a \<^verbatim>\<open>recv\<close> returns when its client sends or closes, or when the socket has been shut down, and a \<^verbatim>\<open>send\<close> returns
  when the client takes the bytes, or at once on a socket that has been shut down. An action of the model contains its sends and takes place when they
  have returned, so that an action may have to wait for the clients it sends to.
\<close>

section \<open>Definitions\<close>

text \<open>
  Stopping: how many actions are left at most, what holds once the listener is closed, and which actions need no input of a
  client: code that runs, the end of \<^verbatim>\<open>accept\<close> on a closed listener, and the end of \<^verbatim>\<open>recv\<close> on the socket of a closed peer.
\<close>

fun thread_effort :: "PeerThread \<Rightarrow> nat" where
  "thread_effort (AwaitUpgrade h req) = 16384 - length req + 6"
| "thread_effort (Handshaking h req) = 4"
| "thread_effort (FrameHead h buf) = 3"
| "thread_effort (AwaitFrame h buf) = 2 * (length buf + 1024) + 6"
| "thread_effort (Performing h acts left st) = 2 * length acts + 4"
| "thread_effort (Replying h payload acts left st) = 2 * length acts + 5"
| "thread_effort (LeavingPeer h) = 2"
| "thread_effort (ErasingPeer h) = 1"
| "thread_effort (PeerDone h) = 0"

fun acceptor_effort :: "Acceptor \<Rightarrow> nat" where
  "acceptor_effort AtLoop = 1"
| "acceptor_effort InAcceptCall = 2"
| "acceptor_effort (AcceptAnswered ok) = 1"
| "acceptor_effort _ = 0"

text \<open>With the number of registered peers and of threads.\<close>

fun phase_effort :: "WsStopPhase \<Rightarrow> nat \<Rightarrow> nat \<Rightarrow> nat" where
  "phase_effort WsListenerClosed p m = p + m + 5"
| "phase_effort (WsClosing ps) p m = length ps + m + 4"
| "phase_effort WsPeersClosed p m = m + 3"
| "phase_effort (WsJoining k n) p m = n - k + 1"
| "phase_effort _ p m = 0"

definition ws_stop_work :: "WsSystem \<Rightarrow> nat" where
  "ws_stop_work s = (if wx_gone s then 0 else 1) + phase_effort (wx_phase s) (length (ws_peers (server s))) (length (wx_threads s)) + acceptor_effort (wx_acceptor s) +
     sum_list (map thread_effort (wx_threads s))"

definition none_in_hand :: "WsSystem \<Rightarrow> bool" where
  "none_in_hand s \<longleftrightarrow> wx_acceptor s \<in> {AtLoop, InAcceptCall, AcceptAnswered False, AcceptorDone}"

fun request_bounded :: "PeerThread \<Rightarrow> bool" where
  "request_bounded (AwaitUpgrade h req) \<longleftrightarrow> length req \<le> 16384"
| "request_bounded _ \<longleftrightarrow> True"

text \<open>All peers that matter are closed, but for those in a list.\<close>

definition closed_but :: "PeerHandle set \<Rightarrow> WsSystem \<Rightarrow> bool" where
  "closed_but hs s \<longleftrightarrow> (\<forall>t \<in> set (wx_threads s). \<not> is_PeerDone t \<longrightarrow> handle t \<in> hs \<or> \<not> peer_open s (handle t)) \<and>
     (\<forall>h. registered (server s) h \<longrightarrow> h \<in> hs \<or> \<not> peer_open s h)"

fun ws_phase_ok :: "WsStopPhase \<Rightarrow> WsSystem \<Rightarrow> bool" where
  "ws_phase_ok WsListenerClosed s \<longleftrightarrow> (\<forall>t \<in> set (wx_threads s). \<not> is_PeerDone t \<longrightarrow> registered (server s) (handle t))"
| "ws_phase_ok (WsClosing ps) s \<longleftrightarrow> closed_but (snd ` set ps) s"
| "ws_phase_ok WsPeersClosed s \<longleftrightarrow> closed_but {} s"
| "ws_phase_ok (WsJoining k n) s \<longleftrightarrow> closed_but {} s \<and> n = Suc (length (wx_threads s)) \<and> k \<le> n \<and> (\<forall>j < k. joinable_done j s)"
| "ws_phase_ok WsStopped s \<longleftrightarrow> wx_threads s = []"
| "ws_phase_ok _ s \<longleftrightarrow> False"

definition ws_stopping :: "WsSystem \<Rightarrow> bool" where
  "ws_stopping s \<longleftrightarrow> server_inv (server s) \<and> \<not> ws_running (server s) \<and> \<not> wx_listening s \<and> none_in_hand s \<and>
     (\<forall>t \<in> set (wx_threads s). request_bounded t \<and> handle t < length (ws_objects (server s))) \<and>
     distinct (map handle (wx_threads s)) \<and> ws_phase_ok (wx_phase s) s"

definition ws_ended :: "WsSystem \<Rightarrow> bool" where
  "ws_ended s \<longleftrightarrow> wx_gone s \<or> wx_phase s = WsStopped"

fun no_input :: "WsSystem \<Rightarrow> WsSysAction \<Rightarrow> bool" where
  "no_input s (AcceptAnswers ok) \<longleftrightarrow> \<not> ok \<and> \<not> wx_listening s"
| "no_input s (PeerRecv i r) \<longleftrightarrow> r = None \<and> i < length (wx_threads s) \<and> \<not> peer_open s (handle (wx_threads s ! i))"
| "no_input s _ \<longleftrightarrow> True"

text \<open>
  The peers an action may send to: a reply goes to the peer of the thread, the market data of a submission to every registered peer, the
  close frame of \<open>stop\<close> to the peer that is next. The action waits for those of them that are open.
\<close>

definition thread_sends :: "WsSystem \<Rightarrow> PeerThread \<Rightarrow> PeerHandle set" where
  "thread_sends s t =
     (case t of
        Handshaking h req \<Rightarrow> {h}
      | Performing h (a # acts) left st \<Rightarrow> insert h (if frame_command a = None then {} else snd ` set (ws_peers (server s)))
      | Replying h payload acts left st \<Rightarrow> {h}
      | _ \<Rightarrow> {})"

definition closing_now :: "WsSystem \<Rightarrow> PeerHandle set" where
  "closing_now s = (case wx_phase s of WsClosing ((x, h) # ps) \<Rightarrow> {h} | _ \<Rightarrow> {})"

fun sends_to :: "WsSystem \<Rightarrow> WsSysAction \<Rightarrow> PeerHandle set" where
  "sends_to s (RunPeer i sent) = thread_sends s (wx_threads s ! i)"
| "sends_to s StopStep = closing_now s"
| "sends_to s _ = {}"

definition waits_on :: "WsSystem \<Rightarrow> WsSysAction \<Rightarrow> PeerHandle set" where
  "waits_on s a = {h \<in> sends_to s a. peer_open s h}"

definition sent_frame :: "PeerHandle set \<Rightarrow> WsServer \<Rightarrow> WsServer \<Rightarrow> bool" where
  "sent_frame hs s s' \<longleftrightarrow> ws_peers s' = ws_peers s \<and> length (ws_objects s') = length (ws_objects s) \<and>
     (\<forall>h < length (ws_objects s). h \<notin> hs \<longrightarrow> wp_sent (ws_objects s' ! h) = wp_sent (ws_objects s ! h))"

text \<open>A client that is silent, and whose sends do not return: no action receives from it, and none sends to it.\<close>

definition without_client :: "nat \<Rightarrow> PeerHandle \<Rightarrow> WsSysAction \<Rightarrow> WsSystem \<Rightarrow> bool" where
  "without_client i h a s \<longleftrightarrow> h \<notin> sends_to s a \<and> (\<forall>r. a \<noteq> PeerRecv i r)"

definition in_recv :: "PeerThread \<Rightarrow> bool" where
  "in_recv t \<longleftrightarrow> is_AwaitUpgrade t \<or> is_AwaitFrame t"

text \<open>\<open>stop\<close> has still to close the peer of thread \<open>i\<close>.\<close>

definition stop_held :: "nat \<Rightarrow> PeerThread \<Rightarrow> WsSystem \<Rightarrow> bool" where
  "stop_held i t s \<longleftrightarrow> ws_stopping s \<and> i < length (wx_threads s) \<and> wx_threads s ! i = t \<and>
     (wx_phase s = WsListenerClosed \<or> (\<exists>ps. wx_phase s = WsClosing ps \<and> handle t \<in> snd ` set ps))"

text \<open>A thread of a peer has moved.\<close>

definition peer_move :: "WsSystem \<Rightarrow> nat \<Rightarrow> PeerThread \<Rightarrow> WsSystem \<Rightarrow> bool" where
  "peer_move s i t s' \<longleftrightarrow> wx_threads s' = (wx_threads s)[i := t] \<and> handle t = handle (wx_threads s ! i) \<and> \<not> is_PeerDone (wx_threads s ! i) \<and>
     wx_phase s' = wx_phase s \<and> wx_listening s' = wx_listening s \<and> wx_acceptor s' = wx_acceptor s \<and> wx_gone s' = wx_gone s \<and>
     ws_running (server s') = ws_running (server s) \<and> objects_frame (server s) (server s') \<and> server_inv (server s') \<and> request_bounded t \<and>
     length (ws_peers (server s')) \<le> length (ws_peers (server s)) \<and> set (ws_peers (server s')) \<subseteq> set (ws_peers (server s)) \<and>
     (ws_peers (server s') = ws_peers (server s) \<or>
      is_PeerDone t \<and> (\<forall>h. registered (server s) h \<and> wp_id (ws_objects (server s) ! h) \<noteq> wp_id (ws_objects (server s) ! handle t) \<longrightarrow> registered (server s') h)) \<and>
     thread_effort t < thread_effort (wx_threads s ! i)"

definition life_ok :: "WsSystem \<Rightarrow> bool" where
  "life_ok s \<longleftrightarrow> (wx_phase s \<noteq> WsNotStopping \<longrightarrow> \<not> ws_running (server s)) \<and>
     (wx_phase s \<noteq> WsNotStopping \<and> wx_phase s \<noteq> WsFlagCleared \<longrightarrow> \<not> wx_listening s) \<and> (\<forall>t \<in> set (wx_threads s). request_bounded t)"

section \<open>Stopping: lemmas\<close>

lemma server_inv_server_frame: "server_inv s \<Longrightarrow> server_frame s s' \<Longrightarrow> server_inv s'"
  by (rule server_inv_frame [of s]) (simp_all add: server_frame_def objects_frame_def)

lemma peer_move_frame:
  assumes "server_inv (server s)" "server_frame (server s) (server s')" "wx_threads s' = (wx_threads s)[i := t]" "handle t = handle (wx_threads s ! i)"
    "\<not> is_PeerDone (wx_threads s ! i)" "wx_phase s' = wx_phase s" "wx_listening s' = wx_listening s" "wx_acceptor s' = wx_acceptor s"
    "wx_gone s' = wx_gone s" "request_bounded t" "thread_effort t < thread_effort (wx_threads s ! i)"
  shows "peer_move s i t s'"
  using assms server_inv_server_frame [OF assms(1,2)] by (simp add: peer_move_def server_frame_def)

lemma erase_registered:
  assumes "registered s h'" "wp_id (ws_objects s ! h') \<noteq> wp_id (ws_objects s ! h)" "server_inv s"
  shows "registered (erase_peer h s) h'"
proof -
  obtain x where x: "(x, h') \<in> set (ws_peers s)" using assms(1) by (auto simp: registered_def)
  then have "x = wp_id (ws_objects s ! h')" using assms(3) by (auto simp: server_inv_def)
  with x assms(2) have "(x, h') \<in> set (ws_peers (erase_peer h s))" by (auto simp: erase_peer_def Let_def)
  then show ?thesis by (force simp: registered_def)
qed

lemma perform_move:
  assumes sv: "server_inv (server s)" and at: "wx_threads s ! i = Performing h (a # as) left st"
    and step: "run_peer w i sent (wx_threads s ! i) s = Some s'" and alive: "\<not> wx_gone s'"
  shows "\<exists>t. peer_move s i t s'"
proof (cases "frame_command a")
  note move = peer_move_frame [OF sv]
  {
  case None
  obtain sv where "wx_gateway (other_action h a (did h a s)) = (wx_gateway s)\<lparr>wg_server := sv\<rparr>" "server_frame (server s) sv"
    using other_action_gateway [of h a "did h a s"] by auto
  with None at step show ?thesis by (intro exI [of _ "Performing h as left st"] move) auto
next
  case (Some c)
  with at step alive obtain r g' where "start_command w (h, c) (wx_gateway s) = Some (r, g')"
    "s' = set_peer_thread i (case r of None \<Rightarrow> Performing h as left st | Some payload \<Rightarrow> Replying h payload as left st)
       ((did h a s)\<lparr>wx_gateway := g', wx_log := wx_log s @ [(h, c)]\<rparr>)"
    by (auto simp: run_command_def split: option.splits)
  with at start_command_frame show ?thesis
    by (intro exI [of _ "case r of None \<Rightarrow> Performing h as left st | Some payload \<Rightarrow> Replying h payload as left st"] move)
      (auto split: option.splits)
  }
qed

lemma run_peer_move:
  assumes inv: "ws_stopping s" and i: "i < length (wx_threads s)" and step: "run_peer w i sent (wx_threads s ! i) s = Some s'" and alive: "\<not> wx_gone s'"
  shows "\<exists>t. peer_move s i t s'"
proof (cases "wx_threads s ! i")
  have sv: "server_inv (server s)" "\<not> ws_running (server s)" using inv by (simp_all add: ws_stopping_def)
  note move = peer_move_frame [OF sv(1)]
  {
    case (Handshaking h req)
    show ?thesis
    proof (cases "handshake (x_sha1 w) req")
      case (Upgrade resp)
      then show ?thesis using Handshaking step server_frame_sends(1) [of "server s" resp h]
        by (intro exI [of _ "if sent then FrameHead h [] else LeavingPeer h"] move) auto
    qed (use Handshaking step server_frame_sends(1) [of "server s"] in \<open>auto intro!: exI [of _ "LeavingPeer h"] move\<close>)
  next
    case (FrameHead h buf)
    then show ?thesis using step sv(2) by (auto intro!: exI [of _ "LeavingPeer h"] move)
  next
    case (Performing h acts left st)
    show ?thesis
    proof (cases acts)
      case Nil
      with Performing step alive show ?thesis by (auto intro!: exI [of _ "FrameHead h left"] move split: if_splits)
    next
      case (Cons a as)
      with Performing show ?thesis using perform_move [OF sv(1) _ step alive] by blast
    qed
  next
    case (Replying h payload acts left st)
    then show ?thesis using step server_frame_sends(2) [of "server s" payload h]
      by (auto intro!: exI [of _ "Performing h acts left st"] move simp del: send_texts_simps)
  next
    case (LeavingPeer h)
    then show ?thesis using step server_frame_sends(4) [of "server s" h] by (auto intro!: exI [of _ "ErasingPeer h"] move)
  next
    case (ErasingPeer h)
    then have "h < length (ws_objects (server s))" using inv i nth_mem [of i "wx_threads s"] by (auto simp: ws_stopping_def)
    then show ?thesis using step ErasingPeer sv objects_frame_erase [of "server s" h] erase_registered [OF _ _ sv(1)] server_inv_erase [OF sv(1)]
      by (intro exI [of _ "PeerDone h"]) (auto simp: peer_move_def erase_peer_def Let_def)
  }
qed (use step in simp_all)

lemma recv_chunk_move:
  assumes inv: "ws_stopping s" and i: "i < length (wx_threads s)" and step: "recv_chunk i (wx_threads s ! i) r s = Some s'"
  shows "\<exists>t. peer_move s i t s'"
proof (cases "wx_threads s ! i")
  have sv: "server_inv (server s)" using inv by (simp add: ws_stopping_def)
  note move = peer_move_frame [OF sv]
  {
    case (AwaitUpgrade h req)
    then have "length req \<le> 16384" using inv i nth_mem [of i "wx_threads s"] by (force simp: ws_stopping_def)
    show ?thesis
    proof (cases r)
      case None
      with AwaitUpgrade step show ?thesis by (auto intro!: exI [of _ "LeavingPeer h"] move)
    next
      case (Some c)
      let ?t = "if length (req @ c) > 16 * 1024 then LeavingPeer h
        else if str_find (crlf @ crlf) (req @ c) \<noteq> None then Handshaking h (req @ c) else AwaitUpgrade h (req @ c)"
      have "s' = set_peer_thread i ?t s" and c: "c \<noteq> []" using Some AwaitUpgrade step by (auto split: if_splits)
      moreover from c obtain d ds where "c = d # ds" by (cases c) auto
      ultimately show ?thesis using AwaitUpgrade \<open>length req \<le> 16384\<close> by (intro exI [of _ ?t] move) auto
    qed
  next
    case (AwaitFrame h buf)
    show ?thesis
    proof (cases r)
      case None
      with AwaitFrame step show ?thesis by (auto intro!: exI [of _ "LeavingPeer h"] move)
    next
      case (Some c)
      obtain acts left st where f: "serve_frames (buf @ c) = (acts, left, st)" by (cases "serve_frames (buf @ c)") auto
      with serve_frames_length [OF f] AwaitFrame Some step show ?thesis
        by (intro exI [of _ "Performing h acts left st"] move) (auto split: if_splits)
    qed
  }
qed (use step in simp_all)

lemma registered_ids:
  assumes "server_inv s" "registered s h" "registered s h'" "wp_id (ws_objects s ! h) = wp_id (ws_objects s ! h')"
  shows "h = h'"
proof -
  obtain x y where xy: "(x, h) \<in> set (ws_peers s)" "(y, h') \<in> set (ws_peers s)" using assms(2,3) by (auto simp: registered_def)
  then have "x = wp_id (ws_objects s ! h)" "y = wp_id (ws_objects s ! h')" using assms(1) by (auto simp: server_inv_def)
  with xy assms(1,4) eq_key_imp_eq_value show ?thesis by (metis server_inv_def)
qed

lemma peer_move_threads:
  assumes "peer_move s i t s'" "i < length (wx_threads s)" "u \<in> set (wx_threads s')" "distinct (map handle (wx_threads s))"
  shows "u = t \<or> (u \<in> set (wx_threads s) \<and> handle u \<noteq> handle t)"
proof (cases "u = t")
  case False
  then obtain j where j: "j < length (wx_threads s)" "u = wx_threads s ! j" "j \<noteq> i"
    using assms(1,2,3) by (auto simp: peer_move_def in_set_conv_nth nth_list_update split: if_splits)
  then have "handle u \<noteq> handle (wx_threads s ! i)"
    using assms(2,4) nth_eq_iff_index_eq [of "map handle (wx_threads s)" j i] by auto
  then show ?thesis using assms(1) j by (simp add: peer_move_def)
qed simp

lemma peer_move_phase:
  assumes inv: "ws_stopping s" and i: "i < length (wx_threads s)" and move: "peer_move s i t s'"
  shows "ws_phase_ok (wx_phase s') s'"
proof (cases "wx_phase s")
  let ?o = "wx_threads s ! i"
  have old: "?o \<in> set (wx_threads s)" "\<not> is_PeerDone ?o" "handle t = handle ?o" "server_inv (server s)" and frame: "objects_frame (server s) (server s')"
    and d: "distinct (map handle (wx_threads s))" and hl: "\<forall>u \<in> set (wx_threads s). handle u < length (ws_objects (server s))"
    using i move inv by (auto simp: peer_move_def ws_stopping_def)
  note threads = peer_move_threads [OF move i _ d]
  have reg: "registered (server s) h \<and> h < length (ws_objects (server s))" if "registered (server s') h" for h
    using move that old(4) by (auto simp: peer_move_def registered_def server_inv_def)
  have closed: "closed_but hs s \<Longrightarrow> closed_but hs s'" for hs
    unfolding closed_but_def using threads old hl reg objects_frame_open [OF frame] by metis
  {
    case WsListenerClosed
    then have reg: "registered (server s) (handle u)" if "u \<in> set (wx_threads s)" "\<not> is_PeerDone u" for u
      using inv that by (simp add: ws_stopping_def)
    have "registered (server s') (handle u)" if u: "u \<in> set (wx_threads s')" "\<not> is_PeerDone u" for u
    proof (cases "ws_peers (server s') = ws_peers (server s)")
      case True
      then show ?thesis using threads [OF u(1)] reg old u(2) by (auto simp: registered_def)
    next
      case False
      with move have done_t: "is_PeerDone t" "\<forall>h. registered (server s) h \<and> wp_id (ws_objects (server s) ! h) \<noteq> wp_id (ws_objects (server s) ! handle t) \<longrightarrow>
        registered (server s') h" by (auto simp: peer_move_def)
      with u threads [OF u(1)] have u': "u \<in> set (wx_threads s)" "handle u \<noteq> handle t" by auto
      with reg [OF u'(1) u(2)] reg [OF old(1,2)] registered_ids [OF old(4)] old(3) done_t(2) show ?thesis by metis
    qed
    then show ?thesis using move WsListenerClosed by (simp add: peer_move_def)
  next
    case (WsClosing ps)
    then show ?thesis using move inv closed by (simp add: peer_move_def ws_stopping_def)
  next
    case WsPeersClosed
    then show ?thesis using move inv closed by (simp add: peer_move_def ws_stopping_def)
  next
    case (WsJoining k n)
    then have j: "closed_but {} s" "n = Suc (length (wx_threads s))" "k \<le> n" "\<forall>j < k. joinable_done j s" using inv by (simp_all add: ws_stopping_def)
    have "joinable_done j s'" if "j < k" for j
    proof (cases j)
      case (Suc m)
      then have "is_PeerDone (wx_threads s ! m)" using j(4) that by (auto simp: joinable_done_def)
      moreover from this old(2) have "m \<noteq> i" by auto
      ultimately show ?thesis using move Suc by (simp add: joinable_done_def peer_move_def)
    qed (use j(4) that move in \<open>auto simp: joinable_done_def peer_move_def\<close>)
    then show ?thesis using closed [OF j(1)] j(2,3) move WsJoining by (simp add: peer_move_def)
  next
    case WsStopped
    then show ?thesis using inv i by (simp add: ws_stopping_def)
  }
qed (use inv in \<open>simp_all add: ws_stopping_def\<close>)

lemma peer_move_stopping:
  assumes inv: "ws_stopping s" and i: "i < length (wx_threads s)" and move: "peer_move s i t s'"
  shows "ws_stopping s' \<and> ws_stop_work s' < ws_stop_work s"
proof
  have m: "wx_threads s' = (wx_threads s)[i := t]" "handle t = handle (wx_threads s ! i)" "request_bounded t"
    "wx_phase s' = wx_phase s" "wx_gone s' = wx_gone s" "wx_acceptor s' = wx_acceptor s" "thread_effort t < thread_effort (wx_threads s ! i)"
    "length (ws_objects (server s')) = length (ws_objects (server s))"
    using move by (simp_all add: peer_move_def objects_frame_def)
  have hs: "map handle (wx_threads s') = map handle (wx_threads s)" using i m(2) by (simp add: m(1) map_update list_update_same_conv)
  have "request_bounded u \<and> handle u < length (ws_objects (server s'))" if "u \<in> set (wx_threads s')" for u
    using peer_move_threads [OF move i that] inv i m(2,3,8) nth_mem [OF i] by (auto simp: ws_stopping_def)
  then show "ws_stopping s'"
    using inv move peer_move_phase [OF inv i move] hs by (simp add: ws_stopping_def peer_move_def none_in_hand_def)
  have "phase_effort (wx_phase s) (length (ws_peers (server s'))) k \<le> phase_effort (wx_phase s) (length (ws_peers (server s))) k" for k
    using move by (cases "wx_phase s") (simp_all add: peer_move_def)
  then show "ws_stop_work s' < ws_stop_work s"
    using sum_list_upd [OF i, of thread_effort t] m(4-7) by (simp add: ws_stop_work_def m(1) add_le_less_mono)
qed

lemma ws_stopping_cong:
  assumes "ws_stopping s" "wx_threads s' = wx_threads s" "wx_gateway s' = wx_gateway s" "wx_listening s' = wx_listening s" "none_in_hand s'"
    "ws_phase_ok (wx_phase s') s'"
  shows "ws_stopping s'"
  using assms by (simp add: ws_stopping_def)

lemma joinable_done_cong: "wx_threads s' = wx_threads s \<Longrightarrow> (wx_acceptor s = AcceptorDone \<Longrightarrow> wx_acceptor s' = AcceptorDone) \<Longrightarrow> joinable_done j s \<Longrightarrow> joinable_done j s'"
  by (auto simp: joinable_done_def split: nat.splits)

lemma ws_phase_ok_cong:
  assumes "ws_phase_ok p s" "wx_threads s' = wx_threads s" "wx_gateway s' = wx_gateway s" "wx_acceptor s = AcceptorDone \<Longrightarrow> wx_acceptor s' = AcceptorDone"
  shows "ws_phase_ok p s'"
  using assms joinable_done_cong [of s' s] by (cases p) (auto simp: closed_but_def)

lemma acceptor_stopping:
  assumes inv: "ws_stopping s" and alive: "\<not> wx_gone s" and step: "run_acceptor (wx_acceptor s) s = Some s' \<or> accept_answers ok s = Some s'"
  shows "ws_stopping s' \<and> ws_stop_work s' < ws_stop_work s"
proof -
  have a: "none_in_hand s" "\<not> ws_running (server s)" "\<not> wx_listening s" "ws_phase_ok (wx_phase s) s" using inv by (simp_all add: ws_stopping_def)
  then obtain acc where s': "s' = s\<lparr>wx_acceptor := acc\<rparr>" "acc \<in> {AcceptAnswered False, AcceptorDone}" "wx_acceptor s \<noteq> AcceptorDone"
    "acceptor_effort acc < acceptor_effort (wx_acceptor s)"
    using step by (auto simp: none_in_hand_def accept_answers_def split: if_splits)
  have "ws_phase_ok (wx_phase s') s'" using ws_phase_ok_cong [OF a(4), of s'] s' by simp
  then have "ws_stopping s'" using s' by (intro ws_stopping_cong [OF inv]) (auto simp: none_in_hand_def)
  moreover have "ws_stop_work s' < ws_stop_work s" using s' by (simp add: ws_stop_work_def)
  ultimately show ?thesis ..
qed

lemma closed_but_start: "closed_but (snd ` set (ws_peers (server s))) s" if "ws_phase_ok WsListenerClosed s"
  using that by (auto simp: closed_but_def registered_def)

lemma closed_but_next:
  assumes inv: "ws_stopping s" and c: "closed_but (insert h hs) s" and s': "wx_threads s' = wx_threads s" "server s' = on_peer (peer_close 1001) h (server s)"
  shows "closed_but hs s'"
proof -
  have "k < length (ws_objects (server s))" if "registered (server s) k" for k
    using that inv by (auto simp: ws_stopping_def server_inv_def registered_def)
  moreover have "handle t < length (ws_objects (server s))" if "t \<in> set (wx_threads s)" for t using that inv by (simp add: ws_stopping_def)
  moreover have "registered (server s') = registered (server s)" by (simp add: registered_def s'(2) fun_eq_iff)
  ultimately show ?thesis using c unfolding closed_but_def s' by (auto simp: on_peer_nth peer_close_def registered_def split: if_splits)
qed

lemma ws_stop_stopping:
  assumes inv: "ws_stopping s" and alive: "\<not> wx_gone s" and step: "ws_stop_step (wx_phase s) s = Some s'"
  shows "ws_stopping s' \<and> ws_stop_work s' < ws_stop_work s"
proof (cases "wx_phase s")
  have ok: "ws_phase_ok (wx_phase s) s" "none_in_hand s" "server_inv (server s)" using inv by (simp_all add: ws_stopping_def)
  {
    case WsListenerClosed
    then have s': "s' = s\<lparr>wx_phase := WsClosing (ws_peers (server s))\<rparr>" using step by simp
    have "closed_but (snd ` set (ws_peers (server s))) s" using ok(1) WsListenerClosed by (intro closed_but_start) simp
    then have "ws_stopping s'" using ok(2) by (intro ws_stopping_cong [OF inv]) (simp_all add: s' none_in_hand_def closed_but_def)
    then show ?thesis by (simp add: s' ws_stop_work_def WsListenerClosed)
  next
    case (WsClosing ps)
    then have c: "closed_but (snd ` set ps) s" using ok(1) by simp
    show ?thesis
    proof (cases ps)
      case Nil
      then have s': "s' = s\<lparr>wx_phase := WsPeersClosed\<rparr>" using step WsClosing by simp
      have "ws_stopping s'" using ok(2) c Nil by (intro ws_stopping_cong [OF inv]) (simp_all add: s' none_in_hand_def closed_but_def)
      then show ?thesis by (simp add: s' ws_stop_work_def WsClosing Nil)
    next
      case (Cons p qs)
      obtain x h where p: "p = (x, h)" by fastforce
      have s': "s' = (on_server (on_peer (peer_close 1001) h) s)\<lparr>wx_phase := WsClosing qs\<rparr>" using step WsClosing Cons p by simp
      have "closed_but (insert h (snd ` set qs)) s" using c by (simp add: Cons p)
      from closed_but_next [OF inv this, of s'] have "closed_but (snd ` set qs) s'" by (simp add: s')
      then have "ws_stopping s'" using inv ok(2) server_inv_close [OF ok(3)] by (simp add: s' ws_stopping_def none_in_hand_def)
      then show ?thesis by (simp add: s' ws_stop_work_def WsClosing Cons)
    qed
  next
    case WsPeersClosed
    then have s': "s' = s\<lparr>wx_phase := WsJoining 0 (Suc (length (wx_threads s)))\<rparr>" using step by simp
    have "closed_but {} s'" using ok(1) WsPeersClosed by (simp add: s' closed_but_def)
    then have "ws_stopping s'" using ok(2) by (intro ws_stopping_cong [OF inv]) (simp_all add: s' none_in_hand_def)
    then show ?thesis by (simp add: s' ws_stop_work_def WsPeersClosed)
  next
    case (WsJoining k n)
    then have j: "closed_but {} s" "n = Suc (length (wx_threads s))" "k \<le> n" "\<forall>j < k. joinable_done j s" using ok(1) by simp_all
    show ?thesis
    proof (cases "k < n")
      case True
      with step WsJoining have s': "s' = s\<lparr>wx_phase := WsJoining (Suc k) n\<rparr>" "joinable_done k s" by (auto split: if_splits)
      have "joinable_done j s'" if "j < Suc k" for j
        using joinable_done_cong [of s' s j] j(4) s' that by (auto simp: less_Suc_eq)
      moreover have "closed_but {} s'" using j(1) by (simp add: s'(1) closed_but_def)
      ultimately have "ws_stopping s'" using ok(2) j(2) True by (intro ws_stopping_cong [OF inv]) (simp_all add: s'(1) none_in_hand_def)
      then show ?thesis using True by (simp add: s'(1) ws_stop_work_def WsJoining)
    next
      case False
      with step WsJoining j(2) have s': "s' = s\<lparr>wx_threads := [], wx_phase := WsStopped,
         wx_gateway := (wx_gateway s)\<lparr>wg_server := (server s)\<lparr>ws_peers := [], ws_peer_ids := []\<rparr>,
           wg_publisher := unsubscribe (ws_listener (server s)) (wg_publisher (wx_gateway s))\<rparr>\<rparr>" by simp
      have "ws_stopping s'" using inv by (simp add: s' ws_stopping_def server_inv_def none_in_hand_def)
      then show ?thesis by (simp add: s' ws_stop_work_def WsJoining)
    qed
  }
qed (use inv step in \<open>simp_all add: ws_stopping_def\<close>)

lemma gone_stopping:
  assumes "ws_stopping s" "\<not> wx_gone s" "wx_gone s'" "wx_threads s' = wx_threads s" "wx_gateway s' = wx_gateway s" "wx_listening s' = wx_listening s"
    "wx_phase s' = wx_phase s" "wx_acceptor s' = wx_acceptor s"
  shows "ws_stopping s' \<and> ws_stop_work s' < ws_stop_work s"
  using assms ws_phase_ok_cong [of "wx_phase s" s s'] by (auto simp: ws_stopping_def ws_stop_work_def none_in_hand_def)

lemma run_peer_gone:
  assumes "run_peer w i sent t s = Some s'" "\<not> wx_gone s" "wx_gone s'"
  shows "wx_threads s' = wx_threads s \<and> wx_gateway s' = wx_gateway s \<and> wx_listening s' = wx_listening s \<and> wx_phase s' = wx_phase s \<and> wx_acceptor s' = wx_acceptor s"
  using assms by (cases "(w, i, sent, t, s)" rule: run_peer.cases)
    (auto simp: run_command_def split: Handshake.splits if_splits option.splits)

lemma ws_step_stopping:
  assumes inv: "ws_stopping s" and step: "ws_step w a s = Some s'"
  shows "ws_stopping s' \<and> ws_stop_work s' < ws_stop_work s"
proof -
  have alive: "\<not> wx_gone s" using step by (cases a) (auto split: if_splits)
  show ?thesis
  proof (cases a)
    case (RunPeer i sent)
    then have i: "i < length (wx_threads s)" "run_peer w i sent (wx_threads s ! i) s = Some s'" using step by (auto split: if_splits)
    show ?thesis
    proof (cases "wx_gone s'")
      case True
      with run_peer_gone [OF i(2) alive] gone_stopping [OF inv alive] show ?thesis by simp
    next
      case False
      with run_peer_move [OF inv i] peer_move_stopping [OF inv i(1)] show ?thesis by blast
    qed
  next
    case (PeerRecv i r)
    then have i: "i < length (wx_threads s)" "recv_chunk i (wx_threads s ! i) r s = Some s'" using step by (auto split: if_splits)
    from recv_chunk_move [OF inv i] peer_move_stopping [OF inv i(1)] show ?thesis by blast
  next
    case StopStep
    with step alive ws_stop_stopping [OF inv alive] show ?thesis by simp
  next
    case RunAcceptor
    with step alive acceptor_stopping [OF inv alive] show ?thesis by (simp split: if_splits)
  next
    case (AcceptAnswers ok)
    with step alive acceptor_stopping [OF inv alive, of s' ok] show ?thesis by simp
  qed
qed

text \<open>Once the peers are closed, a thread that has not finished can move without waiting for a client.\<close>

lemma thread_sends_closed:
  assumes "closed_but {} s" "t \<in> set (wx_threads s)" "\<not> is_PeerDone t" "h \<in> thread_sends s t"
  shows "\<not> peer_open s h"
proof -
  have "h = handle t \<or> registered (server s) h" using assms(4) by (auto simp: thread_sends_def registered_def split: PeerThread.splits list.splits if_splits)
  with assms(1-3) show ?thesis by (auto simp: closed_but_def)
qed

lemma unfinished_runs:
  assumes inv: "ws_stopping s" and alive: "\<not> wx_gone s" and i: "i < length (wx_threads s)" "\<not> is_PeerDone (wx_threads s ! i)" and closed: "closed_but {} s"
    and free: "wx_phase s = WsJoining k n"
  shows "\<exists>a s'. no_input s a \<and> waits_on s a = {} \<and> ws_step w a s = Some s'"
proof (cases "in_recv (wx_threads s ! i)")
  case True
  have "\<not> peer_open s (handle (wx_threads s ! i))" using closed i by (simp add: closed_but_def)
  then have "no_input s (PeerRecv i None)" using i(1) by simp
  moreover have "\<exists>s'. ws_step w (PeerRecv i None) s = Some s'" using True alive i(1) by (cases "wx_threads s ! i") (auto simp: in_recv_def)
  moreover have "waits_on s (PeerRecv i None) = {}" by (simp add: waits_on_def)
  ultimately show ?thesis by blast
next
  case False
  have "\<exists>s'. run_peer w i True (wx_threads s ! i) s = Some s'"
  proof (cases "wx_threads s ! i")
    case (Performing h acts left st)
    then show ?thesis by (cases acts) simp_all
  qed (use False i(2) in \<open>auto simp: in_recv_def\<close>)
  then have "\<exists>s'. ws_step w (RunPeer i True) s = Some s'" using alive i(1) free by (auto simp: waits_for_stop_def)
  moreover have "waits_on s (RunPeer i True) = {}" using thread_sends_closed [OF closed nth_mem [OF i(1)] i(2)] by (auto simp: waits_on_def)
  moreover have "no_input s (RunPeer i True)" by simp
  ultimately show ?thesis by blast
qed

lemma ws_progress:
  assumes inv: "ws_stopping s" and live: "\<not> ws_ended s"
  shows "\<exists>a s'. no_input s a \<and> waits_on s a \<subseteq> closing_now s \<and> ws_step w a s = Some s'"
proof (cases "\<exists>s'. ws_stop_step (wx_phase s) s = Some s'")
  case True
  then have "\<exists>s'. ws_step w StopStep s = Some s'" using live by (auto simp: ws_ended_def)
  moreover have "no_input s StopStep" "waits_on s StopStep \<subseteq> closing_now s" by (auto simp: waits_on_def)
  ultimately show ?thesis by blast
next
  case False
  have ok: "ws_phase_ok (wx_phase s) s" "none_in_hand s" "\<not> wx_gone s" "\<not> wx_listening s" using inv live by (simp_all add: ws_stopping_def ws_ended_def)
  have "\<exists>s'. ws_stop_step (WsClosing ps) s = Some s'" for ps by (cases "(WsClosing ps, s)" rule: ws_stop_step.cases) auto
  with False live obtain k n where p: "wx_phase s = WsJoining k n" "k < n" "\<not> joinable_done k s"
    using ok(1) by (cases "wx_phase s") (auto simp: ws_ended_def split: if_splits)
  show ?thesis
  proof (cases k)
    case 0
    with p ok(2) have "wx_acceptor s \<in> {AtLoop, InAcceptCall, AcceptAnswered False}" by (auto simp: none_in_hand_def joinable_done_def)
    then consider "\<exists>s'. ws_step w RunAcceptor s = Some s'" | "\<exists>s'. ws_step w (AcceptAnswers False) s = Some s'"
      using ok(3) p(1) by (auto simp: accept_answers_def waits_for_stop_def)
    moreover have "waits_on s RunAcceptor \<subseteq> closing_now s" "waits_on s (AcceptAnswers False) \<subseteq> closing_now s" by (simp_all add: waits_on_def)
    ultimately show ?thesis using ok(4) no_input.simps by cases blast+
  next
    case (Suc j)
    with p ok(1) have "j < length (wx_threads s)" "\<not> is_PeerDone (wx_threads s ! j)" "closed_but {} s" by (auto simp: joinable_done_def)
    from unfinished_runs [OF inv ok(3) this p(1)] show ?thesis by blast
  qed
qed

interpretation ws_stop: ending_machine "ws_step w" ws_stopping ws_ended ws_stop_work for w
  by unfold_locales (use ws_step_stopping ws_progress in blast)+

lemma run_peer_life:
  "run_peer w i sent t s = Some s' \<Longrightarrow> ws_running (server s') = ws_running (server s) \<and> wx_phase s' = wx_phase s \<and> wx_listening s' = wx_listening s \<and>
     (\<forall>u \<in> set (wx_threads s'). u \<in> set (wx_threads s) \<or> request_bounded u)"
proof (cases t)
  case (Performing h acts left st)
  assume step: "run_peer w i sent t s = Some s'"
  show ?thesis
  proof (cases acts)
    case (Cons a as)
    obtain sv where sv: "wx_gateway (other_action h a (did h a s)) = (wx_gateway s)\<lparr>wg_server := sv\<rparr>" "server_frame (server s) sv"
      using other_action_gateway [of h a "did h a s"] by auto
    show ?thesis
    proof (cases "frame_command a")
      case None
      with step Performing Cons sv show ?thesis by (auto simp: server_frame_def dest!: subsetD [OF set_update_subset_insert])
    next
      case (Some c)
      with step Performing Cons start_command_frame [of w h c "wx_gateway s"] show ?thesis
        by (auto simp: run_command_def server_frame_def split: option.splits dest!: subsetD [OF set_update_subset_insert])
    qed
  qed (use step Performing in \<open>auto dest!: subsetD [OF set_update_subset_insert] split: if_splits\<close>)
qed (auto simp: erase_peer_def Let_def dest!: subsetD [OF set_update_subset_insert] split: Handshake.splits if_splits)

lemma recv_chunk_life:
  "recv_chunk i t r s = Some s' \<Longrightarrow> server s' = server s \<and> wx_phase s' = wx_phase s \<and> wx_listening s' = wx_listening s \<and>
     (\<forall>u \<in> set (wx_threads s'). u \<in> set (wx_threads s) \<or> request_bounded u)"
  by (cases "(i, t, r, s)" rule: recv_chunk.cases)
    (auto dest!: subsetD [OF set_update_subset_insert] split: if_splits prod.splits)

lemma take_id_running: "take_id s = (x, s') \<Longrightarrow> ws_running s' = ws_running s"
  by (auto simp: take_id_def Let_def)

lemma register_running: "register_peer x s = (h, s') \<Longrightarrow> ws_running s' = ws_running s"
  by (auto simp: register_peer_def Let_def)

lemma life_step: "life_ok s \<Longrightarrow> ws_step w a s = Some s' \<Longrightarrow> life_ok s'"
proof (cases a)
  case RunAcceptor
  assume "life_ok s" "ws_step w a s = Some s'"
  with RunAcceptor show ?thesis
    by (cases "(wx_acceptor s, s)" rule: run_acceptor.cases)
      (auto simp: life_ok_def dest: take_id_running register_running split: prod.splits if_splits)
next
  case (RunPeer i sent)
  assume "life_ok s" "ws_step w a s = Some s'"
  with RunPeer run_peer_life [of w i sent "wx_threads s ! i" s s'] show ?thesis by (fastforce simp: life_ok_def split: if_splits)
next
  case (PeerRecv i r)
  assume "life_ok s" "ws_step w a s = Some s'"
  with PeerRecv recv_chunk_life [of i "wx_threads s ! i" r s s'] show ?thesis by (fastforce simp: life_ok_def split: if_splits)
next
  case StopStep
  assume "life_ok s" "ws_step w a s = Some s'"
  with StopStep show ?thesis by (cases "(wx_phase s, s)" rule: ws_stop_step.cases) (auto simp: life_ok_def split: if_splits)
qed (auto simp: life_ok_def accept_answers_def split: if_splits)

lemma life_run: "life_ok s \<Longrightarrow> run_steps (ws_step w) acts s = Some s' \<Longrightarrow> life_ok s'"
  by (induction acts arbitrary: s) (auto split: option.splits intro: life_step)

lemma life_start: "life_ok (ws_system e pub l)"
  by (simp add: life_ok_def ws_system_def WsServer_start_def Let_def)


lemma registered_stopping:
  assumes inv: "sys_inv w e s" and life: "life_ok s" and p: "wx_phase s = WsListenerClosed" "none_in_hand s"
    and reg: "\<forall>t \<in> set (wx_threads s). \<not> is_PeerDone t \<longrightarrow> registered (server s) (handle t)"
  shows "ws_stopping s"
  using assms by (simp add: ws_stopping_def sys_inv_def ws_inv_def conns_ok_def life_ok_def)

text \<open>What an action sends goes to the peers of \<^const>\<open>sends_to\<close> only.\<close>

lemma sent_frame_refl [simp]: "sent_frame hs s s"
  by (simp add: sent_frame_def)

lemma sent_frame_trans: "sent_frame hs s s1 \<Longrightarrow> sent_frame hs s1 s2 \<Longrightarrow> sent_frame hs s s2"
  by (simp add: sent_frame_def)

lemma sent_frame_on_peer: "h \<in> hs \<Longrightarrow> sent_frame hs s (on_peer f h s)"
  by (auto simp: sent_frame_def on_peer_nth)

lemma sent_frame_broadcast:
  assumes "snd ` set (ws_peers s) \<subseteq> hs" shows "sent_frame hs s (broadcast_text t s)"
proof -
  have "sent_frame hs s (fold (\<lambda>(_, h). on_peer (send_text t) h) ps s)" if "snd ` set ps \<subseteq> hs" for ps
    using that
  proof (induction ps arbitrary: s)
    case (Cons p ps)
    then show ?case using sent_frame_trans [OF sent_frame_on_peer [of "snd p" hs s "send_text t"]] by (auto simp: case_prod_unfold simp del: send_texts_simps)
  qed simp
  with assms show ?thesis by (simp add: broadcast_text_def)
qed

lemma sent_frame_listener:
  "Listener_on e pub call s = Some s' \<Longrightarrow> snd ` set (ws_peers s) \<subseteq> hs \<Longrightarrow> sent_frame hs s s'"
  by (cases "snd call"; cases call)
    (auto simp: on_publisher_event_def on_publisher_tob_def sent_frame_broadcast split: if_splits option.splits)

lemma sent_frame_run:
  assumes "\<And>c s s'. step c s = Some s' \<Longrightarrow> snd ` set (ws_peers (f s)) \<subseteq> hs \<Longrightarrow> sent_frame hs (f s) (f s')"
  shows "run_steps step cs s = Some s' \<Longrightarrow> snd ` set (ws_peers (f s)) \<subseteq> hs \<Longrightarrow> sent_frame hs (f s) (f s')"
proof (induction cs arbitrary: s)
  case (Cons c cs)
  then obtain s1 where s1: "step c s = Some s1" "run_steps step cs s1 = Some s'" by (auto split: option.splits)
  have one: "sent_frame hs (f s) (f s1)" using assms [OF s1(1) Cons.prems(2)] .
  then have "snd ` set (ws_peers (f s1)) \<subseteq> hs" using Cons.prems(2) by (simp add: sent_frame_def)
  with Cons.IH [OF s1(2)] one sent_frame_trans show ?case by blast
qed simp

lemma sent_frame_sink:
  assumes "PerPeerSink_on h req ev g = Some g'" "snd ` set (ws_peers (wg_server g)) \<subseteq> hs" "h \<in> hs"
  shows "sent_frame hs (wg_server g) (wg_server g')"
proof -
  obtain pub calls s where s: "run_steps (Listener_on (snd ev) pub) calls (wg_server g) = Some s"
    "g' = (case fst ev of OnTrade t \<Rightarrow> g\<lparr>wg_publisher := pub, wg_server := s\<rparr>
       | OnSubmitResult r \<Rightarrow> reply h (submit_reply req r) (g\<lparr>wg_publisher := pub, wg_server := s\<rparr>))"
    using assms(1) by (auto simp: PerPeerSink_on_def bind_eq_Some_conv Let_def)
  have "sent_frame hs (wg_server g) s"
    using sent_frame_run [where f = "\<lambda>s. s", OF sent_frame_listener s(1)] assms(2) by simp
  then show ?thesis using s(2) sent_frame_trans [OF _ sent_frame_on_peer [OF assms(3)]]
    by (auto simp: reply_def split: SinkEvent.splits)
qed

lemma sent_frame_command:
  assumes "start_command w (h, c) g = Some (r, g')"
  shows "sent_frame (insert h (snd ` set (ws_peers (wg_server g)))) (wg_server g) (wg_server g')"
proof (cases c)
  case (WsSubmit req i trader side px q tif)
  with assms obtain trace g0 where g0: "run_steps (PerPeerSink_on h req) trace g0 = Some g'" "wg_server g0 = wg_server g"
    by (auto simp: bind_eq_Some_conv)
  let ?hs = "insert h (snd ` set (ws_peers (wg_server g)))"
  have "sent_frame ?hs (wg_server g0) (wg_server g')"
  proof (rule sent_frame_run [where f = wg_server, OF _ g0(1)])
    show "sent_frame ?hs (wg_server s) (wg_server s')"
      if "PerPeerSink_on h req ev s = Some s'" "snd ` set (ws_peers (wg_server s)) \<subseteq> ?hs" for ev s s'
      using sent_frame_sink [OF that] by simp
  qed (use g0(2) in auto)
  then show ?thesis by (simp add: g0(2))
qed (use assms in \<open>auto simp: bind_eq_Some_conv\<close>)

lemma thread_sends_only_to:
  assumes step: "run_peer w i sent t s = Some s'" and h: "h < length (ws_objects (server s))" "h \<notin> thread_sends s t"
  shows "wp_sent (ws_objects (server s') ! h) = wp_sent (ws_objects (server s) ! h)"
proof (cases t)
  case (Handshaking k req)
  then have "h \<noteq> k" using h(2) by (simp add: thread_sends_def)
  with Handshaking step h(1) show ?thesis by (auto simp: on_peer_nth split: Handshake.splits if_splits)
next
  case (Performing k acts left st)
  show ?thesis
  proof (cases acts)
    case Nil
    with Performing step show ?thesis by (auto split: if_splits)
  next
    case (Cons a as)
    show ?thesis
    proof (cases "frame_command a")
      case None
      then have "h \<noteq> k" using h(2) Performing Cons by (simp add: thread_sends_def)
      with None Performing Cons step h(1) show ?thesis by (cases a) (auto simp: on_peer_nth)
    next
      case (Some c)
      then have k: "h \<notin> insert k (snd ` set (ws_peers (server s)))" using h(2) Performing Cons by (simp add: thread_sends_def)
      show ?thesis
      proof (cases "start_command w (k, c) (wx_gateway s)")
        case None
        with Some Performing Cons step show ?thesis by (auto simp: run_command_def)
      next
        case (Some p)
        obtain r g' where p: "p = (r, g')" by fastforce
        have "server s' = wg_server g'" using \<open>frame_command a = Some c\<close> Some p Performing Cons step by (auto simp: run_command_def)
        then show ?thesis using sent_frame_command [of w k c "wx_gateway s" r g'] Some p h(1) k by (simp add: sent_frame_def)
      qed
    qed
  qed
next
  case (Replying k payload acts left st)
  then have "h \<noteq> k" using h(2) by (simp add: thread_sends_def)
  with Replying step h(1) show ?thesis by (auto simp: on_peer_nth)
qed (use step h in \<open>auto simp: on_peer_nth close_internal_def erase_peer_def Let_def split: if_splits\<close>)

lemma sends_only_to:
  assumes "ws_step w a s = Some s'" "h < length (ws_objects (server s))" "h \<notin> sends_to s a"
  shows "wp_sent (ws_objects (server s') ! h) = wp_sent (ws_objects (server s) ! h)"
proof (cases a)
  case RunAcceptor
  with assms(1,2) show ?thesis
    by (cases "(wx_acceptor s, s)" rule: run_acceptor.cases)
      (auto simp: take_id_def register_peer_def Let_def nth_append split: if_splits)
next
  case (RunPeer i sent)
  with assms show ?thesis using thread_sends_only_to [of w i sent "wx_threads s ! i" s s' h] by (auto split: if_splits)
next
  case (PeerRecv i r)
  with assms recv_chunk_life [of i "wx_threads s ! i" r s s'] show ?thesis by (auto split: if_splits)
next
  case StopStep
  with assms show ?thesis
    by (cases "(wx_phase s, s)" rule: ws_stop_step.cases) (auto simp: closing_now_def on_peer_nth split: if_splits)
qed (use assms in \<open>auto simp: accept_answers_def split: if_splits\<close>)

text \<open>While the thread of a peer is in \<^verbatim>\<open>recv\<close> and its client neither sends, closes nor takes bytes, \<open>stop\<close> does not get past closing this peer.\<close>

lemma stop_held_step:
  assumes held: "stop_held i t s" and t: "in_recv t" and step: "ws_step w a s = Some s'" and a: "without_client i (handle t) a s"
  shows "stop_held i t s'"
proof -
  have inv: "ws_stopping s" and i: "i < length (wx_threads s)" "wx_threads s ! i = t" and alive: "\<not> wx_gone s"
    using held step by (cases a; auto simp: stop_held_def split: if_splits)+
  have st: "ws_stopping s'" using ws_step_stopping [OF inv step] by blast
  have same: "stop_held i t s'" if "wx_phase s' = wx_phase s" "wx_threads s' ! i = t" "length (wx_threads s') = length (wx_threads s)"
    using that st held by (simp add: stop_held_def)
  have moved: "stop_held i t s'" if "peer_move s j u s'" "j \<noteq> i" for j u
    using that i by (intro same) (simp_all add: peer_move_def)
  show ?thesis
  proof (cases a)
    case RunAcceptor
    with step inv have "wx_threads s' = wx_threads s" "wx_phase s' = wx_phase s"
      by (cases "(wx_acceptor s, s)" rule: run_acceptor.cases; auto simp: ws_stopping_def none_in_hand_def split: if_splits prod.splits)+
    then show ?thesis using i by (intro same) simp_all
  next
    case (AcceptAnswers ok)
    then show ?thesis using step i by (intro same) (auto simp: accept_answers_def split: if_splits)
  next
    case (RunPeer j sent)
    with step have j: "j < length (wx_threads s)" "run_peer w j sent (wx_threads s ! j) s = Some s'" by (auto split: if_splits)
    then have "j \<noteq> i" using i t by (cases t) (auto simp: in_recv_def)
    show ?thesis
    proof (cases "wx_gone s'")
      case True
      with run_peer_gone [OF j(2) alive] i show ?thesis by (intro same) simp_all
    next
      case False
      with run_peer_move [OF inv j] moved [OF _ \<open>j \<noteq> i\<close>] show ?thesis by blast
    qed
  next
    case (PeerRecv j r)
    with step have j: "j < length (wx_threads s)" "recv_chunk j (wx_threads s ! j) r s = Some s'" by (auto split: if_splits)
    have "j \<noteq> i" using a PeerRecv by (auto simp: without_client_def)
    with recv_chunk_move [OF inv j] moved show ?thesis by blast
  next
    case StopStep
    from held consider "wx_phase s = WsListenerClosed" | x h ps where "wx_phase s = WsClosing ((x, h) # ps)" "handle t \<in> insert h (snd ` set ps)"
      by (auto simp: stop_held_def) (metis list.exhaust list.set_cases prod.collapse snd_conv image_eqI set_ConsD insert_iff list.set_intros)
    then show ?thesis
    proof cases
      case 1
      have "\<not> is_PeerDone t" using t by (cases t) (simp_all add: in_recv_def)
      with 1 inv i nth_mem [OF i(1)] have "registered (server s) (handle t)" by (auto simp: ws_stopping_def)
      then show ?thesis using 1 step StopStep alive st i by (auto simp: stop_held_def registered_def)
    next
      case 2
      with a StopStep have "handle t \<noteq> h" by (auto simp: without_client_def closing_now_def)
      then show ?thesis using 2 step StopStep alive st i by (auto simp: stop_held_def)
    qed
  qed
qed

lemma stop_held_run:
  "stop_held i t s \<Longrightarrow> in_recv t \<Longrightarrow> run_steps (ws_step w) acts s = Some s' \<Longrightarrow> admissible (ws_step w) (without_client i (handle t)) acts s \<Longrightarrow> stop_held i t s'"
  by (induction acts arbitrary: s) (auto split: option.splits intro: stop_held_step)

section \<open>Properties\<close>

text \<open>
  C25. What stopping the WebSocket server waits for. Take the moment when \<open>stop\<close> has cleared the flag and closed the listener, with no
  accepted connection on its way to a thread and every unfinished connection registered. From there at most \<open>ws_stop_work\<close> actions are
  left, however the threads and the clients interleave. Until the end there is always an action that needs no input of a client, and
  the only client it may have to wait for is the one that \<open>stop\<close> is just sending its close frame to, which has to take these bytes; no client's
  input and no other send is waited for. The end is that \<open>stop\<close> has returned, if the commands still run are safe. But that one send is waited for: if
  a client whose thread is in \<^verbatim>\<open>recv\<close> stays silent and its sends do not return, \<open>stop\<close> never returns.
\<close>

theorem ws_stop_waits_for_close_frames:
  assumes "engine_ok e" "admissible (ws_step w) (ws_ok w) acts (ws_system e pub l)" "run_steps (ws_step w) acts (ws_system e pub l) = Some s"
    "wx_phase s = WsListenerClosed" "none_in_hand s" "\<forall>t \<in> set (wx_threads s). \<not> is_PeerDone t \<longrightarrow> registered (server s) (handle t)"
  shows "\<forall>acts' s'. run_steps (ws_step w) acts' s = Some s' \<longrightarrow>
    length acts' \<le> ws_stop_work s \<and>
    (ws_ended s' \<or> (\<exists>a s''. no_input s' a \<and> waits_on s' a \<subseteq> closing_now s' \<and> ws_step w a s' = Some s'')) \<and>
    (admissible (ws_step w) (ws_ok w) acts' s \<and> ws_ended s' \<longrightarrow> wx_phase s' = WsStopped \<and> \<not> wx_gone s') \<and>
    (\<forall>i < length (wx_threads s). in_recv (wx_threads s ! i) \<and>
       admissible (ws_step w) (without_client i (handle (wx_threads s ! i))) acts' s \<longrightarrow> wx_phase s' \<noteq> WsStopped)"
proof (intro allI impI conjI)
  fix acts' s' assume run: "run_steps (ws_step w) acts' s = Some s'"
  have inv: "sys_inv w e s" using ws_run_inv [OF ws_system_inv [OF assms(1)] assms(2,3)] .
  have st: "ws_stopping s" using registered_stopping [OF inv life_run [OF life_start assms(3)] assms(4-6)] .
  then have b: "ws_stopping s'" "length acts' + ws_stop_work s' \<le> ws_stop_work s" using ws_stop.run_bounded [OF st run] by auto
  then show "length acts' \<le> ws_stop_work s" by simp
  show "ws_ended s' \<or> (\<exists>a s''. no_input s' a \<and> waits_on s' a \<subseteq> closing_now s' \<and> ws_step w a s' = Some s'')" using ws_progress [OF b(1)] by blast
  show "wx_phase s' = WsStopped" "\<not> wx_gone s'" if "admissible (ws_step w) (ws_ok w) acts' s \<and> ws_ended s'"
    using that ws_run_inv [OF inv _ run] by (simp_all add: sys_inv_def ws_ended_def)
  show "wx_phase s' \<noteq> WsStopped" if "i < length (wx_threads s)" "in_recv (wx_threads s ! i) \<and>
       admissible (ws_step w) (without_client i (handle (wx_threads s ! i))) acts' s" for i
    using that st assms(4) stop_held_run [OF _ _ run, of i "wx_threads s ! i"] by (auto simp: stop_held_def)
qed

theorem ws_stop_waits_for_close_frames_witness:
  "\<exists>s. run_steps (ws_step sample_world_ws) sample_actions (ws_system demo_engine new_Publisher 7) = Some s \<and> wx_phase s = WsListenerClosed \<and>
     wx_threads s \<noteq> [] \<and>
     (\<forall>acts' s'. run_steps (ws_step sample_world_ws) acts' s = Some s' \<longrightarrow>
        ws_ended s' \<or> (\<exists>a s''. no_input s' a \<and> waits_on s' a \<subseteq> closing_now s' \<and> ws_step sample_world_ws a s' = Some s''))"
proof -
  obtain s where s: "admissible (ws_step sample_world_ws) (ws_ok sample_world_ws) sample_actions (ws_system demo_engine new_Publisher 7)"
    "run_steps (ws_step sample_world_ws) sample_actions (ws_system demo_engine new_Publisher 7) = Some s"
    "wx_log s = [(0, WsPing ''7'')]" "wx_phase s = WsListenerClosed" "wx_acceptor s = AtLoop" "map handle (wx_threads s) = [0]"
    "ws_peers (server s) = [(1, 0)]"
    using sample_actions_run by (elim exE conjE) (rule that)
  have "handle ` set (wx_threads s) = {0}" using arg_cong [OF s(6), of set] by simp
  then have "handle t = 0" if "t \<in> set (wx_threads s)" for t using that by blast
  then have "\<forall>t \<in> set (wx_threads s). \<not> is_PeerDone t \<longrightarrow> registered (server s) (handle t)" using s(7) by (simp add: registered_def)
  moreover have "none_in_hand s" using s(5) by (simp add: none_in_hand_def)
  moreover have "wx_threads s \<noteq> []" using s(6) by auto
  ultimately show ?thesis using ws_stop_waits_for_close_frames [OF demo_engine_ok s(1,2,4)] s(2,4) by blast
qed

end
