(* ===== verification/Metrics.thy ===== *)
theory Metrics
  imports Engine Protocol
begin

text \<open>
  In-process metrics (\<^verbatim>\<open>observability/metrics.hpp\<close>, \<^verbatim>\<open>observability/metrics.cpp\<close>):
  the counters, the sink that updates them and passes every event on, the registry by instrument,
  and the two text renderings. The counters are 64-bit and wrap.
\<close>

section \<open>Counters\<close>

datatype MetricLabel = LabelAccepted | LabelFilled | LabelPartial | LabelCancelled | LabelRejected

record CounterBundle =
  submits_accepted :: "64 word"
  submits_filled :: "64 word"
  submits_partial :: "64 word"
  submits_cancelled :: "64 word"
  submits_rejected :: "64 word"
  trades_total :: "64 word"
  trade_qty_total :: "64 word"
  trade_notional_total :: "64 word"
  cancels_attempted :: "64 word"
  cancels_succeeded :: "64 word"
  modifies_attempted :: "64 word"
  modifies_succeeded :: "64 word"
  last_sequence :: "64 word"

definition CounterBundle_init :: CounterBundle where
  "CounterBundle_init =
     \<lparr>submits_accepted = 0, submits_filled = 0, submits_partial = 0, submits_cancelled = 0, submits_rejected = 0,
      trades_total = 0, trade_qty_total = 0, trade_notional_total = 0, cancels_attempted = 0, cancels_succeeded = 0,
      modifies_attempted = 0, modifies_succeeded = 0, last_sequence = 0\<rparr>"

definition reset :: "CounterBundle \<Rightarrow> CounterBundle" where
  "reset b = b
     \<lparr>submits_accepted := 0, submits_filled := 0, submits_partial := 0, submits_cancelled := 0, submits_rejected := 0,
      trades_total := 0, trade_qty_total := 0, trade_notional_total := 0, cancels_attempted := 0, cancels_succeeded := 0,
      modifies_attempted := 0, modifies_succeeded := 0, last_sequence := 0\<rparr>"

text \<open>A snapshot has the same fields as plain integers.\<close>

record Snapshot =
  snap_submits_accepted :: "64 word"
  snap_submits_filled :: "64 word"
  snap_submits_partial :: "64 word"
  snap_submits_cancelled :: "64 word"
  snap_submits_rejected :: "64 word"
  snap_trades_total :: "64 word"
  snap_trade_qty_total :: "64 word"
  snap_trade_notional_total :: "64 word"
  snap_cancels_attempted :: "64 word"
  snap_cancels_succeeded :: "64 word"
  snap_modifies_attempted :: "64 word"
  snap_modifies_succeeded :: "64 word"
  snap_last_sequence :: "64 word"

definition snapshot :: "CounterBundle \<Rightarrow> Snapshot" where
  "snapshot b =
     \<lparr>snap_submits_accepted = submits_accepted b, snap_submits_filled = submits_filled b,
      snap_submits_partial = submits_partial b, snap_submits_cancelled = submits_cancelled b,
      snap_submits_rejected = submits_rejected b, snap_trades_total = trades_total b,
      snap_trade_qty_total = trade_qty_total b, snap_trade_notional_total = trade_notional_total b,
      snap_cancels_attempted = cancels_attempted b, snap_cancels_succeeded = cancels_succeeded b,
      snap_modifies_attempted = modifies_attempted b, snap_modifies_succeeded = modifies_succeeded b,
      snap_last_sequence = last_sequence b\<rparr>"

section \<open>The sink\<close>

definition metrics_on_trade :: "Trade \<Rightarrow> CounterBundle \<Rightarrow> CounterBundle" where
  "metrics_on_trade t b =
     (let notional = word_of_int (ticks (t_price t)) * word_of_int (qty (t_quantity t))
      in b\<lparr>trades_total := trades_total b + 1,
           trade_qty_total := trade_qty_total b + word_of_int (qty (t_quantity t)),
           trade_notional_total := trade_notional_total b + notional,
           last_sequence := t_sequence t\<rparr>)"

definition metrics_on_submit_result :: "SubmitResult \<Rightarrow> CounterBundle \<Rightarrow> CounterBundle" where
  "metrics_on_submit_result r b =
     (case sr_status r of
        Accepted \<Rightarrow> b\<lparr>submits_accepted := submits_accepted b + 1\<rparr>
      | FullyFilled \<Rightarrow> b\<lparr>submits_filled := submits_filled b + 1\<rparr>
      | PartiallyFilled \<Rightarrow> b\<lparr>submits_partial := submits_partial b + 1\<rparr>
      | Cancelled \<Rightarrow> b\<lparr>submits_cancelled := submits_cancelled b + 1\<rparr>
      | Rejected \<Rightarrow> b\<lparr>submits_rejected := submits_rejected b + 1\<rparr>)\<lparr>last_sequence := sr_sequence r\<rparr>"

text \<open>The sink passes every event on to the sink behind it, if there is one.\<close>

fun MetricsSink_on ::
    "(SinkEvent \<Rightarrow> 'd \<Rightarrow> 'd) option \<Rightarrow> SinkEvent \<Rightarrow> CounterBundle \<times> 'd \<Rightarrow> CounterBundle \<times> 'd" where
  "MetricsSink_on downstream (OnTrade t) (b, d) =
     (metrics_on_trade t b, case downstream of None \<Rightarrow> d | Some f \<Rightarrow> f (OnTrade t) d)"
| "MetricsSink_on downstream (OnSubmitResult r) (b, d) =
     (metrics_on_submit_result r b, case downstream of None \<Rightarrow> d | Some f \<Rightarrow> f (OnSubmitResult r) d)"

definition record_cancel_attempt :: "bool \<Rightarrow> CounterBundle \<Rightarrow> CounterBundle" where
  "record_cancel_attempt ok b =
     (let b1 = b\<lparr>cancels_attempted := cancels_attempted b + 1\<rparr>
      in if ok then b1\<lparr>cancels_succeeded := cancels_succeeded b1 + 1\<rparr> else b1)"

definition record_modify_attempt :: "bool \<Rightarrow> CounterBundle \<Rightarrow> CounterBundle" where
  "record_modify_attempt ok b =
     (let b1 = b\<lparr>modifies_attempted := modifies_attempted b + 1\<rparr>
      in if ok then b1\<lparr>modifies_succeeded := modifies_succeeded b1 + 1\<rparr> else b1)"

section \<open>The registry\<close>

definition kMaxInstruments :: nat where "kMaxInstruments = 256"

record MetricsRegistry =
  per_instrument :: "CounterBundle list"
  global :: CounterBundle

definition new_MetricsRegistry :: MetricsRegistry where
  "new_MetricsRegistry = \<lparr>per_instrument = replicate kMaxInstruments CounterBundle_init, global = CounterBundle_init\<rparr>"

definition metrics_slot :: "InstrumentId \<Rightarrow> nat" where "metrics_slot i = unat i mod kMaxInstruments"

definition for_instrument :: "InstrumentId \<Rightarrow> MetricsRegistry \<Rightarrow> CounterBundle" where
  "for_instrument i m = per_instrument m ! metrics_slot i"

text \<open>Writing through the reference that \<open>for_instrument\<close> returns.\<close>

definition update_instrument :: "InstrumentId \<Rightarrow> (CounterBundle \<Rightarrow> CounterBundle) \<Rightarrow> MetricsRegistry \<Rightarrow> MetricsRegistry" where
  "update_instrument i f m =
     m\<lparr>per_instrument := (per_instrument m)[metrics_slot i := f (per_instrument m ! metrics_slot i)]\<rparr>"

section \<open>Renderings\<close>

text \<open>One metric of the Prometheus text: its help and type lines, and a sample line.\<close>

definition help_line :: "string \<Rightarrow> string \<Rightarrow> string \<Rightarrow> string" where
  "help_line prefix metric text = ''# HELP '' @ prefix @ metric @ '' '' @ text @ newline"

definition type_line :: "string \<Rightarrow> string \<Rightarrow> string \<Rightarrow> string" where
  "type_line prefix metric kind = ''# TYPE '' @ prefix @ metric @ '' '' @ kind @ newline"

definition sample_line :: "string \<Rightarrow> string \<Rightarrow> 64 word \<Rightarrow> string" where
  "sample_line prefix label v = prefix @ label @ word_string v @ newline"

definition prometheus_text :: "string \<Rightarrow> Snapshot \<Rightarrow> string" where
  \<open>prometheus_text p s =
     help_line p ''_submits_total'' ''Number of submissions by status.'' @
     type_line p ''_submits_total'' ''counter'' @
     sample_line p ''_submits_total{status="accepted"} '' (snap_submits_accepted s) @
     sample_line p ''_submits_total{status="filled"}   '' (snap_submits_filled s) @
     sample_line p ''_submits_total{status="partial"}  '' (snap_submits_partial s) @
     sample_line p ''_submits_total{status="cancelled"}'' (snap_submits_cancelled s) @
     sample_line p ''_submits_total{status="rejected"} '' (snap_submits_rejected s) @
     help_line p ''_trades_total'' ''Number of matched trades.'' @
     type_line p ''_trades_total'' ''counter'' @
     sample_line p ''_trades_total '' (snap_trades_total s) @
     help_line p ''_trade_qty_total'' ''Sum of trade quantities.'' @
     type_line p ''_trade_qty_total'' ''counter'' @
     sample_line p ''_trade_qty_total '' (snap_trade_qty_total s) @
     help_line p ''_trade_notional_total'' ''Sum of trade notionals (price*qty).'' @
     type_line p ''_trade_notional_total'' ''counter'' @
     sample_line p ''_trade_notional_total '' (snap_trade_notional_total s) @
     help_line p ''_cancels_attempted_total'' ''Cancel attempts.'' @
     type_line p ''_cancels_attempted_total'' ''counter'' @
     sample_line p ''_cancels_attempted_total '' (snap_cancels_attempted s) @
     sample_line p ''_cancels_succeeded_total '' (snap_cancels_succeeded s) @
     help_line p ''_modifies_attempted_total'' ''Modify attempts.'' @
     type_line p ''_modifies_attempted_total'' ''counter'' @
     sample_line p ''_modifies_attempted_total '' (snap_modifies_attempted s) @
     sample_line p ''_modifies_succeeded_total '' (snap_modifies_succeeded s) @
     help_line p ''_last_sequence'' ''Last observed sequence number.'' @
     type_line p ''_last_sequence'' ''gauge'' @
     sample_line p ''_last_sequence '' (snap_last_sequence s)\<close>

definition render_prometheus :: "Snapshot \<Rightarrow> string \<Rightarrow> string" where
  "render_prometheus s prefix = snprintf 1024 (prometheus_text (c_str prefix) s)"

definition json_text :: "Snapshot \<Rightarrow> string" where
  \<open>json_text s =
     ''{"submits":{"accepted":'' @ word_string (snap_submits_accepted s) @ '',"filled":'' @ word_string (snap_submits_filled s) @
     '',"partial":'' @ word_string (snap_submits_partial s) @ '',"cancelled":'' @ word_string (snap_submits_cancelled s) @
     '',"rejected":'' @ word_string (snap_submits_rejected s) @ ''},'' @
     ''"trades":{"total":'' @ word_string (snap_trades_total s) @ '',"qty_total":'' @ word_string (snap_trade_qty_total s) @
     '',"notional_total":'' @ word_string (snap_trade_notional_total s) @ ''},'' @
     ''"cancels":{"attempted":'' @ word_string (snap_cancels_attempted s) @
     '',"succeeded":'' @ word_string (snap_cancels_succeeded s) @ ''},'' @
     ''"modifies":{"attempted":'' @ word_string (snap_modifies_attempted s) @
     '',"succeeded":'' @ word_string (snap_modifies_succeeded s) @ ''},'' @
     ''"last_sequence":'' @ word_string (snap_last_sequence s) @ ''}''\<close>

definition render_json :: "Snapshot \<Rightarrow> string" where
  "render_json s = snprintf 1024 (json_text s)"

section \<open>What is counted\<close>

fun trade_of_event :: "SinkEvent \<Rightarrow> Trade option" where
  "trade_of_event (OnTrade t) = Some t"
| "trade_of_event (OnSubmitResult r) = None"

definition with_status :: "SubmitStatus \<Rightarrow> SinkEvent \<Rightarrow> bool" where
  "with_status st ev \<longleftrightarrow> (case ev of OnTrade t \<Rightarrow> False | OnSubmitResult r \<Rightarrow> sr_status r = st)"

definition count_status :: "SubmitStatus \<Rightarrow> SinkEvent list \<Rightarrow> 64 word" where
  "count_status st evs = of_nat (length (filter (with_status st) evs))"

definition observe :: "SinkEvent list \<Rightarrow> CounterBundle \<Rightarrow> CounterBundle" where
  "observe evs b = fst (fold (MetricsSink_on (None :: (SinkEvent \<Rightarrow> unit \<Rightarrow> unit) option)) evs (b, ()))"

section \<open>Properties\<close>

lemma fold_metrics_sink:
  "fold (MetricsSink_on (Some f)) evs (b, d) = (observe evs b, fold f evs d)"
proof (induction evs arbitrary: b d)
  case (Cons ev evs)
  then show ?case by (cases ev) (simp_all add: observe_def)
qed (simp add: observe_def)

lemma observe_Cons:
  "observe (ev # evs) b = observe evs (case ev of OnTrade t \<Rightarrow> metrics_on_trade t b | OnSubmitResult r \<Rightarrow> metrics_on_submit_result r b)"
  by (cases ev) (simp_all add: observe_def)

lemma observe_counts:
  "submits_accepted (observe evs b) = submits_accepted b + count_status Accepted evs \<and>
   submits_filled (observe evs b) = submits_filled b + count_status FullyFilled evs \<and>
   submits_partial (observe evs b) = submits_partial b + count_status PartiallyFilled evs \<and>
   submits_cancelled (observe evs b) = submits_cancelled b + count_status Cancelled evs \<and>
   submits_rejected (observe evs b) = submits_rejected b + count_status Rejected evs"
proof (induction evs arbitrary: b)
  case (Cons ev evs)
  show ?case
  proof (cases ev)
    case (OnSubmitResult r)
    then show ?thesis using Cons by (cases "sr_status r") (simp_all add: observe_Cons metrics_on_submit_result_def count_status_def with_status_def)
  qed (simp add: Cons observe_Cons metrics_on_trade_def count_status_def with_status_def)
qed (simp add: observe_def count_status_def)

lemma observe_trades:
  "trades_total (observe evs b) = trades_total b + of_nat (length (List.map_filter trade_of_event evs)) \<and>
   trade_qty_total (observe evs b) = trade_qty_total b +
     word_of_int (\<Sum>t \<leftarrow> List.map_filter trade_of_event evs. qty (t_quantity t)) \<and>
   trade_notional_total (observe evs b) = trade_notional_total b +
     word_of_int (\<Sum>t \<leftarrow> List.map_filter trade_of_event evs. ticks (t_price t) * qty (t_quantity t))"
proof (induction evs arbitrary: b)
  case (Cons ev evs)
  show ?case
  proof (cases ev)
    case (OnSubmitResult r)
    then show ?thesis using Cons by (cases "sr_status r") (simp_all add: observe_Cons metrics_on_submit_result_def List.map_filter_simps)
  qed (simp add: Cons observe_Cons metrics_on_trade_def List.map_filter_simps)
qed (simp add: observe_def List.map_filter_simps)

lemma length_lines:
  "length (help_line p m t) = 9 + length p + length m + length t"
  "length (type_line p m k) = 9 + length p + length m + length k"
  "length (sample_line p l v) = 1 + length p + length l + length (word_string v)"
  by (simp_all add: help_line_def type_line_def sample_line_def newline_def)

text \<open>
  C38. The counters count. Over any sequence of sink calls every submission counter grows by the number
  of results with its status and the trade counters by the number, total quantity and total
  notional of the trades (modulo \<open>2 ^ 64\<close>), while the sink behind sees every call unchanged.
\<close>

theorem metrics_count_events:
  "\<exists>b. fold (MetricsSink_on (Some f)) evs (CounterBundle_init, d) = (b, fold f evs d) \<and>
   submits_accepted b = count_status Accepted evs \<and> submits_filled b = count_status FullyFilled evs \<and>
   submits_partial b = count_status PartiallyFilled evs \<and> submits_cancelled b = count_status Cancelled evs \<and>
   submits_rejected b = count_status Rejected evs \<and>
   (let ts = List.map_filter trade_of_event evs
    in trades_total b = of_nat (length ts) \<and> trade_qty_total b = word_of_int (\<Sum>t \<leftarrow> ts. qty (t_quantity t)) \<and>
       trade_notional_total b = word_of_int (\<Sum>t \<leftarrow> ts. ticks (t_price t) * qty (t_quantity t)))"
  unfolding fold_metrics_sink
  using observe_counts [of evs CounterBundle_init] observe_trades [of evs CounterBundle_init]
  by (simp add: CounterBundle_init_def)

text \<open>
  The Prometheus rendering never fits its buffer with the default prefix: whatever the counters are,
  the text is cut to 1023 of at least 1241 characters, so that the last metrics are missing. The
  JSON rendering always fits.
\<close>

theorem prometheus_always_cut:
  "length (render_prometheus s ''trader_two'') = 1023 \<and> 1241 \<le> length (prometheus_text ''trader_two'' s) \<and>
   render_json s = json_text s"
proof -
  have pos: "1 \<le> length (word_string v)" for v by (simp add: word_string_def Suc_le_eq)
  have "1241 \<le> length (prometheus_text ''trader_two'' s)"
    using pos [of "snap_submits_accepted s"] pos [of "snap_submits_filled s"] pos [of "snap_submits_partial s"]
      pos [of "snap_submits_cancelled s"] pos [of "snap_submits_rejected s"] pos [of "snap_trades_total s"]
      pos [of "snap_trade_qty_total s"] pos [of "snap_trade_notional_total s"] pos [of "snap_cancels_attempted s"]
      pos [of "snap_cancels_succeeded s"] pos [of "snap_modifies_attempted s"] pos [of "snap_modifies_succeeded s"]
      pos [of "snap_last_sequence s"]
    by (simp add: prometheus_text_def length_lines)
  moreover have "length (json_text s) < 1024"
    using length_word_string [of "snap_submits_accepted s"] length_word_string [of "snap_submits_filled s"]
      length_word_string [of "snap_submits_partial s"] length_word_string [of "snap_submits_cancelled s"]
      length_word_string [of "snap_submits_rejected s"] length_word_string [of "snap_trades_total s"]
      length_word_string [of "snap_trade_qty_total s"] length_word_string [of "snap_trade_notional_total s"]
      length_word_string [of "snap_cancels_attempted s"] length_word_string [of "snap_cancels_succeeded s"]
      length_word_string [of "snap_modifies_attempted s"] length_word_string [of "snap_modifies_succeeded s"]
      length_word_string [of "snap_last_sequence s"]
    by (simp add: json_text_def)
  moreover have "c_str ''trader_two'' = ''trader_two''" by (simp add: c_str_def)
  ultimately show ?thesis by (simp add: render_prometheus_def render_json_def snprintf_def)
qed

end
