(* ===== verification/Structured_Log.thy ===== *)
theory Structured_Log
  imports Engine Protocol
begin

text \<open>
  The structured logger (\<^verbatim>\<open>observability/structured_log.hpp\<close>,
  \<^verbatim>\<open>observability/structured_log.cpp\<close>): JSON string escaping, the record lines, the JSON
  forms of trades and results. The broken-down time and the microseconds that the clock gives are
  parameters; what a logger has written to its stream is a field of its state.
\<close>

section \<open>Levels and escaping\<close>

datatype LogLevel = Debug | Info | Warn | Error

definition level_name :: "LogLevel \<Rightarrow> string" where
  "level_name l = (case l of Debug \<Rightarrow> ''DEBUG'' | Info \<Rightarrow> ''INFO'' | Warn \<Rightarrow> ''WARN'' | Error \<Rightarrow> ''ERROR'')"

definition hex_digit :: "nat \<Rightarrow> char" where
  "hex_digit d = (if d < 10 then char_of (48 + d) else char_of (87 + d))"

text \<open>\<^verbatim>\<open>%04x\<close> of a 16-bit value.\<close>

definition hex4 :: "nat \<Rightarrow> string" where
  "hex4 n = [hex_digit (n div 4096 mod 16), hex_digit (n div 256 mod 16), hex_digit (n div 16 mod 16), hex_digit (n mod 16)]"

definition escape_char :: "char \<Rightarrow> string" where
  "escape_char c =
     (if c = CHR 0x22 then [CHR 0x5C, CHR 0x22]
      else if c = CHR 0x5C then [CHR 0x5C, CHR 0x5C]
      else if c = CHR 0x0A then [CHR 0x5C, CHR ''n'']
      else if c = CHR 0x0D then [CHR 0x5C, CHR ''r'']
      else if c = CHR 0x09 then [CHR 0x5C, CHR ''t'']
      else if (of_char c :: nat) < 32 then snprintf 8 ([CHR 0x5C, CHR ''u''] @ hex4 (of_char c))
      else [c])"

definition escape :: "string \<Rightarrow> string" where "escape s = concat (map escape_char s)"

section \<open>Time stamps\<close>

record Tm =
  tm_year :: int
  tm_mon :: int
  tm_mday :: int
  tm_hour :: int
  tm_min :: int
  tm_sec :: int

text \<open>\<^verbatim>\<open>%0wd\<close>.\<close>

definition pad :: "nat \<Rightarrow> string \<Rightarrow> string" where "pad w s = replicate (w - length s) (CHR ''0'') @ s"

definition pad_int :: "nat \<Rightarrow> int \<Rightarrow> string" where
  "pad_int w x = (if x < 0 then CHR ''-'' # pad (w - 1) (nat_string (nat (- x))) else pad w (nat_string (nat x)))"

definition timestamp_iso8601 :: "Tm \<Rightarrow> int \<Rightarrow> string" where
  "timestamp_iso8601 tm micros =
     snprintf 40 (pad_int 4 (tm_year tm + 1900) @ ''-'' @ pad_int 2 (tm_mon tm + 1) @ ''-'' @ pad_int 2 (tm_mday tm) @ ''T'' @
       pad_int 2 (tm_hour tm) @ '':'' @ pad_int 2 (tm_min tm) @ '':'' @ pad_int 2 (tm_sec tm) @ ''.'' @ pad_int 6 micros @ ''Z'')"

section \<open>The logger\<close>

record StructuredLogger =
  sl_open :: bool
  sl_stdout :: bool
  sl_written :: string

definition StructuredLogger_open :: "string \<Rightarrow> bool \<Rightarrow> StructuredLogger" where
  "StructuredLogger_open path fopen_ok =
     (if path = ''-'' then \<lparr>sl_open = True, sl_stdout = True, sl_written = ''''\<rparr>
      else \<lparr>sl_open = True, sl_stdout = \<not> fopen_ok, sl_written = ''''\<rparr>)"

definition StructuredLogger_close :: "StructuredLogger \<Rightarrow> StructuredLogger" where
  "StructuredLogger_close l = (if sl_open l \<and> \<not> sl_stdout l then l\<lparr>sl_open := False\<rparr> else l)"

definition write_line :: "string \<Rightarrow> StructuredLogger \<Rightarrow> StructuredLogger" where
  "write_line line l = (if \<not> sl_open l then l else l\<lparr>sl_written := sl_written l @ line @ newline\<rparr>)"

definition log_header_text :: "string \<Rightarrow> LogLevel \<Rightarrow> string \<Rightarrow> string" where
  \<open>log_header_text ts level event =
     ''{"ts":"'' @ ts @ ''","level":"'' @ level_name level @ ''","event":"'' @ escape event @ ''",''\<close>

definition trim_brace :: "string \<Rightarrow> string" where
  "trim_brace kv = (if kv \<noteq> [] \<and> last kv = CHR ''}'' then butlast kv else kv)"

definition logger_log :: "Tm \<Rightarrow> int \<Rightarrow> LogLevel \<Rightarrow> string \<Rightarrow> string \<Rightarrow> StructuredLogger \<Rightarrow> StructuredLogger" where
  "logger_log tm micros level event kv_json l =
     (let header = snprintf 160 (log_header_text (timestamp_iso8601 tm micros) level event)
      in write_line (header @ trim_brace kv_json @ ''}'' @ newline) l)"

definition logger_info :: "Tm \<Rightarrow> int \<Rightarrow> string \<Rightarrow> string \<Rightarrow> StructuredLogger \<Rightarrow> StructuredLogger" where
  "logger_info tm micros = logger_log tm micros Info"

definition logger_warn :: "Tm \<Rightarrow> int \<Rightarrow> string \<Rightarrow> string \<Rightarrow> StructuredLogger \<Rightarrow> StructuredLogger" where
  "logger_warn tm micros = logger_log tm micros Warn"

definition logger_error :: "Tm \<Rightarrow> int \<Rightarrow> string \<Rightarrow> string \<Rightarrow> StructuredLogger \<Rightarrow> StructuredLogger" where
  "logger_error tm micros = logger_log tm micros Error"

definition logger_debug :: "Tm \<Rightarrow> int \<Rightarrow> string \<Rightarrow> string \<Rightarrow> StructuredLogger \<Rightarrow> StructuredLogger" where
  "logger_debug tm micros = logger_log tm micros Debug"

section \<open>Records\<close>

definition json_trade :: "Trade \<Rightarrow> string" where
  \<open>json_trade t = snprintf 256
     (''{"buy_order_id":'' @ word_string (buy_order_id t) @ '',"sell_order_id":'' @ word_string (sell_order_id t) @
      '',"price_ticks":'' @ int_string (ticks (t_price t)) @ '',"qty":'' @ int_string (qty (t_quantity t)) @
      '',"sequence":'' @ word_string (t_sequence t) @ '',"instrument":'' @ word_string (t_instrument_id t) @ ''}'')\<close>

definition json_status :: "SubmitStatus \<Rightarrow> string" where
  "json_status s = (case s of
       Accepted \<Rightarrow> ''accepted'' | FullyFilled \<Rightarrow> ''filled'' | PartiallyFilled \<Rightarrow> ''partial''
     | Cancelled \<Rightarrow> ''cancelled'' | Rejected \<Rightarrow> ''rejected'')"

definition json_submit :: "SubmitResult \<Rightarrow> string" where
  \<open>json_submit r = snprintf 256
     (''{"order_id":'' @ word_string (sr_order_id r) @ '',"sequence":'' @ word_string (sr_sequence r) @
      '',"status":"'' @ json_status (sr_status r) @ ''","instrument":'' @ word_string (sr_instrument_id r) @
      '',"filled":'' @ int_string (qty (filled_quantity r)) @ '',"resting":'' @ int_string (qty (resting_quantity r)) @
      '',"price_ticks":'' @ int_string (ticks (sr_price r)) @ '',"reject_reason":"'' @ escape (reject_reason r) @ ''"}'')\<close>

section \<open>Reading a JSON string\<close>

definition hex_value :: "char \<Rightarrow> nat option" where
  "hex_value c = (let n = of_char c :: nat
     in if 48 \<le> n \<and> n \<le> 57 then Some (n - 48) else if 97 \<le> n \<and> n \<le> 102 then Some (n - 87) else None)"

text \<open>The character an escape stands for, and what follows it.\<close>

definition unescape_one :: "string \<Rightarrow> (char \<times> string) option" where
  "unescape_one s = (case s of
       [] \<Rightarrow> None
     | c # r \<Rightarrow>
         (if c = CHR 0x22 \<or> c = CHR 0x5C then Some (c, r)
          else if c = CHR ''n'' then Some (CHR 0x0A, r)
          else if c = CHR ''r'' then Some (CHR 0x0D, r)
          else if c = CHR ''t'' then Some (CHR 0x09, r)
          else if c = CHR ''u'' \<and> 4 \<le> length r
          then do { a \<leftarrow> hex_value (r ! 0); b \<leftarrow> hex_value (r ! 1); d \<leftarrow> hex_value (r ! 2); e \<leftarrow> hex_value (r ! 3);
                    let n = a * 4096 + b * 256 + d * 16 + e;
                    if n < 256 then Some (char_of n, drop 4 r) else None }
          else None))"

lemma unescape_one_length: "unescape_one s = Some (c, r) \<Longrightarrow> length r < length s"
  by (auto simp: unescape_one_def Let_def split: list.splits if_splits bind_splits Option.bind_splits)

function unescape :: "string \<Rightarrow> string option" where
  "unescape [] = Some []"
| "unescape (c # s) =
     (if c = CHR 0x5C
      then (case unescape_one s of None \<Rightarrow> None | Some (d, r) \<Rightarrow> map_option (Cons d) (unescape r))
      else if c = CHR 0x22 \<or> (of_char c :: nat) < 32 then None
      else map_option (Cons c) (unescape s))"
  by pat_completeness auto
termination
  by (relation "measure length") (auto dest: unescape_one_length)

text \<open>The characters that open and close an object.\<close>

definition brace :: "char \<Rightarrow> bool" where "brace c \<longleftrightarrow> c = CHR ''{'' \<or> c = CHR ''}''"

section \<open>Properties\<close>

lemma hex_value_digit [simp]: "d < 16 \<Longrightarrow> hex_value (hex_digit d) = Some d"
  by (auto simp: hex_value_def hex_digit_def Let_def)

lemma unescape_hex4:
  assumes "n < 256"
  shows "unescape_one (CHR ''u'' # hex4 n @ t) = Some (char_of n, t)"
proof -
  have "n div 4096 mod 16 = 0" "n div 256 mod 16 = 0" "n div 16 mod 16 = n div 16" using assms by simp_all
  moreover have "n div 16 * 16 + n mod 16 = n" by simp
  ultimately show ?thesis using assms by (simp add: unescape_one_def hex4_def)
qed

lemma unescape_escape_char: "unescape (escape_char c @ t) = map_option (Cons c) (unescape t)"
proof (cases "(of_char c :: nat) < 32 \<and> c \<notin> {CHR 0x0A, CHR 0x0D, CHR 0x09}")
  case True
  then have "escape_char c = [CHR 0x5C, CHR ''u''] @ hex4 (of_char c)"
    by (auto simp: escape_char_def snprintf_def hex4_def)
  with unescape_hex4 [of "of_char c" t] True show ?thesis by simp
qed (auto simp: escape_char_def unescape_one_def)

text \<open>
  Escaping loses nothing and is safe: an escaped text reads back as a JSON string to the text
  itself, whatever characters it has; in particular it has no quote that ends the string early.
\<close>

theorem escape_roundtrip: "unescape (escape s) = Some s"
  by (induction s) (simp_all add: escape_def unescape_escape_char)

lemma pad_int_no_brace: "c \<in> set (pad_int w x) \<Longrightarrow> \<not> brace c"
  using nat_string_digits [of c "nat x"] nat_string_digits [of c "nat (- x)"]
  by (auto simp: pad_int_def pad_def brace_def split: if_splits)

lemma timestamp_no_brace: "c \<in> set (timestamp_iso8601 tm micros) \<Longrightarrow> \<not> brace c"
  unfolding timestamp_iso8601_def snprintf_def
  by (drule in_set_takeD) (auto dest: pad_int_no_brace simp: brace_def)

lemma hex_digit_no_brace: "d < 16 \<Longrightarrow> \<not> brace (hex_digit d)"
  using hex_value_digit [of d] by (auto simp: brace_def hex_value_def)

lemma escape_char_no_brace: "\<not> brace c \<Longrightarrow> d \<in> set (escape_char c) \<Longrightarrow> \<not> brace d"
  using hex_digit_no_brace unfolding escape_char_def snprintf_def hex4_def
  by (auto split: if_splits simp: brace_def)

lemma escape_no_brace: "\<forall>c \<in> set s. \<not> brace c \<Longrightarrow> d \<in> set (escape s) \<Longrightarrow> \<not> brace d"
  by (auto simp: escape_def dest: escape_char_no_brace)

lemma level_no_brace: "c \<in> set (level_name l) \<Longrightarrow> \<not> brace c"
  by (cases l) (auto simp: level_name_def brace_def)

lemma header_braces:
  assumes "\<forall>c \<in> set event. \<not> brace c"
  shows "count_list (log_header_text (timestamp_iso8601 tm micros) level event) (CHR ''{'') = 1"
    and "count_list (log_header_text (timestamp_iso8601 tm micros) level event) (CHR ''}'') = 0"
proof -
  have "count_list (timestamp_iso8601 tm micros) b = 0" "count_list (level_name level) b = 0" "count_list (escape event) b = 0"
    if "brace b" for b
    using that timestamp_no_brace level_no_brace escape_no_brace [OF assms] by (auto intro!: count_notin)
  then show "count_list (log_header_text (timestamp_iso8601 tm micros) level event) (CHR ''{'') = 1"
    and "count_list (log_header_text (timestamp_iso8601 tm micros) level event) (CHR ''}'') = 0"
    by (simp_all add: log_header_text_def brace_def)
qed

text \<open>
  What the logger writes for a record is not a JSON object. For a key-value argument that is an
  object itself (as the default is), the record opens one brace more than it closes, since only the
  closing brace of the argument is removed; and each record is followed by two newlines.
\<close>

theorem log_record_unbalanced:
  assumes "sl_open l" "\<forall>c \<in> set event. \<not> brace c"
    "length (log_header_text (timestamp_iso8601 tm micros) level event) < 160"
    and kv: "kv = body @ ''}''" "count_list kv (CHR ''{'') = count_list kv (CHR ''}'')"
  shows "\<exists>entry. sl_written (logger_log tm micros level event kv l) = sl_written l @ entry @ newline @ newline \<and>
    count_list entry (CHR ''{'') = count_list entry (CHR ''}'') + 1"
proof -
  let ?entry = "log_header_text (timestamp_iso8601 tm micros) level event @ body @ ''}''"
  have "count_list ?entry (CHR ''{'') = count_list ?entry (CHR ''}'') + 1"
    using kv header_braces [OF assms(2), of tm micros level] by simp
  moreover have "sl_written (logger_log tm micros level event kv l) = sl_written l @ ?entry @ newline @ newline"
    using assms(1,3) kv(1) by (simp add: logger_log_def Let_def write_line_def trim_brace_def snprintf_fits)
  ultimately show ?thesis by blast
qed

theorem log_record_unbalanced_witness:
  "\<exists>entry. sl_written (logger_log \<lparr>tm_year = 124, tm_mon = 0, tm_mday = 2, tm_hour = 3, tm_min = 4, tm_sec = 5\<rparr> 6 Info
      ''start'' ''{}'' (StructuredLogger_open ''-'' True)) = entry @ newline @ newline \<and>
    count_list entry (CHR ''{'') = count_list entry (CHR ''}'') + 1"
proof -
  let ?tm = "\<lparr>tm_year = 124, tm_mon = 0, tm_mday = 2, tm_hour = 3, tm_min = 4, tm_sec = 5\<rparr>"
  have "length (log_header_text (timestamp_iso8601 ?tm 6) Info ''start'') < 160" by code_simp
  with log_record_unbalanced [of "StructuredLogger_open ''-'' True" "''start''" ?tm 6 Info "''{}''" "''{''"] show ?thesis
    by (simp add: StructuredLogger_open_def brace_def)
qed

end
