(* ===== verification/Simulator.thy ===== *)
theory Simulator
  imports Event_Log Ws_Gateway Engine_Properties
begin

text \<open>
  The simulator (\<^verbatim>\<open>examples/simulator.cpp\<close>): its command line, the registration of instruments, the
  scripted and the random mode, and the sink that prints, counts and hands on to the event log. The
  random numbers are parameters, one draw of each distribution per order; the file system answers with
  the contents of the script and with whether the log could be opened. The servers that may run
  afterwards are those of Gateway and Ws_Gateway.
\<close>

section \<open>The sink\<close>

record StdoutTradeSink =
  ss_quiet :: bool
  ss_downstream :: "EventLog option"
  ss_trade_count :: nat
  ss_submit_count :: nat
  ss_out :: "string list"

definition new_StdoutTradeSink :: "bool \<Rightarrow> EventLog option \<Rightarrow> StdoutTradeSink" where
  "new_StdoutTradeSink quiet lg =
     \<lparr>ss_quiet = quiet, ss_downstream = lg, ss_trade_count = 0, ss_submit_count = 0, ss_out = []\<rparr>"

definition stdout_line :: "string \<Rightarrow> StdoutTradeSink \<Rightarrow> StdoutTradeSink" where
  "stdout_line s k = k\<lparr>ss_out := ss_out k @ [s @ newline]\<rparr>"

definition sim_trade_line :: "Trade \<Rightarrow> string" where
  "sim_trade_line t = ''TRADE inst='' @ word_string (t_instrument_id t) @ '' buy='' @ word_string (buy_order_id t) @
     '' sell='' @ word_string (sell_order_id t) @ '' px='' @ int_string (ticks (t_price t)) @
     '' qty='' @ int_string (qty (t_quantity t)) @ '' seq='' @ word_string (t_sequence t)"

definition sim_result_line :: "SubmitResult \<Rightarrow> string" where
  \<open>sim_result_line r = ''OK '' @ status_word (sr_status r) @ '' inst='' @ word_string (sr_instrument_id r) @
     '' id='' @ word_string (sr_order_id r) @ '' seq='' @ word_string (sr_sequence r) @
     (if sr_status r = Rejected then '' reason="'' @ c_str (reject_reason r) @ ''"'' else '''')\<close>

fun StdoutTradeSink_on :: "SinkEvent \<Rightarrow> StdoutTradeSink \<Rightarrow> StdoutTradeSink" where
  "StdoutTradeSink_on (OnTrade t) k =
     (let k1 = k\<lparr>ss_trade_count := ss_trade_count k + 1\<rparr>;
          k2 = (if ss_quiet k then k1 else stdout_line (sim_trade_line t) k1)
      in k2\<lparr>ss_downstream := map_option (PersistingSink_on (OnTrade t)) (ss_downstream k2)\<rparr>)"
| "StdoutTradeSink_on (OnSubmitResult r) k =
     (let k1 = k\<lparr>ss_submit_count := ss_submit_count k + 1\<rparr>;
          k2 = (if ss_quiet k then k1 else stdout_line (sim_result_line r) k1)
      in k2\<lparr>ss_downstream := map_option (PersistingSink_on (OnSubmitResult r)) (ss_downstream k2)\<rparr>)"

section \<open>Orders\<close>

text \<open>
  The state of a run: engine, sink, standard error, the number of engine calls made, and what the
  engine has told the sink so far.
\<close>

record Sim =
  sim_engine :: Engine
  sim_sink :: StdoutTradeSink
  sim_err :: "string list"
  sim_calls :: nat
  sim_told :: "SinkEvent list"

record SimWorld =
  w_env :: "nat \<Rightarrow> Env"
  w_nows :: "nat \<Rightarrow> nat \<Rightarrow> int"
  w_stamp :: "nat \<Rightarrow> Timestamp"

definition sim_submit ::
    "SimWorld \<Rightarrow> InstrumentId \<Rightarrow> TraderId \<Rightarrow> Side \<Rightarrow> Price \<Rightarrow> Quantity \<Rightarrow> TimeInForce \<Rightarrow> Sim \<Rightarrow> Sim option" where
  "sim_submit w i trader side price q tif s =
     do { (e', trace) \<leftarrow> submit_limit (w_env w (sim_calls s)) (w_nows w (sim_calls s)) (w_stamp w (sim_calls s))
            i trader side price q tif (sim_engine s);
          Some (s\<lparr>sim_engine := e', sim_sink := fold StdoutTradeSink_on (map fst trace) (sim_sink s),
                  sim_calls := sim_calls s + 1, sim_told := sim_told s @ map fst trace\<rparr>) }"

definition say_err :: "string \<Rightarrow> Sim \<Rightarrow> Sim" where
  "say_err m s = s\<lparr>sim_err := sim_err s @ [m @ newline]\<rparr>"

definition say_out :: "string \<Rightarrow> Sim \<Rightarrow> Sim" where
  "say_out m s = s\<lparr>sim_sink := stdout_line m (sim_sink s)\<rparr>"

section \<open>Scripted mode\<close>

text \<open>\<^verbatim>\<open>std::getline\<close> over a whole file: a last line without a newline counts unless it is empty.\<close>

function getlines :: "string \<Rightarrow> string list" where
  "getlines s = (if s = [] then [] else first_line s # getlines (after_line s))"
  by pat_completeness auto
termination
proof (relation "measure length")
  fix s :: string assume "s \<noteq> []"
  then have "0 < length s" by simp
  then have "length (after_line s) < length s"
    using length_dropWhile_le [of "\<lambda>c. c \<noteq> CHR 0x0A" s] unfolding after_line_def length_tl by linarith
  then show "(after_line s, s) \<in> measure length" by simp
qed simp

declare getlines.simps [simp del]

definition script_line :: "string \<Rightarrow> string" where
  "script_line line = (if line \<noteq> [] \<and> last line = CHR 0x0D then butlast line else line)"

definition at_line :: "nat \<Rightarrow> string \<Rightarrow> string" where
  "at_line n m = ''line '' @ nat_string n @ '': '' @ m"

definition sim_quote :: "nat \<Rightarrow> InstrumentId \<Rightarrow> Sim \<Rightarrow> Sim option" where
  "sim_quote n i s =
     (case book i (sim_engine s) of
        None \<Rightarrow> Some (say_err (at_line n (''instrument '' @ word_string i @ '' not registered'')) s)
      | Some ob \<Rightarrow>
          do { b \<leftarrow> top_bid ob;
               a \<leftarrow> top_ask ob;
               Some (say_out (''QUOTE inst='' @ word_string i @
                 '' bid='' @ int_string (if tob_valid b then ticks (tob_price b) else - 1) @
                 '' bid_qty='' @ int_string (if tob_valid b then qty (tob_quantity b) else 0) @
                 '' ask='' @ int_string (if tob_valid a then ticks (tob_price a) else - 1) @
                 '' ask_qty='' @ int_string (if tob_valid a then qty (tob_quantity a) else 0)) s) })"

definition script_command :: "SimWorld \<Rightarrow> nat \<Rightarrow> ParsedRequest \<Rightarrow> Sim \<Rightarrow> Sim option" where
  "script_command w n req s =
     (case rq_command req of
        Ping \<Rightarrow> Some (say_out ''PONG'' s)
      | Quote \<Rightarrow> sim_quote n (rq_instrument req) s
      | New \<Rightarrow> sim_submit w (rq_instrument req) (rq_trader_id req) (rq_side req) (rq_price req) (rq_qty req) (rq_tif req) s
      | Cancel \<Rightarrow>
          do { (ok, e') \<leftarrow> engine_cancel (rq_instrument req) (rq_order_id req) (sim_engine s);
               let s1 = s\<lparr>sim_engine := e', sim_calls := sim_calls s + 1\<rparr>;
               Some (if \<not> ok then say_err (at_line n (''cancel id='' @ word_string (rq_order_id req) @ '' failed'')) s1 else s1) }
      | Modify \<Rightarrow>
          do { (r, e') \<leftarrow> engine_modify (rq_instrument req) (rq_order_id req) (rq_qty req) (rq_price req) (sim_engine s);
               let s1 = s\<lparr>sim_engine := e', sim_calls := sim_calls s + 1\<rparr>;
               Some (if r = NotFound then say_err (at_line n (''modify id='' @ word_string (rq_order_id req) @ '' not found'')) s1 else s1) }
      | Unknown \<Rightarrow> Some (say_err (at_line n ''unknown command'') s))"

definition script_step :: "SimWorld \<Rightarrow> nat \<times> string \<Rightarrow> Sim \<Rightarrow> Sim option" where
  "script_step w = (\<lambda>(n, raw) s.
     let line = script_line raw
     in if line = [] \<or> hd line = CHR ''#'' then Some s
        else do { (err, req) \<leftarrow> parse_request line ParsedRequest_init;
                  if \<not> parse_ok err then Some (say_err (at_line n (''parse error: '' @ c_str (parse_message err))) s)
                  else script_command w n req s })"

text \<open>\<open>run_script\<close> with the contents of the file, if it could be opened: the answer and the state.\<close>

definition run_script :: "SimWorld \<Rightarrow> string \<Rightarrow> string option \<Rightarrow> Sim \<Rightarrow> (bool \<times> Sim) option" where
  "run_script w path file s =
     (case file of
        None \<Rightarrow> Some (False, say_err (''failed to open script file: '' @ c_str path) s)
      | Some contents \<Rightarrow>
          (let lines = getlines contents
           in map_option (Pair True) (run_steps (script_step w) (zip [1..<length lines + 1] lines) s)))"

section \<open>Random mode\<close>

record RandomConfig =
  cfg_instruments :: int
  cfg_seed :: "64 word"
  cfg_orders :: int

definition RandomConfig_init :: RandomConfig where
  "RandomConfig_init = \<lparr>cfg_instruments = 4, cfg_seed = 42, cfg_orders = 0\<rparr>"

text \<open>The draws for the order \<open>n\<close>, as the generator seeded with \<open>seed\<close> and the distributions give them.\<close>

record Draws =
  side_draw :: "64 word \<Rightarrow> nat \<Rightarrow> int"
  price_draw :: "64 word \<Rightarrow> nat \<Rightarrow> int"
  qty_draw :: "64 word \<Rightarrow> nat \<Rightarrow> int"
  trader_draw :: "64 word \<Rightarrow> nat \<Rightarrow> 64 word"

definition random_step :: "SimWorld \<Rightarrow> Draws \<Rightarrow> RandomConfig \<Rightarrow> nat \<Rightarrow> Sim \<Rightarrow> Sim option" where
  "random_step w d cfg n =
     (let M = max 1 (cfg_instruments cfg); seed = cfg_seed cfg
      in sim_submit w (word_of_int (int n mod M + 1)) (trader_draw d seed n mod 100 + 1)
           (if side_draw d seed n = 0 then Buy else Sell) (Price (price_draw d seed n * 100))
           (Quantity (qty_draw d seed n)) GTC)"

definition run_random :: "SimWorld \<Rightarrow> Draws \<Rightarrow> RandomConfig \<Rightarrow> Sim \<Rightarrow> Sim option" where
  "run_random w d cfg s = run_steps (random_step w d cfg) [0..<nat (max 0 (cfg_orders cfg))] s"

section \<open>The command line\<close>

record Options =
  opt_script :: string
  opt_log :: string
  opt_random :: bool
  opt_quiet :: bool
  opt_port :: int
  opt_ws_port :: int
  opt_cfg :: RandomConfig

definition Options_init :: Options where
  "Options_init = \<lparr>opt_script = '''', opt_log = '''', opt_random = False, opt_quiet = False,
     opt_port = 0, opt_ws_port = 0, opt_cfg = RandomConfig_init\<rparr>"

text \<open>\<^verbatim>\<open>std::atoi\<close>, and \<^verbatim>\<open>std::stoull\<close>, which throws (\<open>None\<close>) without digits or out of range.\<close>

definition atoi :: "string \<Rightarrow> int" where
  "atoi s = to_int32 (word_of_int (case strtoll s of None \<Rightarrow> 0 | Some v \<Rightarrow> v))"

definition stoull :: "string \<Rightarrow> 64 word option" where
  "stoull s =
     (let s1 = dropWhile isspace s;
          neg = (s1 \<noteq> [] \<and> hd s1 = CHR ''-'');
          s2 = (if s1 \<noteq> [] \<and> (hd s1 = CHR ''-'' \<or> hd s1 = CHR ''+'') then tl s1 else s1);
          ds = takeWhile (\<lambda>c. digit_value c \<noteq> None) s2
      in if ds = [] \<or> 2 ^ 64 \<le> decimal ds then None
         else Some (if neg then - of_nat (decimal ds) else of_nat (decimal ds)))"

text \<open>The options, an exit with a status, or the end of the program by an exception nobody catches.\<close>

datatype ArgResult = Ready Options | ExitWith int "string list" | Terminated

text \<open>What a finished program has written to standard error is a list of texts.\<close>

definition print_usage :: "string \<Rightarrow> string" where
  "print_usage prog = concat (map (\<lambda>line. line @ newline)
     [''Usage: '' @ prog @ '' [--script FILE] [--random N] [--instruments M]'',
      ''          [--seed S] [--log FILE] [--port P] [--quiet]'',
      '''',
      ''  --script FILE    Read commands (NEW/CANCEL/MODIFY/QUOTE/PING) from FILE.'',
      ''  --random N       Generate N synthetic orders.'',
      ''  --instruments M  Number of instruments (random mode). Default: 4.'',
      ''  --seed S         PRNG seed (random mode). Default: 42.'',
      ''  --log FILE       Persist events to this event log.'',
      ''  --port P         Also start TCP gateway on port P after sim completes.'',
      ''  --ws-port P      Also start WebSocket market-data server on port P.'',
      ''  --quiet          Don'' @ [CHR 0x27] @ ''t print per-event lines; only summary.''])"

definition flag_value :: "string \<Rightarrow> string \<Rightarrow> Options \<Rightarrow> Options option" where
  "flag_value flag v o1 =
     (if flag = ''--script'' then Some (o1\<lparr>opt_script := v\<rparr>)
      else if flag = ''--random'' then Some (o1\<lparr>opt_random := True, opt_cfg := (opt_cfg o1)\<lparr>cfg_orders := atoi v\<rparr>\<rparr>)
      else if flag = ''--instruments'' then Some (o1\<lparr>opt_cfg := (opt_cfg o1)\<lparr>cfg_instruments := atoi v\<rparr>\<rparr>)
      else if flag = ''--seed'' then map_option (\<lambda>x. o1\<lparr>opt_cfg := (opt_cfg o1)\<lparr>cfg_seed := x\<rparr>\<rparr>) (stoull v)
      else if flag = ''--log'' then Some (o1\<lparr>opt_log := v\<rparr>)
      else if flag = ''--port'' then Some (o1\<lparr>opt_port := atoi v\<rparr>)
      else Some (o1\<lparr>opt_ws_port := atoi v\<rparr>))"

definition valued_flags :: "string list" where
  "valued_flags = [''--script'', ''--random'', ''--instruments'', ''--seed'', ''--log'', ''--port'', ''--ws-port'']"

definition missing_value :: "string \<Rightarrow> ArgResult" where
  "missing_value flag = ExitWith 2 [''missing value for '' @ flag @ newline]"

definition unknown_flag :: "string \<Rightarrow> string \<Rightarrow> ArgResult" where
  "unknown_flag prog a = ExitWith 2 [''unknown flag: '' @ a @ newline, print_usage prog]"

fun parse_args :: "string \<Rightarrow> string list \<Rightarrow> Options \<Rightarrow> ArgResult" where
  "parse_args prog [] o1 = Ready o1"
| "parse_args prog (a # as) o1 =
     (if a \<in> set valued_flags
      then (case as of
              [] \<Rightarrow> missing_value a
            | v # rest \<Rightarrow> (case flag_value a v o1 of None \<Rightarrow> Terminated | Some o2 \<Rightarrow> parse_args prog rest o2))
      else if a = ''--quiet'' then parse_args prog as (o1\<lparr>opt_quiet := True\<rparr>)
      else if a = ''--help'' \<or> a = ''-h'' then ExitWith 0 [print_usage prog]
      else unknown_flag prog a)"

section \<open>The program\<close>

definition sim_instrument :: "nat \<Rightarrow> InstrumentDescriptor" where
  "sim_instrument n =
     InstrumentDescriptor_init\<lparr>d_id := of_nat n, symbol := ''INST'' @ nat_string n, display_name := ''INST'' @ nat_string n,
       tick_size := Price 1, lot_size := Quantity 1, enabled := True\<rparr>"

text \<open>
  The loop that registers the instruments counts in a 32-bit \<^verbatim>\<open>int\<close>, which does not pass its last value:
  the model is that of a number of instruments below \<open>2 ^ 31 - 1\<close>.
\<close>

definition sim_market :: "RandomConfig \<Rightarrow> Engine" where
  "sim_market cfg = fold (\<lambda>n. register_instrument (sim_instrument n)) [1..<nat (max 1 (cfg_instruments cfg)) + 1] new_Engine"

definition sim_start :: "bool \<Rightarrow> byte list option \<Rightarrow> Options \<Rightarrow> Sim" where
  "sim_start fopen_ok old o1 =
     \<lparr>sim_engine = sim_market (opt_cfg o1),
      sim_sink = new_StdoutTradeSink (opt_quiet o1)
        (if opt_log o1 = '''' then None else Some (EventLog_open fopen_ok False old)),
      sim_err = [], sim_calls = 0, sim_told = []\<rparr>"

definition close_log :: "Sim \<Rightarrow> Sim" where
  "close_log s = s\<lparr>sim_sink := (sim_sink s)\<lparr>ss_downstream := map_option EventLog_close (ss_downstream (sim_sink s))\<rparr>\<rparr>"

text \<open>The simulation itself, up to the closing of the log: the exit status and the state.\<close>

definition simulate ::
    "SimWorld \<Rightarrow> Draws \<Rightarrow> string option \<Rightarrow> bool \<Rightarrow> byte list option \<Rightarrow> Options \<Rightarrow> (int \<times> Sim) option" where
  "simulate w d script fopen_ok old o1 =
     (let s = sim_start fopen_ok old o1
      in if opt_random o1 then map_option (\<lambda>s. (0, close_log s)) (run_random w d (opt_cfg o1) s)
         else do { (ok, s') \<leftarrow> run_script w (opt_script o1) script s;
                   Some (if ok then (0, close_log s') else (1, s')) })"

text \<open>
  \<^verbatim>\<open>printf\<close> of a non-negative double with \<open>k\<close> decimals, and \<^verbatim>\<open>std::chrono::duration<double>\<close> of a number of nanoseconds.
\<close>

definition fixed_string :: "nat \<Rightarrow> rat \<Rightarrow> string" where
  "fixed_string k x =
     (let n = nat (round_half_even (x * 10 ^ k)); frac = nat_string (n mod 10 ^ k)
      in nat_string (n div 10 ^ k) @ (if k = 0 then [] else ''.'' @ replicate (k - length frac) CHR ''0'' @ frac))"

definition elapsed_seconds :: "nat \<Rightarrow> rat" where
  "elapsed_seconds ns = double (double (of_nat ns) / 10 ^ 9)"

text \<open>The summary of a run that took \<open>ns\<close> nanoseconds of the steady clock.\<close>

definition summary :: "nat \<Rightarrow> Options \<Rightarrow> Sim \<Rightarrow> string list" where
  "summary ns o1 s =
     [newline @ ''=== Summary ==='' @ newline,
      ''submits      = '' @ nat_string (ss_submit_count (sim_sink s)) @ newline,
      ''trades       = '' @ nat_string (ss_trade_count (sim_sink s)) @ newline,
      ''instruments  = '' @ int_string (max 1 (cfg_instruments (opt_cfg o1))) @ newline,
      ''next_seq     = '' @ word_string (next_sequence (sim_engine s)) @ newline,
      ''elapsed      = '' @ fixed_string 3 (elapsed_seconds ns) @ '' s'' @ newline] @
     (if 0 < elapsed_seconds ns \<and> 0 < cfg_orders (opt_cfg o1)
      then [''throughput   = '' @ fixed_string 0 (double (of_int (cfg_orders (opt_cfg o1)) / elapsed_seconds ns)) @ '' orders/s'' @ newline]
      else []) @
     (if opt_log o1 \<noteq> '''' then [''event log    = '' @ c_str (opt_log o1) @ newline] else [])"

datatype SimEnd = ExitCode int "string list" | Aborted | Simulated int Sim "string list" | UndefinedBehaviour

definition sim_main ::
    "SimWorld \<Rightarrow> Draws \<Rightarrow> (string \<Rightarrow> string option) \<Rightarrow> bool \<Rightarrow> byte list option \<Rightarrow> nat \<Rightarrow> string \<Rightarrow> string list \<Rightarrow> SimEnd" where
  "sim_main w d files fopen_ok old ns prog args =
     (case parse_args prog args Options_init of
        ExitWith code err \<Rightarrow> ExitCode code err
      | Terminated \<Rightarrow> Aborted
      | Ready o1 \<Rightarrow>
          if \<not> opt_random o1 \<and> opt_script o1 = '''' then ExitCode 2 [print_usage prog]
          else case simulate w d (files (opt_script o1)) fopen_ok old o1 of
                 None \<Rightarrow> UndefinedBehaviour
               | Some (code, s) \<Rightarrow> Simulated code s (if code = 0 then summary ns o1 s else []))"

section \<open>What is counted and logged\<close>

fun event_record :: "SinkEvent \<Rightarrow> PersistedEvent" where
  "event_record (OnTrade t) = trade_record t"
| "event_record (OnSubmitResult r) = result_record r"

definition trades_in :: "SinkEvent list \<Rightarrow> nat" where
  "trades_in evs = length (filter (\<lambda>ev. case ev of OnTrade _ \<Rightarrow> True | OnSubmitResult _ \<Rightarrow> False) evs)"

definition results_in :: "SinkEvent list \<Rightarrow> nat" where
  "results_in evs = length (filter (\<lambda>ev. case ev of OnTrade _ \<Rightarrow> False | OnSubmitResult _ \<Rightarrow> True) evs)"

definition accounts :: "EventLog option \<Rightarrow> Sim \<Rightarrow> bool" where
  "accounts d s \<longleftrightarrow> ss_trade_count (sim_sink s) = trades_in (sim_told s) \<and> ss_submit_count (sim_sink s) = results_in (sim_told s) \<and>
     ss_downstream (sim_sink s) = map_option (append_all (map event_record (sim_told s))) d"

definition draws_ok :: "Draws \<Rightarrow> bool" where
  "draws_ok d \<longleftrightarrow> (\<forall>seed n. price_draw d seed n \<in> {95..105} \<and> qty_draw d seed n \<in> {1..50} \<and> side_draw d seed n \<in> {0, 1})"

definition open_market :: "RandomConfig \<Rightarrow> Engine \<Rightarrow> bool" where
  "open_market cfg e \<longleftrightarrow> engine_ok e \<and> risk_gate e = None \<and>
     (\<forall>n. 1 \<le> n \<longrightarrow> n \<le> nat (max 1 (cfg_instruments cfg)) \<longrightarrow> books e (of_nat n) \<noteq> None)"

definition random_inv :: "RandomConfig \<Rightarrow> Sim \<Rightarrow> bool" where
  "random_inv cfg s \<longleftrightarrow> open_market cfg (sim_engine s) \<and>
     next_sequence (sim_engine s) = 1 + of_nat (results_in (sim_told s) + trades_in (sim_told s))"

definition sample_world :: SimWorld where
  "sample_world = \<lparr>w_env = \<lambda>_. demo_env, w_nows = \<lambda>_ _. 1, w_stamp = \<lambda>_. 0\<rparr>"

definition sample_draws :: Draws where
  "sample_draws = \<lparr>side_draw = \<lambda>_ n. int n mod 2, price_draw = \<lambda>_ _. 100, qty_draw = \<lambda>_ _. 10, trader_draw = \<lambda>_ _. 5\<rparr>"

definition sample_options :: Options where
  "sample_options = Options_init\<lparr>opt_script := ''orders.txt'', opt_log := ''run.bin'', opt_quiet := True,
     opt_cfg := RandomConfig_init\<lparr>cfg_instruments := 1, cfg_orders := 3\<rparr>\<rparr>"

definition sample_script :: string where
  "sample_script = ''NEW 9 7 0 100 20 GTC''"

section \<open>Lemmas\<close>

lemma run_steps_preserves:
  assumes "\<And>c s s'. P s \<Longrightarrow> step c s = Some s' \<Longrightarrow> P s'"
  shows "P s \<Longrightarrow> run_steps step cs s = Some s' \<Longrightarrow> P s'"
  by (induction cs arbitrary: s) (auto split: option.splits dest: assms)

lemma in_append [simp]: "trades_in (a @ b) = trades_in a + trades_in b" "results_in (a @ b) = results_in a + results_in b"
  by (simp_all add: trades_in_def results_in_def)

lemma in_submission: "map fst trace = map OnTrade ts @ [OnSubmitResult r] \<Longrightarrow> trades_in (map fst trace) = length ts \<and> results_in (map fst trace) = 1"
  by (simp add: trades_in_def results_in_def filter_map comp_def)

lemma stdout_line_fields [simp]:
  "ss_trade_count (stdout_line m k) = ss_trade_count k" "ss_submit_count (stdout_line m k) = ss_submit_count k"
  "ss_downstream (stdout_line m k) = ss_downstream k" "ss_quiet (stdout_line m k) = ss_quiet k"
  by (simp_all add: stdout_line_def)

lemma sink_step:
  "ss_trade_count (StdoutTradeSink_on ev k) = ss_trade_count k + trades_in [ev]"
  "ss_submit_count (StdoutTradeSink_on ev k) = ss_submit_count k + results_in [ev]"
  "ss_downstream (StdoutTradeSink_on ev k) = map_option (EventLog_append (event_record ev)) (ss_downstream k)"
  by (cases ev; cases "ss_downstream k"; simp add: Let_def trades_in_def results_in_def)+

lemma append_all_simps [simp]:
  "append_all [] l = l" "append_all (x # xs) l = append_all xs (EventLog_append x l)"
  "append_all (xs @ ys) l = append_all ys (append_all xs l)"
  by (simp_all add: append_all_def)

lemma sink_fold:
  "ss_trade_count (fold StdoutTradeSink_on evs k) = ss_trade_count k + trades_in evs"
  "ss_submit_count (fold StdoutTradeSink_on evs k) = ss_submit_count k + results_in evs"
  "ss_downstream (fold StdoutTradeSink_on evs k) = map_option (append_all (map event_record evs)) (ss_downstream k)"
proof (induction evs arbitrary: k)
  case (Cons ev evs)
  { case 1 show ?case using Cons(1) by (simp add: sink_step trades_in_def) }
  { case 2 show ?case using Cons(2) by (simp add: sink_step results_in_def) }
  { case 3 show ?case using Cons(3) by (cases "ss_downstream k") (simp_all add: sink_step) }
qed (simp_all add: trades_in_def results_in_def option.map_ident_strong)

lemma accounts_submit: "accounts d s \<Longrightarrow> sim_submit w i t sd p q tif s = Some s' \<Longrightarrow> accounts d s'"
  by (cases d) (auto simp: accounts_def sim_submit_def sink_fold split: bind_splits Option.bind_splits)

lemma accounts_say [simp]: "accounts d (say_out m s) = accounts d s" "accounts d (say_err m s) = accounts d s"
  "accounts d (s\<lparr>sim_engine := e, sim_calls := n\<rparr>) = accounts d s"
  by (simp_all add: accounts_def say_out_def say_err_def)

lemma accounts_command: "accounts d s \<Longrightarrow> script_command w n req s = Some s' \<Longrightarrow> accounts d s'"
  by (auto simp: script_command_def sim_quote_def Let_def accounts_submit
      split: InboundCommand.splits option.splits bind_splits Option.bind_splits if_splits)

lemma accounts_script: "accounts d s \<Longrightarrow> script_step w c s = Some s' \<Longrightarrow> accounts d s'"
  by (auto simp: script_step_def Let_def accounts_command bind_eq_Some_conv split: prod.splits if_splits)

lemma accounts_random: "accounts d s \<Longrightarrow> random_step w dr cfg n s = Some s' \<Longrightarrow> accounts d s'"
  by (auto simp: random_step_def Let_def accounts_submit)

lemma accounts_runs:
  "accounts d s \<Longrightarrow> run_steps (script_step w) cs s = Some s' \<Longrightarrow> accounts d s'"
  "accounts d s \<Longrightarrow> run_steps (random_step w dr cfg) ns s = Some s' \<Longrightarrow> accounts d s'"
  by (rule run_steps_preserves [where P = "accounts d"]; (assumption | erule (1) accounts_script accounts_random))+

lemma collected:
  assumes "\<forall>(a, en) \<in> set trades. \<exists>t. a = OnTrade t"
  shows "trades_in (map fst (trades @ [(OnSubmitResult r, e)])) = length (cs_trades (collect (trades @ [(OnSubmitResult r, e)])))"
    and "results_in (map fst (trades @ [(OnSubmitResult r, e)])) = 1"
proof -
  have "\<exists>ts. map fst trades = map OnTrade ts" using assms
  proof (induction trades)
    case (Cons x trades)
    then obtain ts t where "map fst trades = map OnTrade ts" "fst x = OnTrade t" by (auto split: prod.splits)
    then have "map fst (x # trades) = map OnTrade (t # ts)" by simp
    then show ?case by blast
  qed simp
  then obtain ts where "map fst trades = map OnTrade ts" ..
  then show "trades_in (map fst (trades @ [(OnSubmitResult r, e)])) = length (cs_trades (collect (trades @ [(OnSubmitResult r, e)])))"
    "results_in (map fst (trades @ [(OnSubmitResult r, e)])) = 1"
    using in_submission [of "trades @ [(OnSubmitResult r, e)]" ts r] collect_submission [of "trades @ [(OnSubmitResult r, e)]" ts r]
    by simp_all
qed

lemma submit_ungated:
  assumes ok: "engine_ok e" and gate: "risk_gate e = None" and v: "valid_submission ord e" and o: "is_open ord"
    "in_i64 (qty (o_remaining ord))" and env: "freed_price_intact env"
  shows "\<exists>e' trace. submit env nows (Some ord) e = Some (e', trace) \<and> engine_ok e' \<and> risk_gate e' = None \<and>
    (\<forall>i. books e i \<noteq> None \<longrightarrow> books e' i \<noteq> None) \<and> results_in (map fst trace) = 1 \<and>
    next_sequence e' = next_sequence e + 1 + of_nat (trades_in (map fst trace))"
proof -
  obtain b where b: "books e (o_instrument_id ord) = Some b" using v by (auto simp: valid_submission_def)
  then have binv: "book_inv b" using ok by (auto simp: engine_ok_def book_ok_def)
  let ?ord = "with_id ord e"
  let ?r = "SubmitResult_init\<lparr>sr_order_id := o_id ?ord, sr_instrument_id := o_instrument_id ?ord\<rparr>"
  have "consult_gate nows ?ord e = (risk_accept, e)" using gate by (simp add: consult_gate_def)
  then have sub: "submit env nows (Some ord) e = accept_submit env ?r ?ord e"
    using submit_valid [OF v, of env nows] by (simp add: Let_def risk_accept_def RiskDecision_ok_def)
  have ord': "books e (o_instrument_id ?ord) = Some b" "is_open ?ord" "in_i64 (qty (o_remaining ?ord))" using b o by simp_all
  from accept_submit_spec [OF binv ord'(1) env ord'(2,3), of ?r] obtain e' trace b' trades r b1 where
    acc: "accept_submit env ?r ?ord e = Some (e', trace)"
    and tr: "length (cs_trades (collect trace)) = length (taker_fills (sequenced ?ord e) b)"
      "trace = trades @ [(OnSubmitResult r, e')]" "callbacks_ok (o_instrument_id ?ord) b b1 e trades"
    and e': "e' = e\<lparr>books := (books e)(o_instrument_id ?ord \<mapsto> b'),
           next_sequence := next_sequence e + 1 + of_nat (length (taker_fills (sequenced ?ord e) b))\<rparr>"
    by (metis CollectingSink.select_convs(1) length_trades_of)
  have "\<forall>(a, en) \<in> set trades. \<exists>t. a = OnTrade t" using tr(3) by (fastforce simp: callbacks_ok_def)
  note cnt = collected [OF this, of r e']
  have "engine_ok e'" using engine.step_ok [of e "SubmitCmd env nows (Some ord)"] ok env o acc sub by auto
  then show ?thesis using sub acc e' cnt tr(1,2) gate by auto
qed

lemma open_market_start: "open_market cfg (sim_market cfg) \<and> next_sequence (sim_market cfg) = 1"
proof -
  let ?reg = "\<lambda>n. register_instrument (sim_instrument n)"
  have "engine_ok (fold ?reg ns e) \<and> risk_gate (fold ?reg ns e) = None \<and> next_sequence (fold ?reg ns e) = next_sequence e \<and>
      (\<forall>i. books e i \<noteq> None \<or> i \<in> of_nat ` set ns \<longrightarrow> books (fold ?reg ns e) i \<noteq> None)"
    if "engine_ok e" "risk_gate e = None" for ns e using that
  proof (induction ns arbitrary: e)
    case (Cons n ns)
    have "engine_ok (?reg n e)" using engine.step_ok [of e "RegisterCmd (sim_instrument n)"] Cons.prems by simp
    moreover have "risk_gate (?reg n e) = None" "next_sequence (?reg n e) = next_sequence e"
      "books e i \<noteq> None \<or> i = of_nat n \<Longrightarrow> books (?reg n e) i \<noteq> None" for i
      using Cons.prems(2) by (auto simp: register_instrument_def register_instrument_id_def sim_instrument_def Let_def)
    ultimately show ?case using Cons.IH [of "?reg n e"] by auto
  qed simp
  note reg = this [of new_Engine "[1..<nat (max 1 (cfg_instruments cfg)) + 1]", folded sim_market_def]
  have "books (sim_market cfg) (of_nat n) \<noteq> None" if "1 \<le> n" "n \<le> nat (max 1 (cfg_instruments cfg))" for n
  proof -
    have "n \<in> set [1..<nat (max 1 (cfg_instruments cfg)) + 1]" using that by auto
    then show ?thesis using reg by (auto simp: new_Engine_def engine_ok_def simp del: upt_Suc set_upt)
  qed
  then show ?thesis using reg by (simp add: open_market_def new_Engine_def engine_ok_def)
qed

lemma word_of_int_nonzero: "1 \<le> x \<Longrightarrow> x < 2 ^ 64 \<Longrightarrow> (word_of_int x :: 64 word) \<noteq> 0"
proof
  assume x: "1 \<le> x" "x < 2 ^ 64" and "(word_of_int x :: 64 word) = 0"
  then have "uint (word_of_int x :: 64 word) = 0" by simp
  then show False using x by (simp add: uint_word_of_int)
qed

lemma random_step_ok:
  assumes inv: "random_inv cfg s" and d: "draws_ok d" and w: "\<forall>n. freed_price_intact (w_env w n)" and M: "cfg_instruments cfg < 2 ^ 31 - 1"
  shows "\<exists>s'. random_step w d cfg n s = Some s' \<and> random_inv cfg s' \<and> results_in (sim_told s') = Suc (results_in (sim_told s))"
proof -
  let ?M = "max 1 (cfg_instruments cfg)" and ?seed = "cfg_seed cfg" and ?k = "sim_calls s"
  let ?i = "word_of_int (int n mod ?M + 1) :: 64 word"
  let ?ord = "Order_init\<lparr>o_id := 0, o_trader_id := trader_draw d ?seed n mod 100 + 1, o_instrument_id := ?i,
    o_side := if side_draw d ?seed n = 0 then Buy else Sell, o_type := Limit, o_tif := GTC, o_price := Price (price_draw d ?seed n * 100),
    o_quantity := Quantity (qty_draw d ?seed n), o_remaining := Quantity (qty_draw d ?seed n), o_timestamp := w_stamp w ?k\<rparr>"
  have m: "0 \<le> int n mod ?M" "int n mod ?M < ?M" by simp_all
  then have i: "?i = of_nat (nat (int n mod ?M + 1))" by simp
  have "?M < 2 ^ 31" using M by simp
  then have "int n mod ?M < 2 ^ 31" using m(2) by (rule less_trans [rotated])
  then have "int n mod ?M + 1 < 2 ^ 64" by simp
  then have i0: "?i \<noteq> 0" using m(1) by (intro word_of_int_nonzero) simp_all
  have "1 \<le> nat (int n mod ?M + 1)" "nat (int n mod ?M + 1) \<le> nat ?M" using m(1) zless_imp_add1_zle [OF m(2)] by (simp_all only: nat_mono)
  then have "books (sim_engine s) ?i \<noteq> None"
    using inv unfolding i random_inv_def open_market_def by blast
  moreover have dr: "price_draw d ?seed n \<in> {95..105}" "qty_draw d ?seed n \<in> {1..50}" using d by (auto simp: draws_ok_def)
  ultimately have v: "valid_submission ?ord (sim_engine s)"
    using i0 by (auto simp: valid_submission_def kInvalidInstrumentId_def Quantity_is_valid_def Price_is_valid_def domain_defs)
  have o: "is_open ?ord" "in_i64 (qty (o_remaining ?ord))"
    using dr by (simp_all add: Order_init_def is_open_def in_i64_def)
  have "engine_ok (sim_engine s)" "risk_gate (sim_engine s) = None" "freed_price_intact (w_env w ?k)"
    using inv w by (simp_all add: random_inv_def open_market_def)
  from submit_ungated [OF this(1,2) v o this(3), of "w_nows w ?k"] show ?thesis using inv
    by (auto simp: random_step_def sim_submit_def submit_limit_def Let_def random_inv_def open_market_def)
qed

lemma random_run:
  assumes "random_inv cfg s" "draws_ok d" "\<forall>n. freed_price_intact (w_env w n)" "cfg_instruments cfg < 2 ^ 31 - 1"
  shows "\<exists>s'. run_steps (random_step w d cfg) ns s = Some s' \<and> random_inv cfg s' \<and>
    results_in (sim_told s') = results_in (sim_told s) + length ns"
  using assms(1)
proof (induction ns arbitrary: s)
  case (Cons n ns)
  from random_step_ok [OF Cons.prems assms(2-4), of n] obtain s1 where
    s1: "random_step w d cfg n s = Some s1" "random_inv cfg s1" "results_in (sim_told s1) = Suc (results_in (sim_told s))" by blast
  from Cons.IH [OF s1(2)] s1 show ?case by auto
qed simp

lemma accounts_start: "accounts (ss_downstream (sim_sink (sim_start ok old o1))) (sim_start ok old o1)"
  by (cases "ss_downstream (sim_sink (sim_start ok old o1))")
    (simp_all add: accounts_def sim_start_def new_StdoutTradeSink_def trades_in_def results_in_def)

lemma simulate_accounts:
  assumes "simulate w d script ok old o1 = Some (0, s)"
  shows "\<exists>s0. s = close_log s0 \<and> accounts (ss_downstream (sim_sink (sim_start ok old o1))) s0"
proof (cases "opt_random o1")
  case True
  then obtain s0 where "run_steps (random_step w d (opt_cfg o1)) [0..<nat (max 0 (cfg_orders (opt_cfg o1)))] (sim_start ok old o1) = Some s0"
    "s = close_log s0" using assms by (auto simp: simulate_def run_random_def Let_def)
  then show ?thesis using accounts_runs(2) [OF accounts_start] by blast
next
  case False
  then obtain s1 where s1: "run_script w (opt_script o1) script (sim_start ok old o1) = Some (True, s1)" "s = close_log s1"
    using assms by (auto simp: simulate_def Let_def split: bind_splits Option.bind_splits if_splits)
  then obtain cs where "run_steps (script_step w) cs (sim_start ok old o1) = Some s1"
    by (auto simp: run_script_def Let_def split: option.splits)
  then show ?thesis using accounts_runs(1) [OF accounts_start] s1(2) by blast
qed

lemma sample_draws_ok: "draws_ok sample_draws"
proof -
  have "int n mod 2 = 0 \<or> int n mod 2 = 1" for n by presburger
  then show ?thesis by (auto simp: sample_draws_def draws_ok_def)
qed

lemma sample_run: "\<exists>s r. simulate sample_world sample_draws (Some sample_script) True None sample_options = Some (0, s) \<and>
    sim_told s = [OnSubmitResult r] \<and> storable (event_record (OnSubmitResult r))"
proof -
  have lines: "getlines sample_script = [sample_script]" by code_simp
  have line: "script_line sample_script = sample_script" "sample_script \<noteq> []" "hd sample_script \<noteq> CHR ''#''" by code_simp+
  have "(case parse_request sample_script ParsedRequest_init of None \<Rightarrow> False | Some (err, req) \<Rightarrow>
         parse_ok err \<and> rq_command req = New \<and> rq_instrument req = 9 \<and> rq_price req = Price 100 \<and> rq_qty req = Quantity 20)" by code_simp
  then obtain err req where req: "parse_request sample_script ParsedRequest_init = Some (err, req)" and
    f: "parse_ok err" "rq_command req = New" "rq_instrument req = 9" "rq_price req = Price 100" "rq_qty req = Quantity 20"
    by (auto split: option.splits)
  have "books (sim_market (opt_cfg sample_options)) 9 = None"
    by (simp add: sim_market_def sample_options_def register_instrument_def register_instrument_id_def sim_instrument_def new_Engine_def Let_def)
  then obtain r where sub: "submit_limit env nows stamp 9 (rq_trader_id req) (rq_side req) (Price 100) (Quantity 20) (rq_tif req)
      (sim_market (opt_cfg sample_options)) = Some (sim_market (opt_cfg sample_options), [(OnSubmitResult r, sim_market (opt_cfg sample_options))])"
    and r: "storable (result_record r)" for env nows stamp
    by (simp add: submit_limit_def submit_def reject_def book_def Order_init_def domain_defs Let_def)
      (simp add: result_record_def storable_def PersistedEvent_init_def SubmitResult_init_def OrderPayload_init_def Trade_init_def in_i64_def)
  have opts: "\<not> opt_random sample_options" by (simp add: sample_options_def Options_init_def)
  have "\<exists>s. script_step sample_world (1, sample_script) (sim_start True None sample_options) = Some s \<and> sim_told s = [OnSubmitResult r]"
    using line req f sub by (simp add: script_step_def script_command_def sim_submit_def sim_start_def)
  then have "\<exists>s. simulate sample_world sample_draws (Some sample_script) True None sample_options = Some (0, s) \<and> sim_told s = [OnSubmitResult r]"
    using lines opts by (auto simp: simulate_def run_script_def close_log_def)
  with r show ?thesis by auto
qed

section \<open>Texts and exit statuses\<close>

lemma decimal_append: "decimal (ds @ es) = decimal ds * 10 ^ length es + decimal es"
proof (induction es rule: rev_induct)
  case (snoc c es)
  then show ?case by (simp add: decimal_snoc decimal_def algebra_simps flip: append_assoc)
qed (simp add: decimal_def)

lemma decimal_zeros: "decimal (replicate n CHR ''0'') = 0"
  by (induction n) (auto simp: decimal_snoc decimal_def replicate_append_same [symmetric] simp del: replicate_append_same)

text \<open>The digits, read as a number, are the value in units of the last place, rounded.\<close>

lemma fixed_string_value: "decimal (filter (\<lambda>c. c \<noteq> CHR ''.'') (fixed_string k x)) = nat (round_half_even (x * 10 ^ k))"
proof -
  let ?n = "nat (round_half_even (x * 10 ^ k))" and ?f = "nat_string (nat (round_half_even (x * 10 ^ k)) mod 10 ^ k)"
  have keep: "filter (\<lambda>c. c \<noteq> CHR ''.'') (nat_string m) = nat_string m" for m
    using nat_string_digits [of "CHR ''.''" m] by (auto simp: filter_id_conv)
  have "length ?f \<le> k" if "0 < k" using that by (simp add: length_nat_string)
  moreover have "?n div 10 ^ k * 10 ^ k + ?n mod 10 ^ k = ?n" by (rule div_mult_mod_eq)
  ultimately show ?thesis
    by (cases "k = 0") (simp_all add: fixed_string_def Let_def keep decimal_append decimal_zeros)
qed

text \<open>A command line that is not accepted ends with status 0 or 2 and says something.\<close>

lemma parse_args_exit: "parse_args prog args o1 = ExitWith code err \<Longrightarrow> (code = 0 \<or> code = 2) \<and> err \<noteq> []"
  by (induction prog args o1 rule: parse_args.induct) (auto simp: missing_value_def unknown_flag_def split: if_splits list.splits option.splits)

text \<open>A seed that is not a number ends the program by an exception, while the other numbers read as 0.\<close>

lemma seed_not_a_number:
  "parse_args ''sim'' [''--seed'', ''today''] Options_init = Terminated"
  "parse_args ''sim'' [''--random'', ''many''] Options_init = Ready (Options_init\<lparr>opt_random := True\<rparr>)"
  by code_simp+

section \<open>Properties\<close>

text \<open>
  Random mode accounts for every order. Whatever the generator draws, each of the requested orders is
  submitted to a registered instrument with a valid price and quantity and reported exactly once; the
  books stay sound; and the sequence counter that the summary prints is one more than submissions and
  trades together (modulo \<open>2 ^ 64\<close>).
\<close>

theorem random_mode_accounts:
  assumes "opt_random o1" "draws_ok d" "\<forall>n. freed_price_intact (w_env w n)" "cfg_instruments (opt_cfg o1) < 2 ^ 31 - 1"
  shows "\<exists>s. simulate w d script ok old o1 = Some (0, s) \<and> engine_ok (sim_engine s) \<and>
    ss_submit_count (sim_sink s) = nat (max 0 (cfg_orders (opt_cfg o1))) \<and>
    next_sequence (sim_engine s) = 1 + of_nat (ss_submit_count (sim_sink s) + ss_trade_count (sim_sink s))"
proof -
  let ?s = "sim_start ok old o1" and ?ns = "[0..<nat (max 0 (cfg_orders (opt_cfg o1)))]"
  have "random_inv (opt_cfg o1) ?s"
    using open_market_start [of "opt_cfg o1"] by (simp add: random_inv_def sim_start_def results_in_def trades_in_def)
  from random_run [OF this assms(2-4), of ?ns] obtain s where
    s: "run_steps (random_step w d (opt_cfg o1)) ?ns ?s = Some s" "random_inv (opt_cfg o1) s"
      "results_in (sim_told s) = results_in (sim_told ?s) + length ?ns" by blast
  have "accounts (ss_downstream (sim_sink ?s)) s"
    using accounts_runs(2) [OF accounts_start s(1)] .
  with s assms(1) show ?thesis
    by (simp add: simulate_def run_random_def Let_def random_inv_def open_market_def accounts_def sim_start_def results_in_def close_log_def)
qed

theorem random_mode_accounts_witness:
  "\<exists>s. simulate sample_world sample_draws None True None (sample_options\<lparr>opt_random := True\<rparr>) = Some (0, s) \<and>
     ss_submit_count (sim_sink s) = 3"
  using random_mode_accounts [of "sample_options\<lparr>opt_random := True\<rparr>" sample_draws sample_world None True None]
  by (auto simp: sample_options_def sample_world_def sample_draws_ok)

text \<open>
  The log of a run is complete: when a simulation with a log that could be opened ends, in either mode,
  the file read back holds one record for every call the engine made to its sink, in order and with
  all that the format keeps, and the summary counts those calls.
\<close>

theorem simulation_log_complete:
  assumes "simulate w d script True old o1 = Some (0, s)" "opt_log o1 \<noteq> ''''" "\<forall>ev \<in> set (sim_told s). storable (event_record ev)"
  shows "\<exists>l. ss_downstream (sim_sink s) = Some l \<and>
    fst (EventLog_read_all l) = Some (map (persisted \<circ> event_record) (sim_told s)) \<and>
    ss_trade_count (sim_sink s) = trades_in (sim_told s) \<and> ss_submit_count (sim_sink s) = results_in (sim_told s)"
proof -
  let ?l = "EventLog_open True False old"
  have "ss_downstream (sim_sink (sim_start True old o1)) = Some ?l"
    using assms(2) by (simp add: sim_start_def new_StdoutTradeSink_def)
  with simulate_accounts [OF assms(1)] obtain s0 where s0: "s = close_log s0" "accounts (Some ?l) s0" by auto
  let ?evs = "map event_record (sim_told s)"
  have "\<forall>ev \<in> set ?evs. storable ev" using assms(3) by simp
  then have "fst (EventLog_read_all (EventLog_close (append_all ?evs ?l))) = Some (map persisted ?evs)"
    using append_all_file [of ?l log_header ?evs] read_records_write [of ?evs]
    by (simp add: EventLog_read_all_def EventLog_open_def EventLog_close_def read_file_header)
  with s0 show ?thesis by (simp add: accounts_def close_log_def)
qed

theorem simulation_log_complete_witness:
  "\<exists>s l ev. simulate sample_world sample_draws (Some sample_script) True None sample_options = Some (0, s) \<and>
     ss_downstream (sim_sink s) = Some l \<and> fst (EventLog_read_all l) = Some [persisted (event_record ev)] \<and>
     ss_submit_count (sim_sink s) = 1"
proof -
  obtain s r where s: "simulate sample_world sample_draws (Some sample_script) True None sample_options = Some (0, s)"
    "sim_told s = [OnSubmitResult r]" "storable (event_record (OnSubmitResult r))" using sample_run by blast
  from simulation_log_complete [OF s(1)] s show ?thesis
    by (auto simp: sample_options_def results_in_def simp del: event_record.simps)
qed

text \<open>
  The whole program in random mode: whatever the clock says, it ends with status 0 and the summary of a state in which each
  of the orders asked for on the command line is counted.
\<close>

theorem random_mode_summary:
  assumes "parse_args prog args Options_init = Ready o1" "opt_random o1" "draws_ok d" "\<forall>n. freed_price_intact (w_env w n)"
    "cfg_instruments (opt_cfg o1) < 2 ^ 31 - 1"
  shows "\<exists>s. sim_main w d files ok old ns prog args = Simulated 0 s (summary ns o1 s) \<and> engine_ok (sim_engine s) \<and>
    ss_submit_count (sim_sink s) = nat (max 0 (cfg_orders (opt_cfg o1)))"
proof -
  obtain s where "simulate w d (files (opt_script o1)) ok old o1 = Some (0, s)" "engine_ok (sim_engine s)"
    "ss_submit_count (sim_sink s) = nat (max 0 (cfg_orders (opt_cfg o1)))"
    using random_mode_accounts [OF assms(2-5)] by blast
  with assms(1,2) show ?thesis by (simp add: sim_main_def)
qed

theorem random_mode_summary_witness:
  "\<exists>s. sim_main sample_world sample_draws (\<lambda>_. None) True None 5 ''sim'' [''--random'', ''3'', ''--quiet''] =
     Simulated 0 s (summary 5 (Options_init\<lparr>opt_random := True, opt_cfg := RandomConfig_init\<lparr>cfg_orders := 3\<rparr>, opt_quiet := True\<rparr>) s)"
proof -
  let ?o = "Options_init\<lparr>opt_random := True, opt_cfg := RandomConfig_init\<lparr>cfg_orders := 3\<rparr>, opt_quiet := True\<rparr>"
  have "parse_args ''sim'' [''--random'', ''3'', ''--quiet''] Options_init = Ready ?o" by code_simp
  from random_mode_summary [OF this _ sample_draws_ok, of sample_world "\<lambda>_. None" True None 5] show ?thesis
    by (auto simp: sample_world_def Options_init_def RandomConfig_init_def)
qed

end
