(* ===== verification/Replay.thy ===== *)
theory Replay
  imports Simulator
begin

text \<open>
  What replaying a log gives back (\<^verbatim>\<open>Replayer::replay\<close> in
  \<^verbatim>\<open>src/persistence/event_log.cpp\<close>). A session of submissions is written to a log by the persisting
  sink, the log is read back and its records are submitted to an engine with the same books and no risk
  gate. The records do not keep the trader, the time in force and the timestamp of an order, a market order
  comes back as a limit order at the price it carried, and a rejected order is skipped; the notion
  \<open>reproducible\<close> says which submissions survive this.
\<close>

section \<open>Markets that look the same\<close>

text \<open>An order without what a record does not keep.\<close>

definition forget :: "Order \<Rightarrow> Order" where
  "forget ord = ord\<lparr>o_trader_id := 0, o_tif := GTC, o_timestamp := 0\<rparr>"

text \<open>
  Two engines with the same instruments, the same sequence counter and, on each side of each book, orders that
  agree, in the same priority, in all that a record keeps: id, instrument, side, type, price, quantities, sequence and status, and not
  trader, time in force and timestamp.
\<close>

definition same_market :: "Engine \<Rightarrow> Engine \<Rightarrow> bool" where
  "same_market e e' \<longleftrightarrow> next_sequence e' = next_sequence e \<and> dom (books e') = dom (books e) \<and>
     (\<forall>i b b'. books e i = Some b \<longrightarrow> books e' i = Some b' \<longrightarrow>
        (\<forall>s. map forget (resting s b') = map forget (resting s b)))"

text \<open>
  A submission that replay reproduces: a new order with nothing filled that either the engine does not
  accept at all, or whose price is valid and, if it is a market order, no worse than every price it meets;
  that trades if it cannot rest; and whose id is free if it can.
\<close>

definition reproducible :: "(nat \<Rightarrow> int) \<Rightarrow> Order \<Rightarrow> Engine \<Rightarrow> bool" where
  "reproducible nows ord e \<longleftrightarrow> o_status ord = StatusNew \<and> o_remaining ord = o_quantity ord \<and>
     (admitted nows ord e \<longrightarrow>
        (case books e (o_instrument_id ord) of None \<Rightarrow> False
         | Some b \<Rightarrow>
             Price_is_valid (o_price ord) \<and>
             (\<forall>ro \<in> set (resting (\<not> is_buy ord) b). is_limit ord \<or> crosses (o_side ord) (o_price ord) (o_price ro)) \<and>
             (if is_limit ord \<and> o_tif ord \<noteq> IOC
              then o_id (taker_of ord e) \<notin> insert kInvalidOrderId (o_id ` (set (resting True b) \<union> set (resting False b)))
              else taker_fills (taker_of ord e) b \<noteq> [])))"

text \<open>A session: submissions, each with its environment and clock, and what the sink is told.\<close>

fun run_session :: "(Env \<times> (nat \<Rightarrow> int) \<times> Order) list \<Rightarrow> Engine \<Rightarrow> (Engine \<times> SinkEvent list) option" where
  "run_session [] e = Some (e, [])"
| "run_session ((env, nows, ord) # cs) e =
     do { (e1, trace) \<leftarrow> submit env nows (Some ord) e;
          (e2, evs) \<leftarrow> run_session cs e1;
          Some (e2, map fst trace @ evs) }"

fun reproducible_session :: "(Env \<times> (nat \<Rightarrow> int) \<times> Order) list \<Rightarrow> Engine \<Rightarrow> bool" where
  "reproducible_session [] e \<longleftrightarrow> True"
| "reproducible_session ((env, nows, ord) # cs) e \<longleftrightarrow> freed_price_intact env \<and> reproducible nows ord e \<and>
     (case submit env nows (Some ord) e of None \<Rightarrow> False | Some (e1, _) \<Rightarrow> reproducible_session cs e1)"

section \<open>The reference matcher on forgetful orders\<close>

lemma forget_simps [simp]:
  "o_id (forget ord) = o_id ord" "o_price (forget ord) = o_price ord" "o_remaining (forget ord) = o_remaining ord"
  "o_quantity (forget ord) = o_quantity ord" "forget (reduced q ord) = reduced q (forget ord)"
  by (simp_all add: forget_def reduced_def)

lemma fills_forget: "fills acc r (map forget os) = map (map_prod forget id) (fills acc r os)"
  by (induction os arbitrary: r) (simp_all add: Let_def)

lemma left_over_forget: "left_over acc r (map forget os) = map forget (left_over acc r os)"
  by (induction os arbitrary: r) simp_all

lemma place_forget: "place s (forget x) (map forget xs) = map forget (place s x xs)"
  by (induction xs) simp_all

lemma filled_total_forget: "filled_total (map (map_prod forget id) fs) = filled_total fs"
  by (simp add: filled_total_def comp_def)

text \<open>Asking for exactly what was filled gives the same fills and leaves the same orders.\<close>

lemma fills_acc_cong:
  assumes "\<And>ro. ro \<in> set os \<Longrightarrow> acc (o_price ro) = acc' (o_price ro)"
  shows "fills acc r os = fills acc' r os" "left_over acc r os = left_over acc' r os"
  using assms by (induction os arbitrary: r) auto

lemma fills_exact:
  assumes "\<And>ro. ro \<in> set os \<Longrightarrow> 0 < qty (o_remaining ro)"
  shows "fills acc (filled_total (fills acc r os)) os = fills acc r os \<and>
    left_over acc (filled_total (fills acc r os)) os = left_over acc r os"
  using assms
proof (induction os arbitrary: r)
  case (Cons ro os)
  have nn: "0 \<le> filled_total (fills acc x os)" for x
    using fills_bounds [of os x acc] Cons.prems by (cases "0 \<le> x") auto
  have ro: "0 < qty (o_remaining ro)" using Cons.prems by simp
  have fl: "left_over acc (filled_total (fills acc r os)) os = left_over acc r os"
    "fills acc (filled_total (fills acc r os)) os = fills acc r os" for r using Cons by auto
  consider "r \<le> 0 \<or> \<not> acc (o_price ro)" | "0 < r" "acc (o_price ro)" "r < qty (o_remaining ro)"
    | "0 < r" "acc (o_price ro)" "qty (o_remaining ro) \<le> r" by linarith
  then show ?case
  proof cases
    case 3
    with ro nn [of "r - qty (o_remaining ro)"] fl [of "r - qty (o_remaining ro)"] show ?thesis by (auto simp: Let_def min_def)
  qed (use ro in \<open>auto simp: Let_def min_def\<close>)
qed simp

section \<open>What a submission leaves in the log\<close>

lemma match_against_shape:
  assumes "match_against env taker e = Some (x, tk, e', trace)"
  shows "\<exists>ts. map fst trace = map OnTrade ts"
proof (cases "book (o_instrument_id taker) e")
  case None
  with assms show ?thesis by (simp add: match_against_def)
next
  case (Some ob)
  with assms obtain ts where "trace = map (\<lambda>(t, b, s). (OnTrade t, put_book (o_instrument_id taker) b s e)) ts"
    by (auto simp: match_against_def Let_def split: Option.bind_splits)
  then have "map fst trace = map OnTrade (map fst ts)" by (simp add: split_def)
  then show ?thesis by blast
qed

lemma accept_submit_shape:
  assumes "accept_submit env r ord e = Some (e', trace)"
  shows "\<exists>ts r. map fst trace = map OnTrade ts @ [OnSubmitResult r]"
proof -
  from assms obtain x tk e2 tr r' where "match_against env (sequenced ord e) (e\<lparr>next_sequence := next_sequence e + 1\<rparr>) = Some (x, tk, e2, tr)"
    "trace = tr @ [(OnSubmitResult r', e')]"
    by (auto simp: accept_submit_def Let_def split: Option.bind_splits)
  with match_against_shape show ?thesis by fastforce
qed

lemma submit_outcome_shape:
  assumes "submit env nows order e = Some (e', trace)"
  shows "\<exists>r. map fst trace = map OnTrade (cs_trades (collect trace)) @ [OnSubmitResult r] \<and> cs_results (collect trace) = [r]"
proof -
  have "\<exists>r. map fst [(OnSubmitResult x, e)] = map OnTrade [] @ [OnSubmitResult r]" for x e by simp
  then have "\<exists>ts r. map fst trace = map OnTrade ts @ [OnSubmitResult r]"
    using assms
    by (auto simp: submit_def reject_def Let_def split: option.splits if_splits prod.splits dest: accept_submit_shape)
  then show ?thesis using collect_submission by fastforce
qed

lemma same_marketD:
  assumes "same_market e e'" "books e i = Some b"
  obtains b' where "books e' i = Some b'" "\<And>s. map forget (resting s b') = map forget (resting s b)"
proof -
  from assms have "i \<in> dom (books e')" by (auto simp: same_market_def)
  then obtain b' where "books e' i = Some b'" by auto
  with assms that show thesis by (auto simp: same_market_def)
qed


lemma replay_order_persisted:
  "replay_order (persisted (result_record r)) =
     Order_init\<lparr>o_id := sr_order_id r, o_instrument_id := sr_instrument_id r, o_side := sr_side r,
       o_type := if 0 < qty (filled_quantity r + resting_quantity r) then Limit else Market, o_tif := GTC, o_price := sr_price r,
       o_quantity := filled_quantity r + resting_quantity r, o_remaining := filled_quantity r + resting_quantity r\<rparr>"
  by (auto simp: replay_order_def persisted_def result_record_def Let_def Order_init_def split: SubmitStatus.splits)

lemma taker_fills_total:
  assumes "book_inv b" "0 \<le> qty (o_remaining tk)"
  shows "0 \<le> filled_total (taker_fills tk b)" "filled_total (taker_fills tk b) \<le> qty (o_remaining tk)"
    "taker_fills tk b \<noteq> [] \<Longrightarrow> 0 < filled_total (taker_fills tk b)"
proof -
  let ?os = "resting (\<not> is_buy tk) b"
  have pos: "\<And>ro. ro \<in> set ?os \<Longrightarrow> 0 < qty (o_remaining ro)" by (rule resting_positive [OF assms(1)])
  show "0 \<le> filled_total (taker_fills tk b)" "filled_total (taker_fills tk b) \<le> qty (o_remaining tk)"
    using fills_bounds [OF pos assms(2)] by (auto simp: taker_fills_def)
  assume ne: "taker_fills tk b \<noteq> []"
  have "0 < n" if "(ro, n) \<in> set (taker_fills tk b)" for ro n
    using fills_sound [of ro n _ _ ?os] that pos by (auto simp: taker_fills_def)
  then have "\<And>f. f \<in> set (taker_fills tk b) \<Longrightarrow> 0 < snd f" by auto
  moreover from ne obtain f fs where "taker_fills tk b = f # fs" by (auto simp: neq_Nil_conv)
  moreover from calculation have "0 \<le> sum_list (map snd fs)" by (intro sum_list_nonneg) (fastforce intro: less_imp_le)
  ultimately show "0 < filled_total (taker_fills tk b)" by (simp add: filled_total_def add_pos_nonneg)
qed

lemma recorded_fields:
  fixes rests :: bool
  assumes inv: "book_inv b" and adm: "admitted nows ord e" and rem: "o_remaining ord = o_quantity ord"
  defines "tk \<equiv> taker_of ord e"
  defines "f \<equiv> filled_total (taker_fills tk b)"
  defines "r \<equiv> outcome (result_header tk (SubmitResult_init\<lparr>sr_order_id := o_id tk, sr_instrument_id := o_instrument_id tk\<rparr>)) (matched tk b) rests"
  shows "0 \<le> f" "f \<le> qty (o_quantity ord)" "o_remaining (matched tk b) = Quantity (qty (o_quantity ord) - f)" "filled_of (matched tk b) = Quantity f"
    "sr_order_id r = o_id tk" "sr_instrument_id r = o_instrument_id ord" "sr_side r = o_side ord" "sr_price r = o_price ord"
    "filled_quantity r + resting_quantity r = Quantity (if is_limit ord \<and> o_tif ord \<noteq> IOC then qty (o_quantity ord) else f)"
proof -
  have q: "0 < qty (o_quantity ord)" "qty (o_quantity ord) \<le> 1000000000000"
    using adm by (simp_all add: admitted_def valid_submission_def Quantity_is_valid_def kMaxQuantity_def)
  then show f: "0 \<le> f" "f \<le> qty (o_quantity ord)"
    using taker_fills_total [OF inv, of tk] rem by (simp_all add: tk_def f_def)
  show m: "o_remaining (matched tk b) = Quantity (qty (o_quantity ord) - f)" "filled_of (matched tk b) = Quantity f"
    using f q rem by (simp_all add: matched_def f_def tk_def filled_of_def minus_Quantity_eq)
  show "sr_order_id r = o_id tk" "sr_instrument_id r = o_instrument_id ord" "sr_side r = o_side ord" "sr_price r = o_price ord"
    by (simp_all add: r_def outcome_def result_header_def tk_def) (simp_all add: taker_of_def)
  have mk: "is_market (matched tk b) \<longleftrightarrow> \<not> is_limit ord" "o_tif tk = o_tif ord" "o_quantity (matched tk b) = o_quantity ord"
    by (simp_all add: tk_def is_limit_is_market matched_def is_market_def is_limit_def)
  show "filled_quantity r + resting_quantity r = Quantity (if is_limit ord \<and> o_tif ord \<noteq> IOC then qty (o_quantity ord) else f)"
    using f q by (auto simp: r_def outcome_def m mk result_header_def SubmitResult_init_def plus_Quantity_eq)
qed

text \<open>What a reproducible order leaves in its result.\<close>

lemma reproducible_result:
  assumes inv: "book_inv b" and b: "books e (o_instrument_id ord) = Some b" and adm: "admitted nows ord e" and rep: "reproducible nows ord e"
  defines "tk \<equiv> taker_of ord e"
  defines "f \<equiv> filled_total (taker_fills tk b)" and "keeps \<equiv> is_limit ord \<and> o_tif ord \<noteq> IOC"
  defines "rests \<equiv> comes_to_rest (matched tk b) (resting (is_buy ord) b) (other_side_left tk b)"
  defines "r \<equiv> outcome (result_header tk (SubmitResult_init\<lparr>sr_order_id := o_id tk, sr_instrument_id := o_instrument_id tk\<rparr>)) (matched tk b) rests"
  shows "rests \<longleftrightarrow> keeps \<and> f < qty (o_quantity ord)" "sr_status r \<notin> {Rejected, Cancelled}" "reject_reason r = ''''"
proof -
  have q: "0 < qty (o_quantity ord)" "qty (o_quantity ord) \<le> 1000000000000" "o_remaining ord = o_quantity ord" "o_status ord = StatusNew"
    "is_limit ord \<longrightarrow> Price_is_valid (o_price ord)"
    using adm rep by (simp_all add: reproducible_def admitted_def valid_submission_def Quantity_is_valid_def kMaxQuantity_def)
  note m = recorded_fields(1-4) [OF inv adm q(3), folded tk_def, folded f_def]
  have fresh: "keeps \<Longrightarrow> o_id tk \<noteq> kInvalidOrderId \<and> o_id tk \<notin> o_id ` (set (resting True b) \<union> set (resting False b))"
    and ne: "\<not> keeps \<Longrightarrow> 0 < f"
    using rep adm b taker_fills_total(3) [OF inv, of tk] q by (auto simp: reproducible_def keeps_def tk_def f_def)
  have o: "is_open tk" "is_limit tk = is_limit ord" "o_price (matched tk b) = o_price ord" "o_id (matched tk b) = o_id tk"
    using q(4) by (simp_all add: tk_def matched_fields is_open_def [of ord])
  have "order_ok (matched tk b) \<longleftrightarrow> f < qty (o_quantity ord)" if keeps
    using that fresh q m by (simp add: order_ok_def o keeps_def Quantity_is_valid_def kMaxQuantity_def)
  moreover have "o_id tk \<notin> o_id ` (set (resting (is_buy ord) b) \<union> set (other_side_left tk b))" if keeps
    using fresh [OF that] left_over_ids [of _ _ "resting (\<not> is_buy tk) b"]
    by (cases "is_buy ord") (auto simp: other_side_left_def tk_def)
  ultimately show rests: "rests \<longleftrightarrow> keeps \<and> f < qty (o_quantity ord)"
    using o(2) m by (auto simp: rests_def comes_to_rest_def keeps_def tk_def)
  have mk: "is_market (matched tk b) \<longleftrightarrow> \<not> is_limit ord" "o_tif tk = o_tif ord"
    by (simp_all add: tk_def is_limit_is_market matched_def is_market_def is_limit_def)
  show "sr_status r \<notin> {Rejected, Cancelled}" "reject_reason r = ''''"
    using q ne rests m by (auto simp: r_def outcome_def mk keeps_def result_header_def SubmitResult_init_def)
qed

section \<open>Submitting the order of a record\<close>

lemma same_ids: "map forget xs = map forget ys \<Longrightarrow> o_id ` set xs = o_id ` set ys"
proof -
  assume "map forget xs = map forget ys"
  then have "map o_id (map forget xs) = map o_id (map forget ys)" by simp
  then have "map o_id xs = map o_id ys" by (simp add: comp_def)
  then show ?thesis by (metis set_map)
qed

lemma same_market_update:
  assumes "same_market e e'" "books e1 = (books e)(i \<mapsto> c)" "books e2 = (books e')(i \<mapsto> c')"
    "next_sequence e2 = next_sequence e1" "\<And>s. map forget (resting s c') = map forget (resting s c)"
  shows "same_market e1 e2"
  using assms by (auto simp: same_market_def)

text \<open>The order put together from a record, submitted to a market that shows the same orders.\<close>

lemma replayed_match:
  assumes inv: "book_inv b" "book_inv b'" and b: "books e (o_instrument_id ord) = Some b"
    and same: "\<And>s. map forget (resting s b') = map forget (resting s b)"
    and adm: "admitted nows ord e" and rep: "reproducible nows ord e"
    and tk': "is_buy tk' = is_buy ord" "is_limit tk'" "o_side tk' = o_side ord" "o_price tk' = o_price ord"
      "qty (o_remaining tk') = (if is_limit ord \<and> o_tif ord \<noteq> IOC then qty (o_quantity ord) else filled_total (taker_fills (taker_of ord e) b))"
  defines "tk \<equiv> taker_of ord e"
  shows "map (map_prod forget id) (taker_fills tk' b') = map (map_prod forget id) (taker_fills tk b)"
    "map forget (other_side_left tk' b') = map forget (other_side_left tk b)"
proof -
  let ?os = "resting (\<not> is_buy ord) b" and ?os' = "resting (\<not> is_buy ord) b'" and ?acc = "acceptable_to tk"
  have acc: "acceptable_to tk' (o_price ro) = acceptable_to tk (o_price ro)" if "ro \<in> set ?os" for ro
    using rep adm b that tk' by (auto simp: reproducible_def acceptable_to_def tk_def)
  have rem: "qty (o_remaining tk) = qty (o_quantity ord)" using rep by (simp add: tk_def reproducible_def)
  note exact = fills_exact [of ?os ?acc "qty (o_quantity ord)", OF resting_positive [OF inv(1)], simplified]
  have same_fill: "fills ?acc (qty (o_remaining tk')) ?os = fills ?acc (qty (o_remaining tk)) ?os \<and>
      left_over ?acc (qty (o_remaining tk')) ?os = left_over ?acc (qty (o_remaining tk)) ?os"
    using exact tk'(5) rem by (simp add: taker_fills_def tk_def)
  show "map (map_prod forget id) (taker_fills tk' b') = map (map_prod forget id) (taker_fills tk b)"
    using same_fill fills_acc_cong(1) [of ?os "acceptable_to tk'" ?acc, OF acc]
    by (simp add: taker_fills_def tk'(1) fills_forget [symmetric] same) (simp add: fills_forget tk_def)
  show "map forget (other_side_left tk' b') = map forget (other_side_left tk b)"
    using same_fill fills_acc_cong(2) [of ?os "acceptable_to tk'" ?acc, OF acc]
    by (simp add: other_side_left_def tk'(1) left_over_forget [symmetric] same) (simp add: left_over_forget tk_def)
qed


lemma forget_eqI:
  assumes "o_id x = o_id y" "o_instrument_id x = o_instrument_id y" "o_side x = o_side y" "o_type x = o_type y" "o_price x = o_price y"
    "o_quantity x = o_quantity y" "o_remaining x = o_remaining y" "o_sequence x = o_sequence y" "o_status x = o_status y"
  shows "forget (strip x) = forget (strip y)"
  using assms by (cases x; cases y) (simp add: forget_def strip_def)

lemma replayed_rests:
  assumes inv: "book_inv b" and b: "books e (o_instrument_id ord) = Some b" and adm: "admitted nows ord e" and rep: "reproducible nows ord e"
    and tk': "is_limit tk'" "o_tif tk' \<noteq> IOC" "o_price tk' = o_price ord" "is_open tk'" "o_id tk' = o_id (taker_of ord e)"
      "qty (o_remaining tk') = (if is_limit ord \<and> o_tif ord \<noteq> IOC then qty (o_quantity ord) else filled_total (taker_fills (taker_of ord e) b))"
    and own: "map forget own = map forget (resting (is_buy ord) b)"
    and left: "map forget (other_side_left tk' b') = map forget (other_side_left (taker_of ord e) b)"
    and tot: "filled_total (taker_fills tk' b') = filled_total (taker_fills (taker_of ord e) b)"
  shows "comes_to_rest (matched tk' b') own (other_side_left tk' b') \<longleftrightarrow>
     comes_to_rest (matched (taker_of ord e) b) (resting (is_buy ord) b) (other_side_left (taker_of ord e) b)" (is "?rests' \<longleftrightarrow> ?rests")
proof -
  let ?tk = "taker_of ord e"
  note res = reproducible_result(1) [OF inv b adm rep]
  have rem: "qty (o_remaining (matched tk' b')) = qty (o_remaining tk') - filled_total (taker_fills ?tk b)" by (simp add: matched_def tot)
  show ?thesis
  proof (cases ?rests)
    case True
    then have keeps: "is_limit ord" "o_tif ord \<noteq> IOC" and f: "filled_total (taker_fills ?tk b) < qty (o_quantity ord)" using res by simp_all
    from True have id: "o_id ?tk \<noteq> kInvalidOrderId" "o_id ?tk \<notin> o_id ` (set own \<union> set (other_side_left tk' b'))"
      using same_ids [OF own] same_ids [OF left] by (auto simp: comes_to_rest_def order_ok_def)
    have "0 \<le> filled_total (taker_fills ?tk b)" "qty (o_quantity ord) \<le> kMaxQuantity" "Price_is_valid (o_price ord)"
      using taker_fills_total(1) [OF inv, of ?tk] adm rep b by (auto simp: admitted_def valid_submission_def reproducible_def Quantity_is_valid_def)
    then have "order_ok (matched tk' b')"
      using id(1) f tk' keeps rem by (simp add: order_ok_def matched_fields(1) Quantity_is_valid_def)
    then show ?thesis using True id f tk' keeps rem by (simp add: comes_to_rest_def)
  next
    case False
    then have "\<not> 0 < qty (o_remaining (matched tk' b'))" using res rem tk'(6) by auto
    with False show ?thesis by (simp add: comes_to_rest_def)
  qed
qed

lemma replayed_order:
  fixes rests :: bool
  assumes inv: "book_inv b" and b: "books e (o_instrument_id ord) = Some b" and adm: "admitted nows ord e" and rep: "reproducible nows ord e"
  defines "tk \<equiv> taker_of ord e"
  defines "q \<equiv> if is_limit ord \<and> o_tif ord \<noteq> IOC then qty (o_quantity ord) else filled_total (taker_fills tk b)"
  defines "r \<equiv> outcome (result_header tk (SubmitResult_init\<lparr>sr_order_id := o_id tk, sr_instrument_id := o_instrument_id tk\<rparr>)) (matched tk b) rests"
  defines "x \<equiv> replay_order (persisted (result_record r))"
  shows "is_buy x = is_buy ord" "is_limit x" "o_side x = o_side ord" "o_price x = o_price ord" "o_tif x = GTC" "o_remaining x = Quantity q"
    "o_quantity x = Quantity q" "o_instrument_id x = o_instrument_id ord" "is_open x" "o_status x = StatusNew" "o_id x = o_id tk"
    and "Price_is_valid (o_price ord)" "sr_price r = o_price ord"
    and "risk_gate e' = None \<Longrightarrow> books e' (o_instrument_id ord) = Some b' \<Longrightarrow> admitted nows' x e'"
proof -
  have fresh: "o_remaining ord = o_quantity ord" using rep by (simp add: reproducible_def)
  note recorded = recorded_fields(5-9) [OF inv adm fresh, of rests, folded tk_def, folded r_def q_def]
  then show "sr_price r = o_price ord" by simp
  have x: "x = Order_init\<lparr>o_id := o_id tk, o_instrument_id := o_instrument_id ord, o_side := o_side ord, o_type := if 0 < q then Limit else Market,
      o_tif := GTC, o_price := o_price ord, o_quantity := Quantity q, o_remaining := Quantity q\<rparr>"
    unfolding x_def replay_order_persisted by (simp only: recorded) simp
  have q: "0 < q" "q \<le> kMaxQuantity" and price: "Price_is_valid (o_price ord)"
    using adm rep b taker_fills_total [OF inv, of tk]
    by (auto simp: q_def tk_def admitted_def valid_submission_def Quantity_is_valid_def reproducible_def)
  then show "Price_is_valid (o_price ord)" by simp
  show fields: "is_buy x = is_buy ord" "is_limit x" "o_side x = o_side ord" "o_price x = o_price ord" "o_tif x = GTC" "o_remaining x = Quantity q"
    "o_quantity x = Quantity q" "o_instrument_id x = o_instrument_id ord" "is_open x" "o_status x = StatusNew" "o_id x = o_id tk"
    using q(1) by (simp_all add: x is_buy_def is_limit_def is_open_def Order_init_def)
  show "admitted nows' x e'" if "risk_gate e' = None" "books e' (o_instrument_id ord) = Some b'"
    using adm q price that fields
    by (auto simp: admitted_def valid_submission_def Quantity_is_valid_def kMaxQuantity_def in_i64_def consult_gate_def
        risk_accept_def RiskDecision_ok_def)
qed

lemma replay_accepted:
  assumes ok: "engine_ok e" "engine_ok e'" and gate: "risk_gate e' = None" and same: "same_market e e'"
    and adm: "admitted nows ord e" and rep: "reproducible nows ord e" and env: "freed_price_intact env" "freed_price_intact env'"
    and sub: "submit env nows (Some ord) e = Some (e1, trace)" and r: "cs_results (collect trace) = [r]"
  shows "sr_status r \<notin> {Rejected, Cancelled} \<and> reject_reason r = '''' \<and> Price_is_valid (sr_price r) \<and>
    (\<exists>e2 trace'. submit env' nows' (Some (replay_order (persisted (result_record r)))) e' = Some (e2, trace') \<and>
       engine_ok e2 \<and> risk_gate e2 = None \<and> same_market e1 e2)"
proof -
  let ?i = "o_instrument_id ord" and ?s = "is_buy ord" and ?tk = "taker_of ord e"
  obtain b where b: "books e ?i = Some b" using adm by (auto simp: admitted_def valid_submission_def)
  from same_marketD [OF same b] obtain b' where b': "books e' ?i = Some b'" "\<And>s. map forget (resting s b') = map forget (resting s b)" by blast
  have inv: "book_inv b" "book_inv b'" using ok b b'(1) by (auto simp: engine_ok_def book_ok_def)
  let ?f = "filled_total (taker_fills ?tk b)" and ?rests = "comes_to_rest (matched ?tk b) (resting ?s b) (other_side_left ?tk b)"
  obtain ex tx c where spec: "submit env nows (Some ord) e = Some (ex, tx)"
    "cs_results (collect tx) = [outcome (result_header ?tk
       (SubmitResult_init\<lparr>sr_order_id := o_id ?tk, sr_instrument_id := o_instrument_id ?tk\<rparr>)) (matched ?tk b) ?rests]"
    "books ex = (books e)(?i \<mapsto> c)" "next_sequence ex = next_sequence e + 1 + of_nat (length (taker_fills ?tk b))"
    "resting (\<not> ?s) c = other_side_left ?tk b" "resting ?s c = (if ?rests then place ?s (strip (matched ?tk b)) (resting ?s b) else resting ?s b)"
    by (rule submit_spec [OF ok(1) adm env(1) b]) (rule that)
  have e1: "e1 = ex" and r_eq: "r = outcome (result_header ?tk (SubmitResult_init\<lparr>sr_order_id := o_id ?tk, sr_instrument_id := o_instrument_id ?tk\<rparr>)) (matched ?tk b) ?rests"
    using spec(1,2) sub r by simp_all
  let ?ord = "replay_order (persisted (result_record r))"
  let ?tk' = "taker_of ?ord e'"
  note res = reproducible_result [OF inv(1) b adm rep, folded r_eq]
  note fields = replayed_order(1-11,13) [OF inv(1) b adm rep, of ?rests, folded r_eq]
  note adm' = replayed_order(14) [OF inv(1) b adm rep gate b'(1), of nows' ?rests, folded r_eq]
  have seq: "next_sequence e' = next_sequence e" using same by (simp add: same_market_def)
  have id': "o_id ?tk' = o_id ?tk" using seq by (simp add: taker_of_def with_id_def sequenced_def fields)
  have fill: "map (map_prod forget id) (taker_fills ?tk' b') = map (map_prod forget id) (taker_fills ?tk b)"
    "map forget (other_side_left ?tk' b') = map forget (other_side_left ?tk b)"
    by (rule replayed_match [OF inv b b'(2) adm rep]; simp add: fields)+
  have len: "length (taker_fills ?tk' b') = length (taker_fills ?tk b)" using fill(1) by (rule map_eq_imp_length_eq)
  have tot: "filled_total (taker_fills ?tk' b') = ?f" using arg_cong [OF fill(1), of filled_total] by (simp add: filled_total_forget)
  let ?rests' = "comes_to_rest (matched ?tk' b') (resting ?s b') (other_side_left ?tk' b')"
  have rest_iff: "?rests' \<longleftrightarrow> ?rests"
    by (rule replayed_rests [OF inv(1) b adm rep _ _ _ _ id' _ b'(2) fill(2) tot]) (simp_all add: fields matched_fields(2))
  have moved: "forget (strip (matched ?tk' b')) = forget (strip (matched ?tk b))" if ?rests
    using that fields id' tot seq rep
    by (intro forget_eqI) (auto simp: comes_to_rest_def matched_def is_limit_def reproducible_def taker_of_def sequenced_def with_id_def)
  obtain e2 t2 c' where spec': "submit env' nows' (Some ?ord) e' = Some (e2, t2)"
    "books e2 = (books e')(?i \<mapsto> c')" "next_sequence e2 = next_sequence e' + 1 + of_nat (length (taker_fills ?tk' b'))"
    "resting (\<not> ?s) c' = other_side_left ?tk' b'" "resting ?s c' = (if ?rests' then place ?s (strip (matched ?tk' b')) (resting ?s b') else resting ?s b')"
    by (rule submit_spec [OF ok(2) adm' env(2), of b', unfolded fields, OF b'(1)]) (rule that)
  have sides: "map forget (resting t c') = map forget (resting t c)" for t
    using spec(5,6) spec'(4,5) fill(2) b'(2) [of ?s] rest_iff moved place_forget [of ?s, symmetric]
    by (cases "t = ?s") (auto simp: place_forget [symmetric])
  have "same_market e1 e2"
    by (rule same_market_update [OF same _ spec'(2) _ sides]) (simp_all add: spec'(3) spec(3,4) e1 len seq)
  moreover have "engine_ok e2" "risk_gate e2 = None"
    using submit_ungated [OF ok(2) gate _ fields(9) _ env(2), of nows'] adm' spec'(1) by (auto simp: admitted_def)
  ultimately show ?thesis using res fields(12) replayed_order(12) [OF inv(1) b adm rep] spec'(1) by auto
qed

section \<open>Every record can be stored\<close>

lemma risk_reason_short:
  "length (rd_reason (fst (RiskGate_evaluate nows ord g))) < 100"
proof (induction g arbitrary: nows)
  case (Cons c g)
  have "length (rd_reason (fst (RiskCheck_evaluate now ord c))) < 100" for now
    by (cases c) (simp_all add: MaxOrderQuantity_evaluate_def MaxNotional_evaluate_def PriceCollar_evaluate_def
        RateLimit_evaluate_def risk_accept_def risk_reject_def Let_def)
  with Cons show ?case by (simp add: Let_def split_def)
qed (simp add: risk_accept_def)

lemma consult_reason_short: "length (rd_reason (fst (consult_gate nows ord e))) < 100"
  using risk_reason_short [of nows ord] by (auto simp: consult_gate_def Let_def split_def risk_accept_def split: option.splits)

lemma result_storable:
  "in_i64 (ticks (sr_price r)) \<Longrightarrow> length (reject_reason r) < 2 ^ 32 \<Longrightarrow> storable (result_record r)"
  by (simp add: storable_def result_record_def PersistedEvent_init_def OrderPayload_init_def Trade_init_def) (simp add: in_i64_def)

lemma trade_storable:
  assumes "book_inv b" "t \<in> set (trades_of env tk tid (taker_fills tk b))"
  shows "storable (trade_record t)"
proof -
  from trades_of_member [OF assms(2)] obtain tid' ro n where t: "t = trade_of env tk tid' (ro, n)" "(ro, n) \<in> set (taker_fills tk b)" by blast
  let ?os = "resting (\<not> is_buy tk) b"
  from fills_sound [of ro n _ _ ?os] t(2) resting_positive [OF assms(1)] have ro: "ro \<in> set ?os" "0 < n" "n \<le> qty (o_remaining ro)"
    by (auto simp: taker_fills_def)
  have "order_ok ro" using resting_ok(1) [OF assms(1) ro(1)] .
  then have "Price_is_valid (o_price ro)" "Quantity_is_valid (o_remaining ro)" by (simp_all add: order_ok_def)
  with ro(2,3) show ?thesis
    by (simp add: storable_def trade_record_def PersistedEvent_init_def OrderPayload_init_def t(1) trade_of_fields)
      (simp add: in_i64_def Price_is_valid_def Quantity_is_valid_def domain_defs)
qed

lemma reject_storable:
  assumes "length reason < 2 ^ 32" and r: "r = SubmitResult_init\<lparr>sr_order_id := x, sr_instrument_id := i\<rparr>"
  shows "\<exists>r'. reject r reason e = Some (e, [(OnSubmitResult r', e)]) \<and> sr_status r' = Rejected \<and> storable (result_record r')"
proof -
  have "storable (result_record (r\<lparr>sr_status := Rejected, reject_reason := reason\<rparr>))"
    using assms by (intro result_storable) (simp_all add: SubmitResult_init_def in_i64_def)
  then show ?thesis by (simp add: reject_def)
qed

lemma submit_invalid_result:
  assumes "\<not> valid_submission ord e"
  shows "\<exists>r. submit env nows (Some ord) e = Some (e, [(OnSubmitResult r, e)]) \<and> sr_status r = Rejected \<and>
    sr_price r = Price 0 \<and> length (reject_reason r) < 100"
  using assms by (auto simp: submit_def reject_def valid_submission_def book_def is_limit_def Let_def SubmitResult_init_def)

lemma submit_not_admitted:
  assumes "\<not> admitted nows ord e" "o_status ord = StatusNew" "o_remaining ord = o_quantity ord"
  shows "\<exists>r e1. submit env nows (Some ord) e = Some (e1, [(OnSubmitResult r, e1)]) \<and> sr_status r = Rejected \<and>
    books e1 = books e \<and> next_sequence e1 = next_sequence e \<and> storable (result_record r)"
proof (cases "valid_submission ord e")
  case False
  from submit_invalid_result [OF this, of env nows] result_storable show ?thesis by (fastforce simp: in_i64_def)
next
  case True
  obtain d e1 where d: "consult_gate nows (with_id ord e) e = (d, e1)" by fastforce
  have "is_open ord" "in_i64 (qty (o_remaining ord))"
    using True assms(2,3) by (simp_all add: is_open_def valid_submission_def Quantity_is_valid_def in_i64_def kMaxQuantity_def)
  then have "\<not> RiskDecision_ok d" using assms(1) True d by (simp add: admitted_def)
  then show ?thesis using consult_gate_frame [OF d] consult_reason_short [of nows "with_id ord e" e] d
      reject_storable [of "''risk: '' @ rd_reason d" _ "o_instrument_id ord" "o_id (with_id ord e)" e1, OF _ refl]
    by (auto simp: submit_valid [OF True])
qed

lemma submission_engine_ok:
  assumes ok: "engine_ok e" and rep: "reproducible nows ord e" and env: "freed_price_intact env"
    and sub: "submit env nows (Some ord) e = Some (e1, trace)"
  shows "engine_ok e1"
proof (cases "admitted nows ord e")
  case True
  then show ?thesis using submit_engine_ok [OF ok, of env nows "Some ord"] env sub by (auto simp: admitted_def)
next
  case False
  with submit_not_admitted [of nows ord e env] rep sub have "books e1 = books e" by (auto simp: reproducible_def)
  then show ?thesis using ok by (simp add: engine_ok_def)
qed

section \<open>Whole sessions\<close>

lemma replay_trades:
  "replay env nows (map (persisted \<circ> event_record) (map OnTrade ts) @ recs) n e = replay env nows recs (n + length ts) e"
  by (induction ts arbitrary: n) (simp_all add: persisted_def trade_record_def Let_def)

lemma persisted_kind: "pe_kind (persisted ev) = pe_kind ev"
  by (simp add: persisted_def Let_def)

lemma replay_submission:
  assumes ok: "engine_ok e" "engine_ok e'" "risk_gate e' = None" "same_market e e'" and rep: "reproducible nows ord e"
    and env: "freed_price_intact env" "\<forall>n. freed_price_intact (env' n)"
    and sub: "submit env nows (Some ord) e = Some (e1, trace)"
  shows "(\<forall>ev \<in> set (map fst trace). storable (event_record ev)) \<and>
    (\<exists>e2. engine_ok e2 \<and> risk_gate e2 = None \<and> same_market e1 e2 \<and>
      (\<forall>recs. replay env' nows' (map (persisted \<circ> event_record) (map fst trace) @ recs) n e' = replay env' nows' recs (n + length trace) e2))"
proof (cases "admitted nows ord e")
  case False
  have new: "o_status ord = StatusNew" "o_remaining ord = o_quantity ord" using rep by (simp_all add: reproducible_def)
  from submit_not_admitted [OF False new, of env] obtain r where r: "trace = [(OnSubmitResult r, e1)]" "sr_status r = Rejected"
    "books e1 = books e" "next_sequence e1 = next_sequence e" "storable (result_record r)" using sub by auto
  moreover have "pe_kind (persisted (result_record r)) = OrderRejected" using r(2) by (simp add: persisted_kind result_record_def)
  moreover have "same_market e1 e'" using ok(4) r(3,4) by (simp add: same_market_def)
  ultimately show ?thesis using ok by (intro conjI exI [of _ e']) simp_all
next
  case True
  from submit_outcome_shape [OF sub] obtain r where r: "map fst trace = map OnTrade (cs_trades (collect trace)) @ [OnSubmitResult r]"
    "cs_results (collect trace) = [r]" by blast
  let ?ts = "cs_trades (collect trace)"
  obtain b where b: "books e (o_instrument_id ord) = Some b" using True by (auto simp: admitted_def valid_submission_def)
  then have inv: "book_inv b" using ok(1) by (auto simp: engine_ok_def book_ok_def)
  from submit_spec [OF ok(1) True env(1) b] sub have "?ts = trades_of env (taker_of ord e) (next_sequence e + 1) (taker_fills (taker_of ord e) b)" by auto
  then have st: "\<forall>t \<in> set ?ts. storable (trade_record t)" using trade_storable [OF inv] by simp
  note acc = replay_accepted [OF ok True rep env(1) _ sub r(2), of "env' (n + length ?ts)" "nows' (n + length ?ts)"]
  from acc env(2) obtain e2 t2 where e2: "submit (env' (n + length ?ts)) (nows' (n + length ?ts)) (Some (replay_order (persisted (result_record r)))) e' = Some (e2, t2)"
    "engine_ok e2" "risk_gate e2 = None" "same_market e1 e2" by blast
  have res: "sr_status r \<notin> {Rejected, Cancelled}" "reject_reason r = ''''" "Price_is_valid (sr_price r)" using acc env(2) by blast+
  have kind: "pe_kind (persisted (result_record r)) \<in> {OrderRested, OrderFilled, OrderPartiallyFilled}"
    using res(1) by (cases "sr_status r") (simp_all add: persisted_kind result_record_def)
  have str: "storable (result_record r)"
    using res(2,3) by (intro result_storable) (simp_all add: in_i64_def Price_is_valid_def domain_defs)
  have len: "length trace = length ?ts + 1" using arg_cong [OF r(1), of length] by simp
  have "replay env' nows' (map (persisted \<circ> event_record) (map fst trace) @ recs) n e' = replay env' nows' recs (n + length trace) e2" for recs
    using e2(1) kind replay_trades [of env' nows' ?ts] unfolding r(1) by (auto simp: len)
  with e2 st str show ?thesis unfolding r(1) by auto
qed


lemma replay_session:
  assumes "engine_ok e" "engine_ok e'" "risk_gate e' = None" "same_market e e'" "reproducible_session cs e"
    "\<forall>n. freed_price_intact (env' n)"
  shows "\<exists>e1 evs e2. run_session cs e = Some (e1, evs) \<and> (\<forall>ev \<in> set evs. storable (event_record ev)) \<and>
    replay env' nows' (map (persisted \<circ> event_record) evs) n e' = Some (n + length evs, e2) \<and> same_market e1 e2"
  using assms
proof (induction cs arbitrary: e e' n)
  case (Cons c cs)
  obtain env nows ord where c: "c = (env, nows, ord)" by (cases c)
  from Cons.prems(5) obtain e1 trace where rep: "freed_price_intact env" "reproducible nows ord e"
    and sub: "submit env nows (Some ord) e = Some (e1, trace)" and rest: "reproducible_session cs e1"
    by (auto simp: c split: option.splits)
  have "engine_ok e1" by (rule submission_engine_ok [OF Cons.prems(1) rep(2,1) sub])
  from replay_submission [OF Cons.prems(1-4) rep(2,1) Cons.prems(6) sub, of nows' n] obtain e2 where
    e2: "engine_ok e2" "risk_gate e2 = None" "same_market e1 e2"
      "\<And>recs. replay env' nows' (map (persisted \<circ> event_record) (map fst trace) @ recs) n e' = replay env' nows' recs (n + length trace) e2"
    and st: "\<forall>ev \<in> set (map fst trace). storable (event_record ev)" by blast
  from Cons.IH [OF \<open>engine_ok e1\<close> e2(1-3) rest Cons.prems(6), of "n + length trace"] obtain e3 evs e4 where
    IH: "run_session cs e1 = Some (e3, evs)" "\<forall>ev \<in> set evs. storable (event_record ev)"
      "replay env' nows' (map (persisted \<circ> event_record) evs) (n + length trace) e2 = Some (n + length trace + length evs, e4)" "same_market e3 e4" by blast
  have "replay env' nows' (map (persisted \<circ> event_record) (map fst trace @ evs)) n e' = Some (n + length (map fst trace @ evs), e4)"
    using e2(4) [of "map (persisted \<circ> event_record) evs"] IH(3) by (simp add: ac_simps)
  moreover have "run_session (c # cs) e = Some (e3, map fst trace @ evs)" using sub IH(1) by (simp add: c)
  moreover have "\<forall>ev \<in> set (map fst trace @ evs). storable (event_record ev)" using IH(2) st by auto
  ultimately show ?case using IH(4) by blast
qed simp

lemma persisting_log: "fold PersistingSink_on evs l = append_all (map event_record evs) l"
proof -
  have "PersistingSink_on ev l = EventLog_append (event_record ev) l" for ev l by (cases ev) simp_all
  then show ?thesis by (induction evs arbitrary: l) simp_all
qed

lemma same_market_refl: "same_market e (set_risk_gate g e)"
  by (auto simp: same_market_def set_risk_gate_def)

text \<open>A bid at zero against asks at positive prices trades with nothing and comes to rest.\<close>

lemma zero_bid_rests:
  assumes ok: "engine_ok e" and b: "books e i = Some b" and gate: "risk_gate e = None" and env: "freed_price_intact env"
    and asks: "\<forall>ro \<in> set (resting False b). 0 < ticks (o_price ro)" and f: "0 < f" "f \<le> kMaxQuantity" and i: "i \<noteq> kInvalidInstrumentId"
    and id: "x \<notin> insert kInvalidOrderId (o_id ` (set (resting True b) \<union> set (resting False b)))"
    and bid: "bid = Order_init\<lparr>o_id := x, o_instrument_id := i, o_side := Buy, o_type := Limit, o_tif := GTC, o_price := Price 0,
      o_quantity := Quantity f, o_remaining := Quantity f\<rparr>"
  shows "\<exists>e' trace b'. submit env nows (Some bid) e = Some (e', trace) \<and> cs_trades (collect trace) = [] \<and> books e' i = Some b' \<and>
    resting False b' = resting False b \<and> (\<exists>ro \<in> set (resting True b'). o_id ro = x \<and> o_price ro = Price 0)"
proof -
  have fields: "is_buy bid" "is_limit bid" "o_remaining bid = Quantity f" "o_quantity bid = Quantity f" "o_instrument_id bid = i"
    "is_open bid" "o_price bid = Price 0" "o_side bid = Buy" "o_tif bid = GTC" "o_id bid = x"
    by (simp_all add: bid is_buy_def is_limit_def is_open_def Order_init_def)
  have adm: "admitted nows bid e"
    using f i b gate fields by (auto simp: admitted_def valid_submission_def Quantity_is_valid_def Price_is_valid_def kMaxQuantity_def
        kMaxPriceTicks_def in_i64_def consult_gate_def risk_accept_def RiskDecision_ok_def)
  let ?tk = "taker_of bid e"
  have tk: "o_id ?tk = x" using fields(10) id by (simp add: taker_of_def sequenced_def with_id_def)
  have "\<not> acceptable_to ?tk (o_price ro)" if "ro \<in> set (resting False b)" for ro
    using asks that fields by (cases "o_price ro") (auto simp: acceptable_to_def crosses_def)
  then have none: "taker_fills ?tk b = []" "other_side_left ?tk b = resting False b"
    using fields by (cases "resting False b"; simp add: taker_fills_def other_side_left_def)+
  have "o_remaining (matched ?tk b) = Quantity f" by (simp add: matched_def none fields)
  then have "comes_to_rest (matched ?tk b) (resting True b) (other_side_left ?tk b)"
    using f id tk fields by (simp add: comes_to_rest_def none order_ok_def Quantity_is_valid_def Price_is_valid_def kMaxPriceTicks_def matched_fields(1,2))
  moreover from submit_spec [OF ok adm env, unfolded fields(5), OF b] obtain e' trace b' where "submit env nows (Some bid) e = Some (e', trace)"
    "cs_trades (collect trace) = trades_of env ?tk (next_sequence e + 1) (taker_fills ?tk b)" "books e' = (books e)(i \<mapsto> b')"
    "resting (\<not> is_buy bid) b' = other_side_left ?tk b"
    "resting (is_buy bid) b' = (if comes_to_rest (matched ?tk b) (resting (is_buy bid) b) (other_side_left ?tk b)
       then place (is_buy bid) (strip (matched ?tk b)) (resting (is_buy bid) b) else resting (is_buy bid) b)"
    by blast
  ultimately have s: "submit env nows (Some bid) e = Some (e', trace)" "cs_trades (collect trace) = []" "books e' i = Some b'"
    "resting False b' = resting False b" "resting True b' = place True (strip (matched ?tk b)) (resting True b)"
    using fields(1) none by simp_all
  have "\<exists>ro \<in> set (resting True b'). o_id ro = x \<and> o_price ro = Price 0"
    using s(5) tk fields by (intro bexI [of _ "strip (matched ?tk b)"]) (simp_all add: matched_fields(1))
  with s(1-4) show ?thesis by blast
qed

section \<open>Properties\<close>

text \<open>
  C8. Replay rebuilds the books, but not who owns the orders. Take any session of reproducible submissions, from any sound engine and
  through any risk gate, persisted to a fresh log. The log reads back, and replaying it on the engine as it was
  before the session, with its gate removed, applies every record. It ends with the same
  sequence counter and, for each instrument, the same resting orders with the same ids, prices and remaining quantities in
  the same priority, up to the trader, the time in force and the timestamp, which the log does not keep.
\<close>

theorem replay_rebuilds_books:
  assumes "engine_ok e" "reproducible_session cs e" "\<forall>n. freed_price_intact (env' n)"
  shows "\<exists>e1 evs recs e2. run_session cs e = Some (e1, evs) \<and>
    fst (EventLog_read_all (fold PersistingSink_on evs (EventLog_open True False file))) = Some recs \<and>
    replay env' nows' recs 0 (set_risk_gate None e) = Some (length recs, e2) \<and> same_market e1 e2"
proof -
  have e': "engine_ok (set_risk_gate None e)" "risk_gate (set_risk_gate None e) = None"
    using assms(1) by (simp_all add: set_risk_gate_def engine_ok_def)
  from replay_session [OF assms(1) e' same_market_refl assms(2,3), of nows' 0] obtain e1 evs e2 where
    s: "run_session cs e = Some (e1, evs)" "\<forall>ev \<in> set evs. storable (event_record ev)"
      "replay env' nows' (map (persisted \<circ> event_record) evs) 0 (set_risk_gate None e) = Some (0 + length evs, e2)" "same_market e1 e2" by blast
  let ?l = "append_all (map event_record evs) (EventLog_open True False file)"
  have "fst (EventLog_read_all ?l) = Some (map persisted (map event_record evs))"
    using s(2) append_all_file [of "EventLog_open True False file" log_header "map event_record evs"] read_records_write [of "map event_record evs"]
    by (simp add: EventLog_read_all_def EventLog_open_def read_file_header)
  with s show ?thesis unfolding persisting_log by (intro exI [of _ e1] exI [of _ evs] exI [of _ "map (persisted \<circ> event_record) evs"] exI [of _ e2]) simp
qed


lemma demo_ids: "o_id ` (set (resting True demo_book) \<union> set (resting False demo_book)) = {20, 21, 10, 12, 11}"
proof -
  have "o_id ` (set (resting True demo_book) \<union> set (resting False demo_book)) =
    set (map o_id (resting True demo_book)) \<union> set (map o_id (resting False demo_book))" by auto
  then show ?thesis unfolding demo_resting by auto
qed

lemma demo_reproducible: "reproducible nows (limit_order 30 6 Buy 100 20) demo_engine"
proof -
  have "o_id (taker_of (limit_order 30 6 Buy 100 20) demo_engine) = 30" by (simp add: taker_of_def sequenced_def with_id_def kInvalidOrderId_def)
  then show ?thesis using demo_ids
    by (simp add: reproducible_def demo_book_at kInvalidOrderId_def) (simp add: limit_order_def Order_init_def Price_is_valid_def kMaxPriceTicks_def)
qed

theorem replay_rebuilds_books_witness:
  "\<exists>e1 evs recs e2. run_session [(demo_env, \<lambda>_. 1, limit_order 30 6 Buy 100 20)] demo_engine = Some (e1, evs) \<and>
    fst (EventLog_read_all (fold PersistingSink_on evs (EventLog_open True False None))) = Some recs \<and>
    replay (\<lambda>_. demo_env) (\<lambda>_ _. 1) recs 0 (set_risk_gate None demo_engine) = Some (length recs, e2) \<and> same_market e1 e2"
proof -
  have "\<exists>e1 tr. submit demo_env (\<lambda>_. 1) (Some (limit_order 30 6 Buy 100 20)) demo_engine = Some (e1, tr)"
    using submit_engine_ok [OF demo_engine_ok, of demo_env "\<lambda>_. 1" "Some (limit_order 30 6 Buy 100 20)"] by (auto simp: in_i64_def)
  then show ?thesis using demo_reproducible by (intro replay_rebuilds_books [OF demo_engine_ok]) auto
qed

text \<open>
  C15. A market buy is replayed as a bid at the price field it carried, which the code says is ignored. With
  the default price of zero the original trades with the best asks, while the order rebuilt from its record
  trades with nothing and comes to rest as a bid at zero; the asks that were bought stay in the book.
\<close>

theorem market_buy_replayed_as_bid:
  assumes ok: "engine_ok e" and adm: "admitted nows ord e" and b: "books e (o_instrument_id ord) = Some b" and gate: "risk_gate e = None"
    and env: "freed_price_intact env" "freed_price_intact env'"
    and ord: "is_market ord" "is_buy ord" "o_price ord = Price 0" "o_remaining ord = o_quantity ord"
    and asks: "resting False b \<noteq> []" "\<forall>ro \<in> set (resting False b). 0 < ticks (o_price ro)"
    and id: "o_id (taker_of ord e) \<notin> insert kInvalidOrderId (o_id ` (set (resting True b) \<union> set (resting False b)))"
  shows "\<exists>e1 trace r e2 trace2 b2. submit env nows (Some ord) e = Some (e1, trace) \<and> cs_results (collect trace) = [r] \<and>
    cs_trades (collect trace) \<noteq> [] \<and>
    submit env' nows' (Some (replay_order (persisted (result_record r)))) e = Some (e2, trace2) \<and> cs_trades (collect trace2) = [] \<and>
    books e2 (o_instrument_id ord) = Some b2 \<and> resting False b2 = resting False b \<and>
    (\<exists>ro \<in> set (resting True b2). o_id ro = o_id (taker_of ord e) \<and> o_price ro = Price 0)"
proof -
  let ?tk = "taker_of ord e" and ?i = "o_instrument_id ord"
  let ?r = "outcome (result_header ?tk (SubmitResult_init\<lparr>sr_order_id := o_id ?tk, sr_instrument_id := o_instrument_id ?tk\<rparr>)) (matched ?tk b)
    (comes_to_rest (matched ?tk b) (resting (is_buy ord) b) (other_side_left ?tk b))"
  obtain r where r_eq: "?r = r" by simp
  let ?f = "filled_total (taker_fills ?tk b)"
  have inv: "book_inv b" using ok b by (auto simp: engine_ok_def book_ok_def)
  have q: "0 < qty (o_quantity ord)" "qty (o_quantity ord) \<le> kMaxQuantity" "?i \<noteq> kInvalidInstrumentId"
    using adm by (auto simp: admitted_def valid_submission_def Quantity_is_valid_def)
  have lim: "\<not> is_limit ord" using ord(1) by (simp add: is_limit_is_market)
  have "taker_fills ?tk b \<noteq> []" using asks(1) q ord lim
    by (cases "resting False b") (simp_all add: taker_fills_def acceptable_to_def Let_def)
  note f = this taker_fills_total(3) [OF inv _ this]
  note rec = recorded_fields(5-9) [OF inv adm ord(4), of "comes_to_rest (matched ?tk b) (resting (is_buy ord) b) (other_side_left ?tk b)", unfolded r_eq]
  from submit_spec [OF ok adm env(1) b] obtain e1 trace where s: "submit env nows (Some ord) e = Some (e1, trace)"
    "cs_trades (collect trace) = trades_of env ?tk (next_sequence e + 1) (taker_fills ?tk b)" "cs_results (collect trace) = [r]"
    unfolding r_eq [symmetric] by blast
  let ?ord = "replay_order (persisted (result_record r))"
  have f0: "0 < ?f" "?f \<le> kMaxQuantity" using f(2) recorded_fields(2) [OF inv adm ord(4)] q ord(4) by simp_all
  have ord': "?ord = Order_init\<lparr>o_id := o_id ?tk, o_instrument_id := ?i, o_side := Buy, o_type := Limit, o_tif := GTC, o_price := Price 0,
      o_quantity := Quantity ?f, o_remaining := Quantity ?f\<rparr>"
    unfolding replay_order_persisted by (simp only: rec) (use ord lim f0 in \<open>simp add: is_buy_def\<close>)
  from zero_bid_rests [OF ok b gate env(2) asks(2) f0 q(3) id ord'] obtain e2 t2 b2 where s2: "submit env' nows' (Some ?ord) e = Some (e2, t2)"
    "cs_trades (collect t2) = []" "books e2 ?i = Some b2" "resting False b2 = resting False b"
    "\<exists>ro \<in> set (resting True b2). o_id ro = o_id ?tk \<and> o_price ro = Price 0" by blast
  have "cs_trades (collect trace) \<noteq> []" using s(2) f(1) by (metis length_0_conv length_trades_of)
  with s(1,3) s2 show ?thesis by blast
qed

lemma market_demo_admitted:
  "admitted nows (limit_order 30 6 Buy 0 12\<lparr>o_type := Market\<rparr>) demo_engine"
proof -
  have "risk_gate demo_engine = None" by code_simp
  then show ?thesis
    by (simp add: admitted_def valid_submission_def demo_book_at consult_gate_def RiskDecision_ok_def risk_accept_def in_i64_def
        Quantity_is_valid_def kMaxQuantity_def kInvalidInstrumentId_def is_limit_def is_open_def limit_order_def Order_init_def)
qed

theorem market_buy_replayed_as_bid_witness:
  "\<exists>e1 trace r e2 trace2. submit demo_env (\<lambda>_. 1) (Some (limit_order 30 6 Buy 0 12\<lparr>o_type := Market\<rparr>)) demo_engine = Some (e1, trace) \<and>
    cs_results (collect trace) = [r] \<and> cs_trades (collect trace) \<noteq> [] \<and>
    submit demo_env (\<lambda>_. 1) (Some (replay_order (persisted (result_record r)))) demo_engine = Some (e2, trace2) \<and>
    cs_trades (collect trace2) = []"
proof -
  let ?ord = "limit_order 30 6 Buy 0 12\<lparr>o_type := Market\<rparr>"
  have "map (ticks \<circ> o_price) (resting False demo_book) = [100, 100, 101]" by code_simp
  then have p: "(ticks \<circ> o_price) ` set (resting False demo_book) = {100, 101}"
    by (metis (no_types) insert_absorb2 list.set(1) list.set(2) set_map)
  have gate: "risk_gate demo_engine = None" by code_simp
  have "o_id (taker_of ?ord demo_engine) = 30" by (simp add: taker_of_def sequenced_def with_id_def kInvalidOrderId_def)
  then have id: "o_id (taker_of ?ord demo_engine) \<notin> insert kInvalidOrderId (o_id ` (set (resting True demo_book) \<union> set (resting False demo_book)))"
    unfolding demo_ids by (simp add: kInvalidOrderId_def)
  have b: "books demo_engine (o_instrument_id ?ord) = Some demo_book" by (simp add: demo_book_at)
  have ord: "is_market ?ord" "is_buy ?ord" "o_price ?ord = Price 0" "o_remaining ?ord = o_quantity ?ord" by (simp_all add: is_market_def is_buy_def limit_order_def)
  have prices: "\<forall>ro \<in> set (resting False demo_book). 0 < ticks (o_price ro)"
  proof
    fix ro assume "ro \<in> set (resting False demo_book)"
    then have "(ticks \<circ> o_price) ro \<in> {100, 101}" unfolding p [symmetric] by (rule imageI)
    then show "0 < ticks (o_price ro)" by auto
  qed
  have ne: "resting False demo_book \<noteq> []" using demo_resting(1) by auto
  from market_buy_replayed_as_bid [OF demo_engine_ok market_demo_admitted b gate demo_env_intact demo_env_intact ord ne prices id]
  show ?thesis by blast
qed

end
