(* ===== verification/Sim_Server.thy ===== *)
theory Sim_Server
  imports Simulator Server_Lifecycle
begin

text \<open>
  The rest of \<^verbatim>\<open>examples/simulator.cpp\<close>: what a script does to the engine, and the servers that
  \<^verbatim>\<open>main\<close> starts after the simulation and stops on a signal. The run of the servers in between is that of
  Gateway, Ws_Gateway and Server_Lifecycle.
\<close>

section \<open>The servers of the simulator\<close>

record ServeState =
  sv_exit :: "int option"
  sv_gateway :: "GatewayServer option"
  sv_ws :: "(Publisher \<times> WsServer) option"
  sv_ports :: "int list"
  sv_out :: "string list"
  sv_err :: "string list"

text \<open>The conversion of a port number to \<^verbatim>\<open>std::uint16_t\<close>.\<close>

definition to_uint16 :: "int \<Rightarrow> int" where "to_uint16 p = p mod 2 ^ 16"

definition serve_gateway :: "ListenAnswers \<Rightarrow> Options \<Rightarrow> ServeState \<Rightarrow> ServeState" where
  "serve_gateway a o1 v =
     (if opt_port o1 \<le> 0 then v
      else let (ok, g) = Gateway_start a new_GatewayServer
           in if \<not> ok
              then v\<lparr>sv_exit := Some 1, sv_err := sv_err v @ [''failed to start gateway on port '' @ int_string (opt_port o1) @ newline]\<rparr>
              else v\<lparr>sv_gateway := Some g, sv_ports := sv_ports v @ [to_uint16 (opt_port o1)],
                     sv_out := sv_out v @ [''gateway listening on 127.0.0.1:'' @ int_string (opt_port o1) @ newline]\<rparr>)"

text \<open>
  When the second server does not start, the first is stopped before the program ends, which may take
  the actions \<open>acts\<close> of its threads.
\<close>

definition stop_gateway :: "GatewayAction list \<Rightarrow> ServeState \<Rightarrow> ServeState option" where
  "stop_gateway acts v =
     (case sv_gateway v of
        None \<Rightarrow> Some v
      | Some g \<Rightarrow> (case run_steps gateway_step acts g of
                     None \<Rightarrow> None
                   | Some g' \<Rightarrow> if gs_phase g' = Stopped then Some (v\<lparr>sv_gateway := Some g'\<rparr>) else None))"

definition serve_ws :: "GatewayAction list \<Rightarrow> ListenAnswers \<Rightarrow> ListenerId \<Rightarrow> Options \<Rightarrow> ServeState \<Rightarrow> ServeState option" where
  "serve_ws acts a l o1 v =
     (if opt_ws_port o1 \<le> 0 then Some v
      else let (ok, pub, s) = WsServer_listen a new_Publisher (new_WsServer l)
           in if \<not> ok
              then stop_gateway acts (v\<lparr>sv_exit := Some 1,
                     sv_err := sv_err v @ [''failed to start ws server on port '' @ int_string (opt_ws_port o1) @ newline]\<rparr>)
              else Some (v\<lparr>sv_ws := Some (pub, s), sv_ports := sv_ports v @ [to_uint16 (opt_ws_port o1)],
                     sv_out := sv_out v @ [''websocket listening on 127.0.0.1:'' @ int_string (opt_ws_port o1) @ newline,
                       ''websocket accepts client commands (submit/cancel/modify/ping)'' @ newline]\<rparr>))"

definition ServeState_init :: ServeState where
  "ServeState_init = \<lparr>sv_exit = None, sv_gateway = None, sv_ws = None, sv_ports = [], sv_out = [], sv_err = []\<rparr>"

definition start_servers ::
    "GatewayAction list \<Rightarrow> ListenAnswers \<Rightarrow> ListenAnswers \<Rightarrow> ListenerId \<Rightarrow> Options \<Rightarrow> ServeState option" where
  "start_servers acts ga wa l o1 =
     (if opt_port o1 > 0 \<or> opt_ws_port o1 > 0
      then let v = serve_gateway ga o1 ServeState_init in if sv_exit v \<noteq> None then Some v else serve_ws acts wa l o1 v
      else Some (ServeState_init\<lparr>sv_exit := Some 0\<rparr>))"

text \<open>After the signal: the WebSocket server first, then the gateway.\<close>

definition stop_servers :: "GatewayAction list \<Rightarrow> ServeState \<Rightarrow> ServeState option" where
  "stop_servers acts v =
     do { v1 \<leftarrow> (case sv_ws v of
                   None \<Rightarrow> Some v
                 | Some (pub, s) \<Rightarrow>
                     (case WsServer_stop pub s of
                        None \<Rightarrow> None
                      | Some r \<Rightarrow> Some (v\<lparr>sv_ws := Some r, sv_out := sv_out v @ [''websocket stopped'' @ newline]\<rparr>)));
          v2 \<leftarrow> stop_gateway acts v1;
          Some (v2\<lparr>sv_exit := Some 0,
                   sv_out := sv_out v2 @ (if sv_gateway v2 = None then [] else [''gateway stopped'' @ newline])\<rparr>) }"

section \<open>The commands of a script\<close>

definition script_order :: "SimWorld \<Rightarrow> nat \<Rightarrow> ParsedRequest \<Rightarrow> Order" where
  "script_order w k req =
     Order_init\<lparr>o_id := 0, o_trader_id := rq_trader_id req, o_instrument_id := rq_instrument req, o_side := rq_side req,
       o_type := Limit, o_tif := rq_tif req, o_price := rq_price req, o_quantity := rq_qty req, o_remaining := rq_qty req,
       o_timestamp := w_stamp w k\<rparr>"

definition script_engine_command :: "SimWorld \<Rightarrow> nat \<Rightarrow> string \<Rightarrow> EngineCommand option" where
  "script_engine_command w k raw =
     do { let line = script_line raw;
          (err, req) \<leftarrow> parse_request line ParsedRequest_init;
          if line = [] \<or> hd line = CHR ''#'' \<or> \<not> parse_ok err then None
          else case rq_command req of
            New \<Rightarrow> Some (SubmitCmd (w_env w k) (w_nows w k) (Some (script_order w k req)))
          | Cancel \<Rightarrow> Some (CancelCmd (rq_instrument req) (rq_order_id req))
          | Modify \<Rightarrow> Some (ModifyCmd (rq_instrument req) (rq_order_id req) (rq_qty req) (rq_price req))
          | _ \<Rightarrow> None }"

text \<open>The engine calls of the lines, numbered from \<open>k\<close>.\<close>

fun script_commands :: "SimWorld \<Rightarrow> nat \<Rightarrow> string list \<Rightarrow> EngineCommand list" where
  "script_commands w k [] = []"
| "script_commands w k (raw # lines) =
     (case script_engine_command w k raw of
        None \<Rightarrow> script_commands w k lines
      | Some c \<Rightarrow> c # script_commands w (Suc k) lines)"

section \<open>Lemmas\<close>

lemma say_fields [simp]:
  "sim_engine (say_err m s) = sim_engine s" "sim_calls (say_err m s) = sim_calls s"
  "sim_engine (say_out m s) = sim_engine s" "sim_calls (say_out m s) = sim_calls s"
  by (simp_all add: say_err_def say_out_def)

lemma sim_quote_total: "engine_ok (sim_engine s) \<Longrightarrow> \<exists>s'. sim_quote n i s = Some s' \<and> sim_engine s' = sim_engine s \<and> sim_calls s' = sim_calls s"
proof -
  assume ok: "engine_ok (sim_engine s)"
  show ?thesis
  proof (cases "books (sim_engine s) i")
    case (Some b)
    with ok have "book_inv b" by (auto simp: engine_ok_def book_ok_def)
    from snapshot_total [OF this] Some show ?thesis
      by (auto simp: sim_quote_def book_def snapshot_of_def split: bind_splits Option.bind_splits)
  qed (simp add: sim_quote_def book_def)
qed

lemma script_step_engine:
  assumes ok: "engine_ok (sim_engine s)" and fit: "numerals_fit (script_line raw)"
    and guard: "\<And>c. script_engine_command w (sim_calls s) raw = Some c \<Longrightarrow> engine_cmd_ok c (sim_engine s)"
  shows "\<exists>s'. script_step w (n, raw) s = Some s' \<and>
    (case script_engine_command w (sim_calls s) raw of
       None \<Rightarrow> sim_engine s' = sim_engine s \<and> sim_calls s' = sim_calls s
     | Some c \<Rightarrow> engine_step c (sim_engine s) = Some (sim_engine s') \<and> sim_calls s' = Suc (sim_calls s))"
proof -
  obtain err req where pr: "parse_request (script_line raw) ParsedRequest_init = Some (err, req)" using fit by (auto simp: numerals_fit_def)
  show ?thesis
  proof (cases "script_engine_command w (sim_calls s) raw")
    case None
    with pr sim_quote_total [OF ok, of n "rq_instrument req"] show ?thesis
      by (auto simp: script_engine_command_def script_step_def script_command_def Let_def split: if_splits InboundCommand.splits)
  next
    case (Some c)
    from engine.step_ok [OF ok guard [OF Some]] obtain e' where "engine_step c (sim_engine s) = Some e'" by blast
    with Some pr show ?thesis
      by (auto simp: script_engine_command_def script_step_def script_command_def script_order_def sim_submit_def submit_limit_def Let_def
          split: if_splits InboundCommand.splits)
  qed
qed


lemma script_lines_engine:
  assumes "engine_ok (sim_engine s)" "length ns = length lines" "\<forall>raw \<in> set lines. numerals_fit (script_line raw)"
    and "admissible engine_step engine_cmd_ok (script_commands w (sim_calls s) lines) (sim_engine s)"
  shows "\<exists>s'. run_steps (script_step w) (zip ns lines) s = Some s' \<and> engine_ok (sim_engine s') \<and>
    run_steps engine_step (script_commands w (sim_calls s) lines) (sim_engine s) = Some (sim_engine s') \<and>
    sim_calls s' = sim_calls s + length (script_commands w (sim_calls s) lines)"
  using assms
proof (induction lines arbitrary: s ns)
  case (Cons raw lines)
  then obtain n ns' where ns: "ns = n # ns'" "length ns' = length lines" by (cases ns) auto
  let ?c = "script_engine_command w (sim_calls s) raw"
  have guard: "\<And>c. ?c = Some c \<Longrightarrow> engine_cmd_ok c (sim_engine s)" using Cons.prems(4) by simp
  have fit: "numerals_fit (script_line raw)" "\<forall>raw \<in> set lines. numerals_fit (script_line raw)" using Cons.prems(3) by simp_all
  from script_step_engine [OF Cons.prems(1) fit(1) guard, where n = n] obtain s1 where s1: "script_step w (n, raw) s = Some s1"
    "case ?c of None \<Rightarrow> sim_engine s1 = sim_engine s \<and> sim_calls s1 = sim_calls s
     | Some c \<Rightarrow> engine_step c (sim_engine s) = Some (sim_engine s1) \<and> sim_calls s1 = Suc (sim_calls s)" by blast
  have ok1: "engine_ok (sim_engine s1)"
    using s1(2) Cons.prems(1) engine.step_ok [OF Cons.prems(1) guard] by (auto split: option.splits)
  have "admissible engine_step engine_cmd_ok (script_commands w (sim_calls s1) lines) (sim_engine s1)"
    using Cons.prems(4) s1(2) by (auto split: option.splits)
  from Cons.IH [OF ok1 ns(2) fit(2) this] s1 show ?case by (auto simp: ns(1) split: option.splits)
qed simp

lemma script_command_ok:
  assumes "freed_price_intact (w_env w k)" "script_engine_command w k raw = Some c" "gateway_guard c e"
  shows "engine_cmd_ok c e"
  using assms request_qty_in_i64 [of "script_line raw"]
  by (cases "parse_request (script_line raw) ParsedRequest_init")
    (auto simp: script_engine_command_def script_order_def Order_init_def is_open_def Let_def split: if_splits InboundCommand.splits prod.splits)

lemma script_commands_member: "c \<in> set (script_commands w k ls) \<Longrightarrow> \<exists>n raw. script_engine_command w n raw = Some c"
  by (induction w k ls rule: script_commands.induct) (auto split: option.splits)

lemma int_string_inj: "0 \<le> a \<Longrightarrow> 0 \<le> b \<Longrightarrow> int_string a = int_string b \<longleftrightarrow> a = b"
  by (auto simp: int_string_def) (metis decimal_nat_string eq_nat_nat_iff)

section \<open>Properties\<close>

text \<open>
  C39. A script does what its lines say. For a file in which no price of a modification overflows 64 bits and no modification moves an
  order into the other side of its book, and as long as a freed order can still be read as it was, the simulator in script mode reads
  the file to its end, skips blank lines, comments and lines that do not parse, and leaves the engine as
  the engine commands of the other lines, in order, leave the freshly registered instruments. Outside these conditions
  the behaviour of the program is undefined.
\<close>

theorem script_mode_drives_engine:
  assumes "\<not> opt_random o1" "\<forall>n. freed_price_intact (w_env w n)" "\<forall>raw \<in> set (getlines file). numerals_fit (script_line raw)"
    and "admissible engine_step gateway_guard (script_commands w 0 (getlines file)) (sim_market (opt_cfg o1))"
  shows "\<exists>s. simulate w d (Some file) ok old o1 = Some (0, s) \<and> engine_ok (sim_engine s) \<and>
    run_steps engine_step (script_commands w 0 (getlines file)) (sim_market (opt_cfg o1)) = Some (sim_engine s)"
proof -
  let ?s = "sim_start ok old o1" and ?ls = "getlines file"
  have s: "sim_engine ?s = sim_market (opt_cfg o1)" "sim_calls ?s = 0" by (simp_all add: sim_start_def)
  have e: "engine_ok (sim_engine ?s)" using open_market_start [of "opt_cfg o1"] by (simp add: s open_market_def)
  have "admissible engine_step engine_cmd_ok (script_commands w 0 ?ls) (sim_market (opt_cfg o1))"
    by (rule admissible_mono [OF assms(4)]) (use assms(2) script_commands_member script_command_ok in blast)
  moreover have "length [1..<length ?ls + 1] = length ?ls" by (simp del: upt_Suc)
  ultimately obtain s' where
    "run_steps (script_step w) (zip [1..<length ?ls + 1] ?ls) ?s = Some s'" "engine_ok (sim_engine s')"
    "run_steps engine_step (script_commands w 0 ?ls) (sim_market (opt_cfg o1)) = Some (sim_engine s')"
    using script_lines_engine [OF e _ assms(3), of "[1..<length ?ls + 1]" w] unfolding s by blast
  with assms(1) show ?thesis
    by (intro exI [of _ "close_log s'"]) (simp add: simulate_def run_script_def Let_def close_log_def del: upt_Suc)
qed

theorem script_mode_drives_engine_witness:
  "\<exists>s. simulate sample_world sample_draws (Some sample_script) True None sample_options = Some (0, s) \<and> engine_ok (sim_engine s)"
proof -
  have lines: "getlines sample_script = [sample_script]" by code_simp
  have new: "map_option (rq_command \<circ> snd) (parse_request (script_line sample_script) ParsedRequest_init) = Some New" by code_simp
  have "admissible engine_step gateway_guard (script_commands sample_world 0 (getlines sample_script)) (sim_market (opt_cfg sample_options))"
  proof (rule admissible_always)
    fix c e assume "c \<in> set (script_commands sample_world 0 (getlines sample_script))"
    with new show "gateway_guard c e"
      unfolding lines by (auto simp: script_engine_command_def Let_def split: option.splits prod.splits if_splits)
  qed
  moreover have "\<forall>raw \<in> set (getlines sample_script). numerals_fit (script_line raw)" using new by (auto simp: lines numerals_fit_def)
  moreover have "\<not> opt_random sample_options" by (simp add: sample_options_def Options_init_def)
  ultimately show ?thesis
    using script_mode_drives_engine [of sample_options sample_world sample_script sample_draws True None] by (auto simp: sample_world_def)
qed

text \<open>
  Ports. The servers listen on the port numbers modulo \<open>2 ^ 16\<close>, while the program announces the numbers
  it was given: the announced gateway port is the one it is bound to exactly when it is below 65536.
\<close>

theorem announced_port_bounds:
  assumes "fst (Gateway_start ga new_GatewayServer)" "0 < opt_port o1"
  shows "(\<exists>p. sv_ports (serve_gateway ga o1 ServeState_init) = [p] \<and> 0 \<le> p \<and> p < 2 ^ 16 \<and>
      (sv_out (serve_gateway ga o1 ServeState_init) = [''gateway listening on 127.0.0.1:'' @ int_string p @ newline] \<longleftrightarrow> opt_port o1 < 2 ^ 16))"
proof -
  have "opt_port o1 mod 2 ^ 16 = opt_port o1 \<longleftrightarrow> opt_port o1 < 2 ^ 16" using assms(2) by (metis mod_pos_pos_trivial less_imp_le pos_mod_bound zero_less_numeral zero_less_power)
  then show ?thesis using assms
    by (auto simp: serve_gateway_def ServeState_init_def to_uint16_def int_string_inj [of "opt_port o1" "opt_port o1 mod 65536"] split: prod.splits)
qed


theorem announced_port_bounds_witness:
  "\<exists>p. sv_ports (serve_gateway sample_listen (sample_options\<lparr>opt_port := 70000\<rparr>) ServeState_init) = [p] \<and> p < 2 ^ 16 \<and>
     sv_out (serve_gateway sample_listen (sample_options\<lparr>opt_port := 70000\<rparr>) ServeState_init) \<noteq>
       [''gateway listening on 127.0.0.1:'' @ int_string p @ newline]"
proof -
  have "fst (Gateway_start sample_listen new_GatewayServer)" by (simp add: Gateway_start_def open_listener_def sample_listen_def)
  from announced_port_bounds [OF this, of "sample_options\<lparr>opt_port := 70000\<rparr>"] show ?thesis by auto
qed

end
