(* ===== verification/Price_Double.thy ===== *)
theory Price_Double
  imports Risk
begin

text \<open>
  Prices as doubles: \<^verbatim>\<open>Price::to_double\<close> and \<^verbatim>\<open>Price::from_double\<close> of
  \<^verbatim>\<open>include/tt/common/types.hpp\<close>, in the double arithmetic of Risk. The conversion back truncates; outside the
  64-bit range it is undefined: \<^const>\<open>None\<close>.
\<close>

section \<open>Conversions\<close>

definition truncate :: "rat \<Rightarrow> int" where
  "truncate x = (if 0 \<le> x then \<lfloor>x\<rfloor> else \<lceil>x\<rceil>)"

definition Price_to_double :: "Price \<Rightarrow> rat" where
  "Price_to_double p = double (double (of_int (ticks p)) / double (of_int kPriceScale))"

definition Price_from_double :: "rat \<Rightarrow> Price option" where
  "Price_from_double d =
     (let n = truncate (double (d * double (of_int kPriceScale))) in if in_i64 n then Some (Price n) else None)"

section \<open>Rounding errors\<close>

lemma round_half_even_error: "\<bar>of_int (round_half_even x) - x\<bar> \<le> 1 / 2"
proof -
  have "of_int \<lfloor>x\<rfloor> \<le> x" "x < of_int \<lfloor>x\<rfloor> + 1" using floor_correct [of x] by simp_all
  then show ?thesis by (auto simp: round_half_even_def Let_def abs_le_iff)
qed

lemma double_error:
  assumes "0 < x" shows "\<bar>double x - x\<bar> \<le> x / 2 ^ 53"
proof -
  let ?e = "binary_exponent x"
  let ?u = "2 powi (?e - 52) :: rat"
  have u: "0 < ?u" by simp
  have "double x - x = (of_int (round_half_even (x / ?u)) - x / ?u) * ?u" using assms u by (simp add: double_def Let_def field_simps)
  then have "\<bar>double x - x\<bar> = \<bar>of_int (round_half_even (x / ?u)) - x / ?u\<bar> * ?u" using u by (simp add: abs_mult)
  also have "\<dots> \<le> 1 / 2 * ?u" using round_half_even_error u by (intro mult_right_mono) auto
  also have "\<dots> = 2 powi ?e / 2 ^ 53" by (simp add: power_int_diff)
  also have "\<dots> \<le> x / 2 ^ 53" using binary_exponent_le [OF assms] by (simp add: divide_right_mono)
  finally show ?thesis .
qed

lemma truncate_near:
  assumes "\<bar>x - of_int t\<bar> < 1" "0 < t"
  shows "truncate x \<in> {t - 1, t}"
proof -
  have x: "of_int (t - 1) < x" "x < of_int (t + 1)" using assms(1) by (auto simp: abs_less_iff)
  have "0 \<le> x" using x(1) assms(2) by (meson less_imp_le of_int_0_le_iff order_trans zle_diff1_eq)
  moreover have "\<lfloor>x\<rfloor> \<le> t" "t - 1 \<le> \<lfloor>x\<rfloor>" using x by (simp_all add: floor_le_iff le_floor_iff less_imp_le)
  ultimately show ?thesis by (auto simp: truncate_def)
qed

lemma rescale_error:
  assumes t: "0 < t" "t \<le> 10 ^ 12"
  shows "\<bar>double (double (of_int t / 10 ^ 6) * 10 ^ 6) - of_int t\<bar> < 1"
proof -
  let ?a = "of_int t / 10 ^ 6 :: rat"
  let ?d = "double ?a"
  let ?x = "double (?d * 10 ^ 6)"
  have d: "\<bar>?d - ?a\<bar> \<le> ?a / 2 ^ 53" using t by (intro double_error) simp
  let ?t = "of_int t :: rat" and ?D = "?d * 10 ^ 6"
  have pos: "0 < ?t" "?t \<le> 10 ^ 12" using t by (simp, metis of_int_le_iff of_int_numeral of_int_power)
  have D: "\<bar>?D - ?t\<bar> \<le> ?t / 2 ^ 53"
  proof -
    have e: "?D - ?t = (?d - ?a) * 10 ^ 6" by (simp add: algebra_simps)
    have "\<bar>?D - ?t\<bar> = \<bar>?d - ?a\<bar> * \<bar>10 ^ 6\<bar>" unfolding e by (rule abs_mult)
    also have "\<dots> \<le> ?a / 2 ^ 53 * 10 ^ 6" using d pos(1) by (intro mult_mono) simp_all
    finally show ?thesis by simp
  qed
  have "?t / 2 ^ 53 < ?t" using pos by (simp add: divide_less_eq)
  then have D': "0 < ?D" "?D \<le> 2 * ?t" using D unfolding abs_le_iff by linarith+
  have "\<bar>?x - ?D\<bar> \<le> ?D / 2 ^ 53" by (rule double_error [OF D'(1)])
  also have "\<dots> \<le> 2 * ?t / 2 ^ 53" using D'(2) by (rule divide_right_mono) simp
  finally have "\<bar>?x - ?D\<bar> + \<bar>?D - ?t\<bar> \<le> 2 * ?t / 2 ^ 53 + ?t / 2 ^ 53" using D by (rule add_mono)
  moreover have "\<bar>?x - ?t\<bar> \<le> \<bar>?x - ?D\<bar> + \<bar>?D - ?t\<bar>" by linarith
  ultimately have "\<bar>?x - ?t\<bar> \<le> 3 * ?t / 2 ^ 53" by simp
  also have "\<dots> < 1" using pos(2) by simp
  finally show ?thesis .
qed

section \<open>Properties\<close>

text \<open>
  C40. Prices through doubles. A valid price converted to a double and back is a valid 64-bit price at most one
  tick lower. It need not be the same: the product is truncated, not rounded, and 249 ticks come back as 248.
\<close>

theorem price_double_within_a_tick:
  assumes "Price_is_valid p"
  shows "(\<exists>t. Price_from_double (Price_to_double p) = Some (Price t) \<and> t \<in> {ticks p - 1, ticks p}) \<and>
    Price_from_double (Price_to_double (Price 249)) = Some (Price 248)"
proof -
  have ce: "Price_from_double (Price_to_double (Price 249)) = Some (Price 248)" by code_simp
  obtain t where p: "p = Price t" by (cases p)
  have t: "0 \<le> t" "t \<le> 10 ^ 12" using assms by (simp_all add: p Price_is_valid_def kMaxPriceTicks_def)
  have s: "double (of_int kPriceScale) = 10 ^ 6" using double_of_int [of 1000000] by (simp add: kPriceScale_def)
  have i: "double (of_int t) = of_int t" using t by (intro double_of_int) simp_all
  show ?thesis
  proof (cases "t = 0")
    case True
    then show ?thesis using ce by (simp add: p Price_to_double_def Price_from_double_def truncate_def in_i64_def)
  next
    case False
    let ?x = "double (double (of_int t / 10 ^ 6) * 10 ^ 6)"
    have "\<bar>?x - of_int t\<bar> < 1" using t False by (intro rescale_error) simp_all
    then have "truncate ?x \<in> {t - 1, t}" using t False by (intro truncate_near) simp_all
    moreover from this t have "in_i64 (truncate ?x)" by (auto simp: in_i64_def)
    ultimately show ?thesis using ce by (auto simp: p Price_to_double_def Price_from_double_def s i Let_def)
  qed
qed


theorem price_double_within_a_tick_witness:
  "\<exists>t. Price_from_double (Price_to_double (Price 100000000)) = Some (Price t) \<and> t \<in> {99999999, 100000000}"
  using price_double_within_a_tick [of "Price 100000000"] by (auto simp: Price_is_valid_def kMaxPriceTicks_def)

end
