(* ===== verification/Workloads.thy ===== *)
theory Workloads
  imports Simulator
begin

text \<open>
  The two programs that exercise the library: the demonstration of the order book
  (\<^verbatim>\<open>examples/demo_phase1.cpp\<close>) and the scenarios of the benchmark
  (\<^verbatim>\<open>benchmarks/bench_phase1.cpp\<close>). A scenario is one iteration of its timed loop; timing is not modelled.
  The \<open>n\<close>-th engine call of a run has the environment, clock and time stamp of the world's \<open>n\<close>-th call.
\<close>

section \<open>The demonstration\<close>

definition make_limit :: "OrderId \<Rightarrow> Side \<Rightarrow> Price \<Rightarrow> Quantity \<Rightarrow> Sequence \<Rightarrow> Order" where
  "make_limit x side p q sq =
     Order_init\<lparr>o_id := x, o_trader_id := 1, o_instrument_id := 42, o_side := side, o_type := Limit, o_tif := GTC,
       o_price := p, o_quantity := q, o_remaining := q, o_sequence := sq, o_status := StatusNew\<rparr>"

definition demo_orders :: "Order list" where
  "demo_orders =
     [make_limit 1 Buy (Price 100000000) (Quantity 100) 1, make_limit 2 Buy (Price 100000000) (Quantity 200) 2,
      make_limit 3 Buy (Price 99500000) (Quantity 150) 3, make_limit 4 Sell (Price 100500000) (Quantity 100) 4,
      make_limit 5 Sell (Price 100500000) (Quantity 50) 5]"

definition demo_insert :: "Order \<Rightarrow> OrderBook \<Rightarrow> OrderBook option" where
  "demo_insert ord b = map_option snd (OrderBook_insert (Some ord) b)"

definition side_line :: "string \<Rightarrow> Price \<Rightarrow> Quantity \<Rightarrow> nat \<Rightarrow> string" where
  "side_line name p q n =
     ''best '' @ name @ '' = '' @ int_string (ticks p) @ ''  qty = '' @ int_string (qty q) @ ''  levels = '' @ nat_string n @ newline"

definition demo_main :: "string list option" where
  "demo_main =
     do { b \<leftarrow> run_steps demo_insert demo_orders (new_OrderBook 42);
          bq \<leftarrow> best_bid_quantity b;
          aq \<leftarrow> best_ask_quantity b;
          (cancelled, b') \<leftarrow> OrderBook_cancel 2 b;
          bq' \<leftarrow> best_bid_quantity b';
          Some [side_line ''bid'' (best_bid b) bq (bid_level_count b), side_line ''ask'' (best_ask b) aq (ask_level_count b),
                ''total orders resting = '' @ nat_string (total_order_count b) @ newline,
                ''cancel id=2 -> '' @ (if cancelled then ''ok'' else ''fail'') @ ''   best bid qty now = '' @ int_string (qty bq') @ newline] }"

section \<open>The benchmark\<close>

record EngineFixture =
  fx_engine :: Engine
  fx_sink :: CollectingSink

definition new_EngineFixture :: EngineFixture where
  "new_EngineFixture = \<lparr>fx_engine = register_instrument_id 1 new_Engine, fx_sink = \<lparr>cs_trades = [], cs_results = []\<rparr>\<rparr>"

definition bench_submit :: "SimWorld \<Rightarrow> TraderId \<Rightarrow> Side \<Rightarrow> int \<Rightarrow> int \<Rightarrow> EngineFixture \<Rightarrow> EngineFixture option" where
  "bench_submit w trader side p q f =
     (let n = length (cs_results (fx_sink f))
      in do { (e', trace) \<leftarrow> submit_limit (w_env w n) (w_nows w n) (w_stamp w n) 1 trader side (Price p) (Quantity q) GTC (fx_engine f);
              Some \<lparr>fx_engine = e', fx_sink = fold CollectingSink_on (map fst trace) (fx_sink f)\<rparr> })"

definition last_order_id :: "EngineFixture \<Rightarrow> OrderId option" where
  "last_order_id f = (case cs_results (fx_sink f) of [] \<Rightarrow> None | rs \<Rightarrow> Some (sr_order_id (last rs)))"

definition BM_Submit_NoCross :: "SimWorld \<Rightarrow> nat \<Rightarrow> EngineFixture option" where
  "BM_Submit_NoCross w N = run_steps (\<lambda>i. bench_submit w (of_nat i + 1) Buy 100 1) [0..<N] new_EngineFixture"

definition BM_Submit_FullCross :: "SimWorld \<Rightarrow> nat \<Rightarrow> EngineFixture option" where
  "BM_Submit_FullCross w N =
     do { f \<leftarrow> run_steps (\<lambda>i. bench_submit w (of_nat i + 1) Sell 100 1) [0..<N] new_EngineFixture;
          run_steps (\<lambda>i. bench_submit w (of_nat (1000 + i)) Buy 105 1) [0..<N] f }"

definition bench_reset :: "EngineFixture \<Rightarrow> EngineFixture" where
  "bench_reset f = f\<lparr>fx_engine := register_instrument_id 1 (engine_clear (fx_engine f))\<rparr>"

definition BM_Submit_InsertSameLevel :: "SimWorld \<Rightarrow> nat \<Rightarrow> EngineFixture option" where
  "BM_Submit_InsertSameLevel w iterations =
     run_steps (\<lambda>_ f. bench_submit w 1 Buy 100 10 (bench_reset f)) [0..<iterations] new_EngineFixture"

definition modify_iteration :: "SimWorld \<Rightarrow> EngineFixture \<times> OrderId \<Rightarrow> (EngineFixture \<times> OrderId) option" where
  "modify_iteration w st =
     do { (ok, e') \<leftarrow> engine_reduce 1 (snd st) (Quantity 5000) (fx_engine (fst st));
          f' \<leftarrow> bench_submit w 1 Sell 100 10000 (bench_reset ((fst st)\<lparr>fx_engine := e'\<rparr>));
          resting_id \<leftarrow> last_order_id f';
          Some (f', resting_id) }"

definition BM_Modify_Reduce :: "SimWorld \<Rightarrow> nat \<Rightarrow> (EngineFixture \<times> OrderId) option" where
  "BM_Modify_Reduce w iterations =
     do { f \<leftarrow> bench_submit w 1 Sell 100 10000 new_EngineFixture;
          resting_id \<leftarrow> last_order_id f;
          run_steps (\<lambda>_. modify_iteration w) [0..<iterations] (f, resting_id) }"

definition cancel_head_insert :: "SimWorld \<Rightarrow> nat \<Rightarrow> EngineFixture \<times> OrderId list \<Rightarrow> (EngineFixture \<times> OrderId list) option" where
  "cancel_head_insert w i st =
     do { f' \<leftarrow> bench_submit w (of_nat i + 1) Buy 100 1 (fst st);
          x \<leftarrow> last_order_id f';
          Some (f', snd st @ [x]) }"

definition BM_Cancel_Head :: "SimWorld \<Rightarrow> nat \<Rightarrow> (bool \<times> EngineFixture) option" where
  "BM_Cancel_Head w N =
     do { (f, ids) \<leftarrow> run_steps (cancel_head_insert w) [0..<N] (new_EngineFixture, []);
          front \<leftarrow> (case ids of [] \<Rightarrow> None | x # _ \<Rightarrow> Some x);
          (ok, e') \<leftarrow> engine_cancel 1 front (fx_engine f);
          Some (ok, f\<lparr>fx_engine := e'\<rparr>) }"

definition spam_iteration :: "SimWorld \<Rightarrow> EngineFixture \<Rightarrow> EngineFixture option" where
  "spam_iteration w f =
     do { f' \<leftarrow> bench_submit w 1 Buy 100 10 f;
          x \<leftarrow> last_order_id f';
          (ok, e') \<leftarrow> engine_cancel 1 x (fx_engine f');
          Some (f'\<lparr>fx_engine := e'\<rparr>) }"

definition BM_SubmitThenCancel :: "SimWorld \<Rightarrow> nat \<Rightarrow> EngineFixture option" where
  "BM_SubmitThenCancel w iterations = run_steps (\<lambda>_. spam_iteration w) [0..<iterations] new_EngineFixture"

text \<open>
  The market of a scenario: \<open>m\<close> orders for \<open>q\<close> units at 100 on one side, nothing on the other, \<open>n\<close> the next
  sequence number, which lies above all ids.
\<close>

definition bench_market :: "int \<Rightarrow> bool \<Rightarrow> nat \<Rightarrow> nat \<Rightarrow> Engine \<Rightarrow> bool" where
  "bench_market q s m n e \<longleftrightarrow> engine_ok e \<and> risk_gate e = None \<and> ids_below e \<and> next_sequence e = of_nat n \<and>
     (case books e 1 of None \<Rightarrow> False
      | Some b \<Rightarrow> resting (\<not> s) b = [] \<and> length (resting s b) = m \<and>
          (\<forall>ro \<in> set (resting s b). o_price ro = Price 100 \<and> o_remaining ro = Quantity q))"

section \<open>Values used in the proofs\<close>

definition demo_final :: OrderBook where
  "demo_final = the (run_steps demo_insert demo_orders (new_OrderBook 42))"

definition bench_order :: "Timestamp \<Rightarrow> TraderId \<Rightarrow> Side \<Rightarrow> int \<Rightarrow> int \<Rightarrow> Order" where
  "bench_order now trader side p q =
     Order_init\<lparr>o_id := 0, o_trader_id := trader, o_instrument_id := 1, o_side := side, o_type := Limit, o_tif := GTC,
       o_price := Price p, o_quantity := Quantity q, o_remaining := Quantity q, o_timestamp := now\<rparr>"

section \<open>Lemmas\<close>

lemma demo_insert_step: "demo_insert ord b = book_step demo_env (InsertOrder ord) b"
  by (simp add: demo_insert_def book_step_def)

lemma demo_insert_run: "run_steps demo_insert ords b = run_steps (book_step demo_env) (map InsertOrder ords) b"
  by (induction ords arbitrary: b) (simp_all add: demo_insert_step split: option.splits)

lemma demo_admissible_inserts: "admissible (book_step demo_env) book_cmd_ok (map InsertOrder demo_orders) (new_OrderBook 42)"
  by code_simp

lemma demo_final_book:
  "run_steps demo_insert demo_orders (new_OrderBook 42) = Some demo_final" "dom (id_index demo_final) = {1, 2, 3, 4, 5}"
proof -
  have "admissible (book_step demo_env) (\<lambda>c b. freed_price_intact demo_env \<and> book_cmd_ok c b) (map InsertOrder demo_orders) (new_OrderBook 42)"
    by (rule admissible_mono [OF demo_admissible_inserts]) simp
  from book.run_refines [OF book_inv_new this] obtain b where
    b: "run_steps (book_step demo_env) (map InsertOrder demo_orders) (new_OrderBook 42) = Some b"
      "abs_book b = fold spec_step (map InsertOrder demo_orders) (abs_book (new_OrderBook 42))" by blast
  then show run: "run_steps demo_insert demo_orders (new_OrderBook 42) = Some demo_final" by (simp add: demo_insert_run demo_final_def)
  have "dom (aorders (abs_book b)) = {1, 2, 3, 4, 5}"
    unfolding b(2)
    by (simp add: demo_orders_def make_limit_def spec_step_def enqueue_def order_ok_def abs_orders new_OrderBook_def Order_init_def
        is_open_def is_limit_def Price_is_valid_def Quantity_is_valid_def domain_defs) (auto simp: abs_orders)
  moreover have "dom (aorders (abs_book b)) = dom (id_index b)" by (auto simp: abs_orders dom_def)
  ultimately show "dom (id_index demo_final) = {1, 2, 3, 4, 5}" using b(1) run by (simp add: demo_insert_run)
qed

lemma demo_values:
  "best_bid_quantity demo_final = Some (Quantity 300)" "best_ask_quantity demo_final = Some (Quantity 150)"
  "best_bid demo_final = Price 100000000" "best_ask demo_final = Price 100500000"
  "bid_level_count demo_final = 2" "ask_level_count demo_final = 1"
  "map_option fst (OrderBook_cancel 2 demo_final) = Some True"
  "Option.bind (OrderBook_cancel 2 demo_final) (\<lambda>(c, b). best_bid_quantity b) = Some (Quantity 100)"
  by code_simp+

lemma digits: "digit_char 0 = CHR ''0''" "digit_char (Suc 0) = CHR ''1''" "digit_char 2 = CHR ''2''" "digit_char 3 = CHR ''3''" "digit_char 5 = CHR ''5''"
  by code_simp+

text \<open>What the demonstration prints.\<close>

theorem demo_prints:
  "demo_main = Some [''best bid = 100000000  qty = 300  levels = 2'' @ newline, ''best ask = 100500000  qty = 150  levels = 1'' @ newline,
     ''total orders resting = 5'' @ newline, ''cancel id=2 -> ok   best bid qty now = 100'' @ newline]"
proof -
  have "card {1, 2, 3, 4, 5 :: 64 word} = 5" by simp
  then have n: "total_order_count demo_final = 5" by (simp add: total_order_count_def demo_final_book(2))
  obtain b' where c: "OrderBook_cancel 2 demo_final = Some (True, b')" "best_bid_quantity b' = Some (Quantity 100)"
    using demo_values(7,8) by auto
  have lines: "side_line ''bid'' (Price 100000000) (Quantity 300) 2 = ''best bid = 100000000  qty = 300  levels = 2'' @ newline"
    "side_line ''ask'' (Price 100500000) (Quantity 150) (Suc 0) = ''best ask = 100500000  qty = 150  levels = 1'' @ newline"
    "nat_string 5 = ''5''" "int_string 100 = ''100''"
    by (simp_all add: side_line_def int_string_def nat_string.simps digits)
  show ?thesis by (simp add: demo_main_def demo_final_book(1) demo_values(1-6) n c lines)
qed


section \<open>The scenarios\<close>

lemma bench_order_simps [simp]:
  "o_id (bench_order ts tr sd p q) = kInvalidOrderId" "o_instrument_id (bench_order ts tr sd p q) = 1" "o_side (bench_order ts tr sd p q) = sd"
  "o_type (bench_order ts tr sd p q) = Limit" "o_tif (bench_order ts tr sd p q) = GTC" "o_price (bench_order ts tr sd p q) = Price p"
  "o_quantity (bench_order ts tr sd p q) = Quantity q" "o_remaining (bench_order ts tr sd p q) = Quantity q"
  "is_open (bench_order ts tr sd p q)" "is_limit (bench_order ts tr sd p q)" "is_buy (bench_order ts tr sd p q) \<longleftrightarrow> sd = Buy"
  by (simp_all add: bench_order_def Order_init_def is_open_def is_limit_def is_buy_def kInvalidOrderId_def)

lemma bench_valid:
  assumes "books e 1 \<noteq> None" "0 \<le> p" "p \<le> 1000000000000" "0 < q" "q \<le> 1000000000000" "risk_gate e = None"
  shows "valid_submission (bench_order ts tr sd p q) e" "admitted nows (bench_order ts tr sd p q) e"
  using assms by (auto simp: valid_submission_def admitted_def kInvalidInstrumentId_def Quantity_is_valid_def Price_is_valid_def kMaxQuantity_def
      kMaxPriceTicks_def in_i64_def consult_gate_def risk_accept_def RiskDecision_ok_def)

lemma place_behind: "(\<And>y. y \<in> set ys \<Longrightarrow> o_price y = o_price x) \<Longrightarrow> place s x ys = ys @ [x]"
  by (induction ys) simp_all

lemma bench_rest:
  assumes m: "bench_market q (sd = Buy) m n e" and n: "0 < n" "n + 1 < 2 ^ 64" and env: "freed_price_intact env" and q: "0 < q" "q \<le> 1000000000000"
  shows "\<exists>e' trace r. submit_limit env nows now 1 trader sd (Price 100) (Quantity q) GTC e = Some (e', trace) \<and>
    bench_market q (sd = Buy) (Suc m) (Suc n) e' \<and> cs_trades (collect trace) = [] \<and> cs_results (collect trace) = [r] \<and> sr_status r = Accepted"
proof -
  let ?ord = "bench_order now trader sd 100 q"
  from m obtain b where b: "books e 1 = Some b" "resting (sd \<noteq> Buy) b = []" "length (resting (sd = Buy) b) = m"
    "\<forall>ro \<in> set (resting (sd = Buy) b). o_price ro = Price 100 \<and> o_remaining ro = Quantity q"
    and e: "engine_ok e" "risk_gate e = None" "ids_below e" "next_sequence e = of_nat n"
    by (auto simp: bench_market_def split: option.splits)
  have v: "valid_submission ?ord e" "admitted nows ?ord e" using b e q by (auto intro!: bench_valid)
  have bo: "books e (o_instrument_id ?ord) = Some b" using b by simp
  let ?tk = "taker_of ?ord e"
  have none: "taker_fills ?tk b = []" "other_side_left ?tk b = []" using b(2) by (simp_all add: taker_fills_def other_side_left_def)
  have nat: "unat (next_sequence e) = n" using n e by (simp add: unat_of_nat take_bit_eq_mod)
  have old: "unat (o_id ro) < n" if "ro \<in> set (resting t b)" for ro t using e(3) b(1) that nat by (auto simp: ids_below_def)
  have fresh: "next_sequence e \<notin> o_id ` set (resting t b)" for t using old nat by (metis imageE less_irrefl)
  have binv: "book_inv b" using e b by (auto simp: engine_ok_def book_ok_def)
  have rests: "comes_to_rest (matched ?tk b) (resting (is_buy ?ord) b) (other_side_left ?tk b)"
    by (rule auto_id_rests [OF binv v(2)]) (use n nat fresh q in \<open>auto simp: none matched_fields(3)\<close>)
  obtain e' trace b' where sub: "submit env nows (Some ?ord) e = Some (e', trace)"
    "cs_trades (collect trace) = trades_of env ?tk (next_sequence e + 1) (taker_fills ?tk b)"
    "cs_results (collect trace) = [outcome (result_header ?tk
       (SubmitResult_init\<lparr>sr_order_id := o_id ?tk, sr_instrument_id := o_instrument_id ?tk\<rparr>)) (matched ?tk b)
       (comes_to_rest (matched ?tk b) (resting (is_buy ?ord) b) (other_side_left ?tk b))]"
    "books e' = (books e)(o_instrument_id ?ord \<mapsto> b')"
    "next_sequence e' = next_sequence e + 1 + of_nat (length (taker_fills ?tk b))"
    "resting (\<not> is_buy ?ord) b' = other_side_left ?tk b"
    "resting (is_buy ?ord) b' = (if comes_to_rest (matched ?tk b) (resting (is_buy ?ord) b) (other_side_left ?tk b)
       then place (is_buy ?ord) (strip (matched ?tk b)) (resting (is_buy ?ord) b) else resting (is_buy ?ord) b)" by (rule submit_spec [OF e(1) v(2) env bo]) (rule that)
  let ?new = "strip (matched ?tk b)"
  have new: "o_price ?new = Price 100" "o_remaining ?new = Quantity q" "o_id ?new = next_sequence e"
    by (simp_all add: matched_def none) (simp add: taker_of_def sequenced_def with_id_def)
  have sides: "resting (sd \<noteq> Buy) b' = []" "resting (sd = Buy) b' = resting (sd = Buy) b @ [?new]"
    using sub(6,7) rests none b(4) new(1) by (simp_all add: place_behind)
  have seq: "next_sequence e' = of_nat (Suc n)" using sub(5) e(4) by (simp add: none)
  then have seq': "unat (next_sequence e') = Suc n" using n(2) unat_add_no_wrap [of 0 "Suc n"] by simp
  have "\<forall>t. \<forall>ro \<in> set (resting t b'). unat (o_id ro) \<le> unat (next_sequence e)"
  proof (intro allI ballI)
    fix t ro assume "ro \<in> set (resting t b')"
    then have "ro \<in> set (resting (sd = Buy) b) \<or> ro = ?new" using sides by (cases "t = (sd = Buy)") auto
    then show "unat (o_id ro) \<le> unat (next_sequence e)" using old [of ro "sd = Buy"] nat new(3) by auto
  qed
  then have "ids_below e'" using ids_below_update [OF e(3) _ sub(4)] seq' nat by simp
  moreover have "engine_ok e' \<and> risk_gate e' = None" using submit_ungated [OF e(1,2) v(1) _ _ env, of nows] sub(1) q by (auto simp: in_i64_def)
  moreover have "books e' 1 = Some b'" using sub(4) by simp
  ultimately have "bench_market q (sd = Buy) (Suc m) (Suc n) e'" using seq sides b(3,4) new by (auto simp: bench_market_def)
  moreover have "sr_status (outcome r (matched ?tk b) True) = Accepted" for r
    using q by (simp add: outcome_def matched_fields(3) none is_limit_is_market)
  ultimately show ?thesis using sub(1-3) rests none by (simp add: submit_limit_def bench_order_def)
qed


lemma bench_cross:
  assumes m: "bench_market 1 False (Suc m) n e" and n: "0 < n" "n + 2 < 2 ^ 64" and env: "freed_price_intact env"
  shows "\<exists>e' trace t r. submit_limit env nows now 1 trader Buy (Price 105) (Quantity 1) GTC e = Some (e', trace) \<and>
    bench_market 1 False m (n + 2) e' \<and> cs_trades (collect trace) = [t] \<and> t_price t = Price 100 \<and> t_quantity t = Quantity 1 \<and>
    cs_results (collect trace) = [r] \<and> sr_status r = FullyFilled"
proof -
  let ?ord = "bench_order now trader Buy 105 1"
  from m obtain b where b0: "books e 1 = Some b" "resting True b = []" "length (resting False b) = Suc m"
    "\<forall>ro' \<in> set (resting False b). o_price ro' = Price 100 \<and> o_remaining ro' = Quantity 1"
    and e: "engine_ok e" "risk_gate e = None" "ids_below e" "next_sequence e = of_nat n"
    by (auto simp: bench_market_def simp del: resting_length split: option.splits)
  obtain ro os where os: "resting False b = ro # os" "length os = m" using b0(3) by (cases "resting False b") (simp_all del: resting_length)
  note b = b0(1,2) os b0(4) [unfolded os(1)]
  have v: "valid_submission ?ord e" "admitted nows ?ord e" using b e by (auto intro!: bench_valid)
  have bo: "books e (o_instrument_id ?ord) = Some b" using b by simp
  let ?tk = "taker_of ?ord e"
  have acc: "acceptable_to ?tk (o_price ro)" using b(5) by (simp add: acceptable_to_def crosses_def)
  have fill: "taker_fills ?tk b = [(ro, 1)]" "other_side_left ?tk b = os" "qty (o_remaining (matched ?tk b)) = 0"
    using acc b(3,5) by (simp_all add: taker_fills_def other_side_left_def matched_fields(3) Let_def)
  have rests: "\<not> comes_to_rest (matched ?tk b) own other" for own other by (simp add: comes_to_rest_def fill)
  have nat: "unat (next_sequence e) = n" using n e by (simp add: unat_of_nat take_bit_eq_mod)
  have old: "unat (o_id ro') < n" if "ro' \<in> set (ro # os)" for ro'
    using e(3) b(1) that nat unfolding ids_below_def b(3) [symmetric] by auto
  obtain e' trace b' where sub: "submit env nows (Some ?ord) e = Some (e', trace)"
    "cs_trades (collect trace) = trades_of env ?tk (next_sequence e + 1) (taker_fills ?tk b)"
    "cs_results (collect trace) = [outcome (result_header ?tk
       (SubmitResult_init\<lparr>sr_order_id := o_id ?tk, sr_instrument_id := o_instrument_id ?tk\<rparr>)) (matched ?tk b)
       (comes_to_rest (matched ?tk b) (resting (is_buy ?ord) b) (other_side_left ?tk b))]"
    "books e' = (books e)(o_instrument_id ?ord \<mapsto> b')"
    "next_sequence e' = next_sequence e + 1 + of_nat (length (taker_fills ?tk b))"
    "resting (\<not> is_buy ?ord) b' = other_side_left ?tk b"
    "resting (is_buy ?ord) b' = (if comes_to_rest (matched ?tk b) (resting (is_buy ?ord) b) (other_side_left ?tk b)
       then place (is_buy ?ord) (strip (matched ?tk b)) (resting (is_buy ?ord) b) else resting (is_buy ?ord) b)" by (rule submit_spec [OF e(1) v(2) env bo]) (rule that)
  have sides: "resting False b' = os" "resting True b' = []" using sub(6,7) rests fill b(2) by simp_all
  have seq: "next_sequence e' = of_nat (n + 2)" using sub(5) e(4) by (simp add: fill)
  then have seq': "unat (next_sequence e') = n + 2" using n(2) unat_add_no_wrap [of 0 "n + 2"] by simp
  have "unat (o_id ro') \<le> unat (next_sequence e)" if "ro' \<in> set (resting t b')" for t ro'
    using that old [of ro'] sides nat by (cases t) auto
  then have "ids_below e'" using ids_below_update [OF e(3) _ sub(4)] seq' nat by simp
  moreover have "engine_ok e' \<and> risk_gate e' = None" using submit_ungated [OF e(1,2) v(1) _ _ env, of nows] sub(1) by (auto simp: in_i64_def)
  moreover have "books e' 1 = Some b'" using sub(4) by simp
  ultimately have "bench_market 1 False m (n + 2) e'" using seq sides b(4,5) by (auto simp: bench_market_def)
  moreover have "t_price (trade_of env ?tk x (ro, 1)) = Price 100" "t_quantity (trade_of env ?tk x (ro, 1)) = Quantity 1" for x
    using b(5) trade_of_fields(1) [of env ?tk x ro 1] by (simp_all add: trade_of_fields Quantity.expand)
  moreover have "sr_status (outcome r (matched ?tk b) x) = FullyFilled" for r x by (simp add: outcome_def fill)
  moreover have "cs_trades (collect trace) = [trade_of env ?tk (next_sequence e + 1) (ro, 1)]" using sub(2) by (simp add: fill)
  moreover have "submit_limit env nows now 1 trader Buy (Price 105) (Quantity 1) GTC e = Some (e', trace)"
    using sub(1) by (simp add: submit_limit_def bench_order_def)
  ultimately show ?thesis using sub(3) by blast
qed

lemma collect_fold: "fold CollectingSink_on (map fst trace) k = \<lparr>cs_trades = cs_trades k @ cs_trades (collect trace), cs_results = cs_results k @ cs_results (collect trace)\<rparr>"
proof -
  have "fold CollectingSink_on evs k = \<lparr>cs_trades = cs_trades k @ cs_trades (fold CollectingSink_on evs \<lparr>cs_trades = [], cs_results = []\<rparr>),
      cs_results = cs_results k @ cs_results (fold CollectingSink_on evs \<lparr>cs_trades = [], cs_results = []\<rparr>)\<rparr>" for evs
  proof (induction evs rule: rev_induct)
    case (snoc ev evs)
    then show ?case by (cases ev) simp_all
  qed simp
  then show ?thesis by (simp add: collect_def)
qed

lemma bench_rests:
  assumes "bench_market q (sd = Buy) m n (fx_engine f)" "0 < n" "n + length is < 2 ^ 64" "\<forall>k. freed_price_intact (w_env w k)" "0 < q" "q \<le> 1000000000000"
  shows "\<exists>f' rs. run_steps (\<lambda>i. bench_submit w (g i) sd 100 q) is f = Some f' \<and> bench_market q (sd = Buy) (m + length is) (n + length is) (fx_engine f') \<and>
    fx_sink f' = \<lparr>cs_trades = cs_trades (fx_sink f), cs_results = cs_results (fx_sink f) @ rs\<rparr> \<and> map sr_status rs = replicate (length is) Accepted"
  using assms(1-3)
proof (induction "is" arbitrary: f m n)
  case Nil
  then show ?case by (intro exI [of _ f] exI [of _ "[]"]) simp
next
  case (Cons i "is")
  let ?k = "length (cs_results (fx_sink f))"
  from bench_rest [OF Cons.prems(1,2), of "w_env w ?k" "w_nows w ?k" "w_stamp w ?k" "g i"] Cons.prems(3) assms(4-6) obtain e' trace r where
    s: "submit_limit (w_env w ?k) (w_nows w ?k) (w_stamp w ?k) 1 (g i) sd (Price 100) (Quantity q) GTC (fx_engine f) = Some (e', trace)"
      "bench_market q (sd = Buy) (Suc m) (Suc n) e'" "cs_trades (collect trace) = []" "cs_results (collect trace) = [r]" "sr_status r = Accepted" by auto
  let ?f = "\<lparr>fx_engine = e', fx_sink = fold CollectingSink_on (map fst trace) (fx_sink f)\<rparr>"
  have step: "bench_submit w (g i) sd 100 q f = Some ?f" using s(1) by (simp add: bench_submit_def Let_def)
  from Cons.IH [of "Suc m" "Suc n" ?f] s(2) Cons.prems(3) obtain f' rs where
    "run_steps (\<lambda>i. bench_submit w (g i) sd 100 q) is ?f = Some f'" "bench_market q (sd = Buy) (Suc m + length is) (Suc n + length is) (fx_engine f')"
    "fx_sink f' = \<lparr>cs_trades = cs_trades (fx_sink ?f), cs_results = cs_results (fx_sink ?f) @ rs\<rparr>" "map sr_status rs = replicate (length is) Accepted" by auto
  with step s(3-5) show ?case by (intro exI [of _ f'] exI [of _ "r # rs"]) (simp add: collect_fold)
qed

lemma bench_crosses:
  assumes "bench_market 1 False (m + length is) n (fx_engine f)" "0 < n" "n + 2 * length is < 2 ^ 64" "\<forall>k. freed_price_intact (w_env w k)"
  shows "\<exists>f' ts rs. run_steps (\<lambda>i. bench_submit w (g i) Buy 105 1) is f = Some f' \<and>
    bench_market 1 False m (n + 2 * length is) (fx_engine f') \<and>
    fx_sink f' = \<lparr>cs_trades = cs_trades (fx_sink f) @ ts, cs_results = cs_results (fx_sink f) @ rs\<rparr> \<and>
    map (\<lambda>t. (t_price t, t_quantity t)) ts = replicate (length is) (Price 100, Quantity 1) \<and>
    map sr_status rs = replicate (length is) FullyFilled"
  using assms(1-3)
proof (induction "is" arbitrary: f n)
  case Nil
  then show ?case by (intro exI [of _ f] exI [of _ "[]"]) simp
next
  case (Cons i "is")
  let ?k = "length (cs_results (fx_sink f))"
  have m: "bench_market 1 False (Suc (m + length is)) n (fx_engine f)" using Cons.prems(1) by simp
  from bench_cross [OF m Cons.prems(2), of "w_env w ?k" "w_nows w ?k" "w_stamp w ?k" "g i"] Cons.prems(3) assms(4) obtain e' trace t r where
    s: "submit_limit (w_env w ?k) (w_nows w ?k) (w_stamp w ?k) 1 (g i) Buy (Price 105) (Quantity 1) GTC (fx_engine f) = Some (e', trace)"
      "bench_market 1 False (m + length is) (n + 2) e'" "cs_trades (collect trace) = [t]" "t_price t = Price 100" "t_quantity t = Quantity 1"
      "cs_results (collect trace) = [r]" "sr_status r = FullyFilled" by auto
  let ?f = "\<lparr>fx_engine = e', fx_sink = fold CollectingSink_on (map fst trace) (fx_sink f)\<rparr>"
  have step: "bench_submit w (g i) Buy 105 1 f = Some ?f" using s(1) by (simp add: bench_submit_def Let_def)
  from Cons.IH [of "n + 2" ?f] s(2) Cons.prems(3) obtain f' ts rs where
    "run_steps (\<lambda>i. bench_submit w (g i) Buy 105 1) is ?f = Some f'" "bench_market 1 False m (n + 2 + 2 * length is) (fx_engine f')"
    "fx_sink f' = \<lparr>cs_trades = cs_trades (fx_sink ?f) @ ts, cs_results = cs_results (fx_sink ?f) @ rs\<rparr>"
    "map (\<lambda>t. (t_price t, t_quantity t)) ts = replicate (length is) (Price 100, Quantity 1)"
    "map sr_status rs = replicate (length is) FullyFilled" by auto
  with step s(3-7) have "run_steps (\<lambda>i. bench_submit w (g i) Buy 105 1) (i # is) f = Some f' \<and>
    bench_market 1 False m (n + 2 * length (i # is)) (fx_engine f') \<and>
    fx_sink f' = \<lparr>cs_trades = cs_trades (fx_sink f) @ (t # ts), cs_results = cs_results (fx_sink f) @ (r # rs)\<rparr> \<and>
    map (\<lambda>t. (t_price t, t_quantity t)) (t # ts) = replicate (length (i # is)) (Price 100, Quantity 1) \<and>
    map sr_status (r # rs) = replicate (length (i # is)) FullyFilled" by (simp add: collect_fold)
  then show ?case by blast
qed

lemma bench_market_fresh:
  "bench_market q s 0 1 (fx_engine new_EngineFixture)"
  "bench_market q s m n (fx_engine f) \<Longrightarrow> bench_market q s' 0 1 (fx_engine (bench_reset f))"
  by (auto simp: bench_market_def new_EngineFixture_def bench_reset_def register_instrument_id_def engine_clear_def new_Engine_def Let_def
      ids_below_def engine_ok_def book_ok_new split: option.splits)

text \<open>
  The matching scenario of the benchmark: N resting offers of one unit at 100 and N buyers at 105 make N trades, each of
  one unit and each at the resting price, every buyer is filled, nothing is left in the book, and the ids
  1 to 3N are given away.
\<close>

theorem full_cross_trades:
  assumes "\<forall>k. freed_price_intact (w_env w k)" "1 + 3 * N < 2 ^ 64"
  shows "\<exists>f. BM_Submit_FullCross w N = Some f \<and>
    map (\<lambda>t. (t_price t, t_quantity t)) (cs_trades (fx_sink f)) = replicate N (Price 100, Quantity 1) \<and>
    map sr_status (cs_results (fx_sink f)) = replicate N Accepted @ replicate N FullyFilled \<and>
    bench_market 1 False 0 (1 + 3 * N) (fx_engine f)"
proof -
  have "bench_market 1 (Sell = Buy) 0 1 (fx_engine new_EngineFixture)" by (rule bench_market_fresh)
  from bench_rests [OF this _ _ assms(1), of "[0..<N]" "\<lambda>i. of_nat i + 1"] assms(2) obtain f rs where
    f: "run_steps (\<lambda>i. bench_submit w (of_nat i + 1) Sell 100 1) [0..<N] new_EngineFixture = Some f"
      "bench_market 1 False N (1 + N) (fx_engine f)" "fx_sink f = \<lparr>cs_trades = [], cs_results = rs\<rparr>" "map sr_status rs = replicate N Accepted"
    by (auto simp: new_EngineFixture_def)
  have "bench_market 1 False (0 + length [0..<N]) (1 + N) (fx_engine f)" using f(2) by simp
  from bench_crosses [OF this _ _ assms(1), of "\<lambda>i. of_nat (1000 + i)"] assms(2) obtain f' ts rs' where
    "run_steps (\<lambda>i. bench_submit w (of_nat (1000 + i)) Buy 105 1) [0..<N] f = Some f'" "bench_market 1 False 0 (1 + N + 2 * N) (fx_engine f')"
    "fx_sink f' = \<lparr>cs_trades = ts, cs_results = rs @ rs'\<rparr>" "map (\<lambda>t. (t_price t, t_quantity t)) ts = replicate N (Price 100, Quantity 1)"
    "map sr_status rs' = replicate N FullyFilled" by (auto simp: f(3))
  then show ?thesis using f by (auto simp: BM_Submit_FullCross_def)
qed

text \<open>
  The insertion scenario clears the engine in every iteration, so its price level never holds a second order:
  however many iterations ran, exactly one order rests.
\<close>

theorem same_level_never_grows:
  assumes "\<forall>k. freed_price_intact (w_env w k)" "0 < iterations"
  shows "\<exists>f. BM_Submit_InsertSameLevel w iterations = Some f \<and> bench_market 10 True 1 2 (fx_engine f) \<and>
    map sr_status (cs_results (fx_sink f)) = replicate iterations Accepted"
  using assms(2)
proof (induction iterations)
  case (Suc k)
  let ?g = "\<lambda>(i::nat) f. bench_submit w 1 Buy 100 10 (bench_reset f)"
  obtain f m n where f: "run_steps ?g [0..<k] new_EngineFixture = Some f" "bench_market 10 True m n (fx_engine f)"
    "map sr_status (cs_results (fx_sink f)) = replicate k Accepted"
  proof (cases k)
    case 0
    have "bench_market 10 True 0 1 (fx_engine new_EngineFixture)" by (rule bench_market_fresh)
    then show thesis using that [of new_EngineFixture 0 1] 0 by (simp add: new_EngineFixture_def)
  next
    case (Suc j)
    with Suc.IH show thesis using that by (auto simp: BM_Submit_InsertSameLevel_def)
  qed
  have "bench_market 10 (Buy = Buy) 0 1 (fx_engine (bench_reset f))" by (rule bench_market_fresh(2) [OF f(2)])
  from bench_rests [OF this _ _ assms(1), of "[0::nat]" "\<lambda>_. 1"] obtain f' rs where
    "bench_submit w 1 Buy 100 10 (bench_reset f) = Some f'" "bench_market 10 True 1 2 (fx_engine f')"
    "fx_sink f' = \<lparr>cs_trades = cs_trades (fx_sink (bench_reset f)), cs_results = cs_results (fx_sink (bench_reset f)) @ rs\<rparr>" "map sr_status rs = [Accepted]"
    by (auto simp: Suc_1 simp flip: numeral_2_eq_2 split: option.splits)
  with f show ?case by (auto simp: BM_Submit_InsertSameLevel_def run_steps_append bench_reset_def replicate_append_same)
qed simp

end
