(* ===== verification/Spec2Isabelle.thy ===== *)
theory Spec2Isabelle
  imports Engine_Properties Book_Properties Event_Log Gateway Pool_Runs Ws_Stop Metrics Structured_Log Replay Sim_Server Price_Double Workloads
begin

text \<open>
  A verification of TraderTwo, a limit-order matching engine in C++ with risk checks, market data, an
  event log, a TCP and a WebSocket interface, worker threads and observability. File names below are
  those under \<^verbatim>\<open>src/\<close> of the repository; a header is under \<^verbatim>\<open>include/tt/\<close>, its
  implementation under \<^verbatim>\<open>src/\<close>.

  \<^bold>\<open>The program.\<close> An order reaches \<^verbatim>\<open>MatchingEngine::submit\<close>, from a gateway or a worker. The
  engine validates it, asks the risk gate, gives it a sequence number, matches it against the other
  side of the instrument's \<^verbatim>\<open>OrderBook\<close> and rests what is left, telling a \<^verbatim>\<open>TradeSink\<close> of every
  trade and of the result. Sinks feed the publisher of market data, the event log, the metrics, the
  replies of the gateways and the outbound queue of a worker.

  \<^bold>\<open>The theories.\<close>
  \<^item> Prelude: ordered maps, 64-bit signed arithmetic, decimal texts, and the two interfaces the
    development rests on: \<^verbatim>\<open>guarded_machine\<close> (an operation that is defined and keeps an invariant
    under a guard, hence so do runs) and \<^verbatim>\<open>refinement\<close> (a machine that simulates an abstract one). Both are
    interpreted on the book, the engine, the worker, the pool, the WebSocket gateway and its tables.
  \<^item> Domain (\<^verbatim>\<open>common/types\<close>, \<^verbatim>\<open>common/instrument\<close>, \<^verbatim>\<open>core/order\<close>): ids, prices, quantities, orders, trades;
    Price_Double: prices through doubles.
  \<^item> Level, Order_Book (\<^verbatim>\<open>orderbook/order_book\<close>): the linked list of a price level, the ladders, the level
    storage, the id index, and every operation of the book. Book_Refinement shows that they
    implement two queues sorted by price and time; Book_Properties states what follows.
  \<^item> Risk (\<^verbatim>\<open>risk/risk\<close>): the checks, the token bucket, the gate.
  \<^item> Engine (\<^verbatim>\<open>matching/matching_engine\<close>): the engine. Matching proves that the loop is the
    reference price-time matcher, Submission treats a whole submission and the invariant of the
    engine, Engine_Properties states the results; Market_Example is a small market for witnesses.
  \<^item> Market_Data (\<^verbatim>\<open>market_data/events\<close>, \<^verbatim>\<open>publisher\<close>, \<^verbatim>\<open>recorder\<close>): snapshot cache, event ring, listeners.
  \<^item> Event_Log (\<^verbatim>\<open>persistence/event_log\<close>): the binary format, the log, the persisting sink, replay. Replay
    composes them with the engine: a recorded session and its replay.
  \<^item> Protocol, Gateway (\<^verbatim>\<open>networking/protocol\<close>, \<^verbatim>\<open>networking/gateway\<close>): the line protocol and
    the TCP connection loop.
  \<^item> Queues, Worker_Pool (\<^verbatim>\<open>concurrency/spsc_queue\<close>, \<^verbatim>\<open>concurrency/worker_pool\<close>): the lock-free ring as a step
    relation over single loads and stores, the locked ring, the worker thread and its stop protocol. Pool_Runs: a
    pool of workers on a shared outbound queue, all threads interleaved.
  \<^item> Web_Socket, Ws_Commands, Ws_Gateway (\<^verbatim>\<open>networking/ws_server\<close>, \<^verbatim>\<open>networking/ws_gateway\<close>): Base64, the
    handshake, frames, the lookup of JSON fields, the command dispatch, peers and their tables, the
    four commands, market data for every peer, and a connection from its request to its end.
  \<^item> Server_Lifecycle (\<^verbatim>\<open>Gateway::start\<close>, \<^verbatim>\<open>accept_loop\<close>, \<^verbatim>\<open>stop\<close>, \<^verbatim>\<open>WsServer::start\<close>): opening the listener,
    the accept and client threads of the TCP gateway and the thread that stops it as interleaved actions, with
    all descriptors; its locale \<^verbatim>\<open>ending_machine\<close> (a measure that every action decreases, and some action until
    the end) is interpreted on the stopping gateway.
  \<^item> Ws_Threads (\<^verbatim>\<open>WsServer::accept_loop\<close>, \<open>serve_peer\<close>, \<open>stop\<close>): the WebSocket server with the accept thread, a thread for each peer, the
    thread that stops it and the shared engine behind its mutex, as interleaved actions. Ws_Stop: what a stop waits for, with blocking sends, and how it
    ends, by a second interpretation of \<^verbatim>\<open>ending_machine\<close>.
  \<^item> Simulator (\<^verbatim>\<open>examples/simulator.cpp\<close>): the command-line driver over engine, sinks and event log.
    Sim_Server: script mode as engine commands, and the servers it starts and stops.
  \<^item> Workloads (\<^verbatim>\<open>examples/demo_phase1.cpp\<close>, \<^verbatim>\<open>benchmarks/bench_phase1.cpp\<close>): the demonstration and the scenarios of
    the benchmark.
  \<^item> Metrics, Structured_Log (\<^verbatim>\<open>observability/metrics\<close>, \<^verbatim>\<open>observability/structured_log\<close>).

  \<^bold>\<open>How code becomes definitions.\<close> A class is a record with the fields of the class, an operation a
  function from the state to the result and the new state. \<open>None\<close> as the result of an operation
  means undefined behaviour (a dangling pointer, a missing map entry, a signed overflow of \<open>parse_i64\<close>), so that a theorem with a
  \<open>Some\<close> in its conclusion says that there is none among those the model has, under the hypotheses of the theorem. Ids and counters are 64-bit words; prices and
  quantities are integers whose other arithmetic is brought back into the signed 64-bit range. The calls of
  a sink are a trace, each with the engine as it is at the moment of the call, which is what a sink
  that looks at the books sees. A fill that consumes a resting order reads this order after freeing it. The record \<^verbatim>\<open>Env\<close> says whether such a
  read is survived, and what it returns; if it is not, the operation is undefined. Theorems that need the read to find the old
  value say so (\<^verbatim>\<open>freed_price_intact\<close>), and \<^verbatim>\<open>submit_undefined_iff\<close> says when it is made: the theorems on whole runs hold for the code only as far as freed memory
  stays readable and unchanged until the read.
  Clocks are parameters. Doubles are rationals with an explicit rounding. Files are byte lists, sockets
  the chunks that arrive and the byte strings handed over. Threads are step relations or
  sequences of actions; where a mutex makes an operation atomic it is one action. Each push of a worker is an action of its own; an action of a server contains
  the sends it makes and takes place when they have returned.

  \<^bold>\<open>What is shown.\<close> For the book: it refines two sorted queues, insertion, modification, quotes and depth. For
  the engine: matching is price-time priority and terminates; trades are sound and conserve quantity;
  results, sequence numbers and rejections; a sequence of commands that meet their conditions returns and leaves every book
  well-formed and uncrossed. For risk: the first failing check decides; the burst of the rate
  limiter. For market data: quotes stay in step with the books under submissions; the ring holds
  the latest events. For persistence: what the format keeps is read back; replay applies the records up to the first it cannot and rebuilds the books of a
  session of orders it can reproduce, up to the traders, times in force and timestamps, which the log or the replay loses. For the
  interfaces: requests survive printing and parsing, chunking does not matter, and a connection does to
  the engine what its commands do, as long as its numerals fit and its modifications do not cross; each WebSocket command has its reply; the commands of any number of
  WebSocket connections take effect one after the other, each connection's in its order; stopping the TCP gateway waits for
  its clients only and ends with every thread joined and every descriptor closed, and stopping the WebSocket server waits for nothing but its close
  frames to be taken. For concurrency: the ring is a
  queue under every interleaving and every staleness of loads; a worker executes what it accepts in order, empties
  its inbox and stops, and the instruments of a pool do not disturb each other. For observability: the counters count, escaping is reversible. For the simulator: every
  order of a random run is accounted for, a script does what its lines say, and the log of a run is complete. For the
  domain types: a price through a double loses at most a tick.

  Several theorems record where the code does not do what it means to: the reads of freed orders, the level storage keyed by price
  alone, stale quotes after a cancel, append mode of the log, fill-or-kill, orders abandoned by a stop, colliding
  peer ids, the wrapped frame length, request ids taken for field names, truncated Prometheus text,
  unbalanced log records, market orders replayed as limit orders, numerals that overflow, a stop that waits for silent clients or for clients that do not read, and can
  end the process, ports cut to 16 bits, prices that lose a tick.

  \<^bold>\<open>Bounds and fuel.\<close> No definition needs fuel. The matching loop and the join of a worker are \<^verbatim>\<open>partial_function\<close>s and proved to
  return (every iteration takes from the taker or from the book; a stopped thread makes its last pushes and exits); the other loops have a measure: the
  bytes left, the characters left, the orders left.

  \<^bold>\<open>Not modelled.\<close> Exhaustion of memory; the SHA-1 digest, which is OpenSSL's and a parameter, as are the
  answers of the socket calls, the clocks and the random generator; weak memory beyond stale loads of
  the two cursors of the ring; the bytes of frames that several threads send to one WebSocket peer without a lock, each of
  which is taken to be sent whole; a descriptor number that is used again while an old thread still holds it; the data
  races on the plain integers \<open>fd_\<close> and \<open>listen_fd_\<close>, which \<open>stop\<close> and \<open>close_internal\<close> overwrite while other threads read them; the timing and registration of the benchmark; the
  destructors, which only stop and release; declarations in headers, which the definitions of the implementations stand for. The engine is shared by the TCP
  connections without a lock, which is a data race in the code, so that the theorems on the TCP gateway's
  effect on the engine are about one connection at a time, while Server_Lifecycle interleaves the threads and
  leaves the engine out. The tests are not modelled, and the browser dashboard contains no logic of the engine.
\<close>

end
